(* ===== verification/Prelude.thy ===== *)
theory Prelude
  imports Main "HOL-Library.Word" "HOL-Library.List_Lexorder" "HOL-Library.Char_ord"
    "HOL-Library.Product_Lexorder" "HOL-Library.Multiset"
begin

text \<open>
  Shared vocabulary of the development: the saturating machine arithmetic of the Rust sources,
  the option combinators they use, ordered maps (the sources' \<open>BTreeMap\<close>), stable sorting by a
  key, and the two facts collections the component proofs draw on.

  Unsigned machine integers are naturals, signed ones are integers; every operation of the
  sources that saturates is written out with its bound here (\<open>sat_add64\<close>, \<open>sat_addi\<close>, ...), and
  operations that wrap around use \<open>'w word\<close>.
\<close>

unbundle bit_operations_syntax

named_theorems router_defs \<open>defining equations unfolded by the component proofs\<close>
named_theorems sat_simps \<open>bounds of the saturating operations\<close>

section \<open>Saturating arithmetic\<close>

definition u8_max :: nat where "u8_max = 255"
definition u16_max :: nat where "u16_max = 65535"
definition u32_max :: nat where "u32_max = 4294967295"
definition u64_max :: nat where "u64_max = 18446744073709551615"
definition i64_max :: int where "i64_max = 9223372036854775807"
definition i64_min :: int where "i64_min = - 9223372036854775808"

lemmas int_limits = u8_max_def u16_max_def u32_max_def u64_max_def i64_max_def i64_min_def

definition sat_u64 :: "nat \<Rightarrow> nat" where
  "sat_u64 n = min n u64_max"

definition sat_add64 :: "nat \<Rightarrow> nat \<Rightarrow> nat" where
  "sat_add64 a b = sat_u64 (a + b)"

definition sat_mul64 :: "nat \<Rightarrow> nat \<Rightarrow> nat" where
  "sat_mul64 a b = sat_u64 (a * b)"

definition sat_add32 :: "nat \<Rightarrow> nat \<Rightarrow> nat" where
  "sat_add32 a b = min (a + b) u32_max"

definition sat_i64 :: "int \<Rightarrow> int" where
  "sat_i64 x = max i64_min (min x i64_max)"

definition sat_addi :: "int \<Rightarrow> int \<Rightarrow> int" where
  "sat_addi a b = sat_i64 (a + b)"

definition sat_subi :: "int \<Rightarrow> int \<Rightarrow> int" where
  "sat_subi a b = sat_i64 (a - b)"

text \<open>Rust's \<open>Ord::clamp\<close> on \<open>i64\<close>; every use has a constant non-empty range.\<close>

definition clamp_i :: "int \<Rightarrow> int \<Rightarrow> int \<Rightarrow> int" where
  "clamp_i lo hi v = (if v < lo then lo else if hi < v then hi else v)"

definition clamp_n :: "nat \<Rightarrow> nat \<Rightarrow> nat \<Rightarrow> nat" where
  "clamp_n lo hi v = (if v < lo then lo else if hi < v then hi else v)"

text \<open>\<open>u64::div_ceil\<close>; Rust panics on a zero divisor, and every use clamps it away from zero.\<close>

definition div_ceil :: "nat \<Rightarrow> nat \<Rightarrow> nat" where
  "div_ceil a b = a div b + (if a mod b = 0 then 0 else 1)"

lemma sat_u64_le [simp, sat_simps]: "sat_u64 n \<le> u64_max"
  by (simp add: sat_u64_def)

lemma sat_add64_le [simp, sat_simps]: "sat_add64 a b \<le> u64_max"
  by (simp add: sat_add64_def)

lemma sat_mul64_le [simp, sat_simps]: "sat_mul64 a b \<le> u64_max"
  by (simp add: sat_mul64_def)

lemma sat_add64_id [sat_simps]: "a + b \<le> u64_max \<Longrightarrow> sat_add64 a b = a + b"
  by (simp add: sat_add64_def sat_u64_def)

lemma sat_add64_mono: "a \<le> a' \<Longrightarrow> b \<le> b' \<Longrightarrow> sat_add64 a b \<le> sat_add64 a' b'"
  by (simp add: sat_add64_def sat_u64_def min_def)

lemma sat_mul64_mono: "a \<le> a' \<Longrightarrow> b \<le> b' \<Longrightarrow> sat_mul64 a b \<le> sat_mul64 a' b'"
  using mult_le_mono [of a a' b b'] by (simp add: sat_mul64_def sat_u64_def min_def)

lemma sat_add64_ge: "a \<le> u64_max \<Longrightarrow> a \<le> sat_add64 a b"
  by (simp add: sat_add64_def sat_u64_def)

lemma sat_add64_0 [simp]: "a \<le> u64_max \<Longrightarrow> sat_add64 a 0 = a"
  by (simp add: sat_add64_def sat_u64_def)

lemma sat_add64_commute: "sat_add64 a b = sat_add64 b a"
  by (simp add: sat_add64_def add.commute)

lemma sat_addi_id [sat_simps]: "i64_min \<le> a + b \<Longrightarrow> a + b \<le> i64_max \<Longrightarrow> sat_addi a b = a + b"
  by (simp add: sat_addi_def sat_i64_def)

lemma sat_subi_id [sat_simps]: "i64_min \<le> a - b \<Longrightarrow> a - b \<le> i64_max \<Longrightarrow> sat_subi a b = a - b"
  by (simp add: sat_subi_def sat_i64_def)

lemma clamp_i_bounds [simp, sat_simps]:
  "lo \<le> hi \<Longrightarrow> lo \<le> clamp_i lo hi v" "lo \<le> hi \<Longrightarrow> clamp_i lo hi v \<le> hi"
  by (auto simp: clamp_i_def)

lemma clamp_i_id: "lo \<le> v \<Longrightarrow> v \<le> hi \<Longrightarrow> clamp_i lo hi v = v"
  by (simp add: clamp_i_def)

lemma clamp_n_bounds [simp, sat_simps]:
  "lo \<le> hi \<Longrightarrow> lo \<le> clamp_n lo hi v" "lo \<le> hi \<Longrightarrow> clamp_n lo hi v \<le> hi"
  by (auto simp: clamp_n_def)

lemma div_ceil_eq: "0 < b \<Longrightarrow> div_ceil a b = (a + (b - 1)) div b"
proof -
  assume b: "0 < b"
  have "(a + (b - 1)) div b = (a div b * b + (a mod b + (b - 1))) div b" by simp
  also have "\<dots> = a div b + (a mod b + (b - 1)) div b"
    using b by (metis add.commute div_mult_self1 less_irrefl)
  also have "(a mod b + (b - 1)) div b = (if a mod b = 0 then 0 else 1)"
  proof (cases "a mod b = 0")
    case False
    then obtain r where r: "a mod b = Suc r" by (cases "a mod b") auto
    then have "r < b" using mod_less_divisor [OF b, of a] by simp
    moreover have "a mod b + (b - 1) = b + r" using r b by simp
    moreover have "(b + r) div b = 1" using \<open>r < b\<close> b div_add_self1 [of b r] by simp
    ultimately show ?thesis using r by (simp add: add.commute)
  qed (use b in simp)
  finally show ?thesis by (simp add: div_ceil_def)
qed

lemma div_ceil_mono: "a \<le> a' \<Longrightarrow> 0 < b \<Longrightarrow> div_ceil a b \<le> div_ceil a' b"
  by (simp add: div_ceil_eq div_le_mono)

lemma div_ceil_covers: "0 < b \<Longrightarrow> a \<le> div_ceil a b * b"
proof -
  assume b: "0 < b"
  have a: "a = a div b * b + a mod b" by simp
  show ?thesis
  proof (cases "a mod b = 0")
    case False
    have "a mod b \<le> b" using mod_less_divisor [OF b, of a] by simp
    with a have "a \<le> a div b * b + b" by linarith
    with False show ?thesis by (simp add: div_ceil_def add_mult_distrib)
  next
    case True
    with a show ?thesis by (simp add: div_ceil_def)
  qed
qed

section \<open>Option combinators\<close>

definition is_none_or :: "('a \<Rightarrow> bool) \<Rightarrow> 'a option \<Rightarrow> bool" where
  "is_none_or p x = (case x of None \<Rightarrow> True | Some y \<Rightarrow> p y)"

definition is_some_and :: "('a \<Rightarrow> bool) \<Rightarrow> 'a option \<Rightarrow> bool" where
  "is_some_and p x = (case x of None \<Rightarrow> False | Some y \<Rightarrow> p y)"

definition unwrap_or :: "'a \<Rightarrow> 'a option \<Rightarrow> 'a" where
  "unwrap_or d x = (case x of None \<Rightarrow> d | Some y \<Rightarrow> y)"

lemma is_none_or_simps [simp]: "is_none_or p None" "is_none_or p (Some y) = p y"
  by (simp_all add: is_none_or_def)

lemma is_some_and_simps [simp]: "\<not> is_some_and p None" "is_some_and p (Some y) = p y"
  by (simp_all add: is_some_and_def)

lemma unwrap_or_simps [simp]: "unwrap_or d None = d" "unwrap_or d (Some y) = y"
  by (simp_all add: unwrap_or_def)

lemma is_none_or_iff: "is_none_or p x \<longleftrightarrow> (\<forall>y. x = Some y \<longrightarrow> p y)"
  by (cases x) auto

lemma is_some_and_iff: "is_some_and p x \<longleftrightarrow> (\<exists>y. x = Some y \<and> p y)"
  by (cases x) auto

section \<open>Ordered maps\<close>

text \<open>
  A \<open>BTreeMap\<close> is an association list in strictly ascending key order, which keeps the
  iteration order the sources rely on.
\<close>

type_synonym ('k, 'v) btree_map = "('k \<times> 'v) list"

definition btree_wf :: "('k::linorder, 'v) btree_map \<Rightarrow> bool" where
  "btree_wf m = sorted_wrt (<) (map fst m)"

definition btree_get :: "('k, 'v) btree_map \<Rightarrow> 'k \<Rightarrow> 'v option" where
  "btree_get m k = map_of m k"

fun btree_insert :: "'k::linorder \<Rightarrow> 'v \<Rightarrow> ('k, 'v) btree_map \<Rightarrow> ('k, 'v) btree_map" where
  "btree_insert k v [] = [(k, v)]"
| "btree_insert k v ((k', v') # m) =
     (if k < k' then (k, v) # (k', v') # m
      else if k = k' then (k, v) # m
      else (k', v') # btree_insert k v m)"

definition btree_remove :: "'k \<Rightarrow> ('k, 'v) btree_map \<Rightarrow> ('k, 'v) btree_map" where
  "btree_remove k m = filter (\<lambda>(k', _). k' \<noteq> k) m"

definition btree_values :: "('k, 'v) btree_map \<Rightarrow> 'v list" where
  "btree_values m = map snd m"

locale keyed_store =
  fixes empty :: 'm
    and get :: "'m \<Rightarrow> 'k \<Rightarrow> 'v option"
    and put :: "'k \<Rightarrow> 'v \<Rightarrow> 'm \<Rightarrow> 'm"
    and del :: "'k \<Rightarrow> 'm \<Rightarrow> 'm"
    and ok :: "'m \<Rightarrow> bool"
  assumes ok_empty: "ok empty"
    and ok_put: "ok m \<Longrightarrow> ok (put k v m)"
    and ok_del: "ok m \<Longrightarrow> ok (del k m)"
    and get_empty: "get empty k = None"
    and get_put: "ok m \<Longrightarrow> get (put k v m) k' = (if k' = k then Some v else get m k')"
    and get_del: "ok m \<Longrightarrow> get (del k m) k' = (if k' = k then None else get m k')"
begin

lemma get_put_same: "ok m \<Longrightarrow> get (put k v m) k = Some v"
  by (simp add: get_put)

lemma get_put_other: "ok m \<Longrightarrow> k' \<noteq> k \<Longrightarrow> get (put k v m) k' = get m k'"
  by (simp add: get_put)

lemma ok_fold_put: "ok m \<Longrightarrow> ok (fold (\<lambda>(k, v). put k v) kvs m)"
  by (induction kvs arbitrary: m) (auto intro: ok_put)

lemma get_fold_put:
  "ok m \<Longrightarrow> get (fold (\<lambda>(k, v). put k v) kvs m) k =
     (case map_of (rev kvs) k of Some v \<Rightarrow> Some v | None \<Rightarrow> get m k)"
proof (induction kvs arbitrary: m)
  case (Cons kv kvs)
  obtain k' v' where kv: "kv = (k', v')" by (cases kv)
  from Cons show ?case
    by (simp add: kv ok_put get_put map_add_def split: option.splits)
qed simp

end

lemma btree_insert_keys: "set (map fst (btree_insert k v m)) = insert k (set (map fst m))"
  by (induction k v m rule: btree_insert.induct) auto

lemma btree_wf_insert: "btree_wf m \<Longrightarrow> btree_wf (btree_insert k v m)"
proof (induction k v m rule: btree_insert.induct)
  case (2 k v k' v' m)
  then show ?case
    using btree_insert_keys [of k v m] by (auto simp: btree_wf_def)
qed (simp add: btree_wf_def)

lemma btree_get_insert:
  "btree_get (btree_insert k v m) k' = (if k' = k then Some v else btree_get m k')"
  by (induction k v m rule: btree_insert.induct) (auto simp: btree_get_def)

lemma btree_get_remove:
  "btree_get (btree_remove k m) k' = (if k' = k then None else btree_get m k')"
  by (induction m) (auto simp: btree_get_def btree_remove_def)

lemma btree_wf_remove: "btree_wf m \<Longrightarrow> btree_wf (btree_remove k m)"
  by (induction m) (auto simp: btree_wf_def btree_remove_def)

interpretation btree: keyed_store "[]" btree_get btree_insert btree_remove btree_wf
  by unfold_locales
    (auto simp: btree_wf_insert btree_get_insert btree_wf_remove btree_get_remove,
     simp_all add: btree_wf_def btree_get_def)

lemma btree_get_values: "btree_get m k = Some v \<Longrightarrow> v \<in> set (btree_values m)"
  by (force simp: btree_get_def btree_values_def dest: map_of_SomeD)

lemma find_by_name: "distinct (map f xs) \<Longrightarrow> x \<in> set xs \<Longrightarrow> List.find (\<lambda>y. f y = f x) xs = Some x"
  by (induction xs) force+

section \<open>Sorting by a key\<close>

text \<open>
  \<open>slice::sort_by\<close> is a stable sort, as \<^const>\<open>sort_key\<close> is. With pairwise distinct keys the
  result depends only on the multiset of elements.
\<close>

lemma filter_key_singleton:
  assumes "distinct (map f xs)" "x \<in> set xs"
  shows "filter (\<lambda>y. f x = f y) xs = [x]"
  using assms
proof (induction xs)
  case (Cons a xs)
  have none: "filter (\<lambda>y. f a = f y) xs = []"
    using Cons.prems(1) by (auto simp: filter_empty_conv)
  show ?case
  proof (cases "x = a")
    case True
    with none show ?thesis by simp
  next
    case False
    then have x: "x \<in> set xs" using Cons.prems(2) by simp
    then have "f x \<noteq> f a" using Cons.prems(1) by (metis distinct.simps(2) image_eqI image_set list.simps(9))
    with x Cons show ?thesis by simp
  qed
qed simp

lemma sort_key_perm_unique:
  assumes "mset xs = mset ys" "distinct (map f xs)"
  shows "sort_key f xs = sort_key f ys"
proof -
  have "mset (map f xs) = mset (map f ys)" using assms(1) by (metis mset_map)
  then have d: "distinct (map f ys)"
    using assms(2) by (metis mset_eq_imp_distinct_iff)
  have s: "set xs = set ys" using assms(1) by (metis set_mset_mset)
  show ?thesis
  proof (rule properties_for_sort_key)
    show "mset (sort_key f ys) = mset xs" using assms(1) by simp
    show "sorted (map f (sort_key f ys))" by simp
    fix k assume k: "k \<in> set (sort_key f ys)"
    then have "filter (\<lambda>x. f k = f x) xs = [k]" "filter (\<lambda>x. f k = f x) ys = [k]"
      using filter_key_singleton [OF assms(2), of k] filter_key_singleton [OF d, of k] s by simp_all
    then show "filter (\<lambda>x. f k = f x) (sort_key f ys) = filter (\<lambda>x. f k = f x) xs"
      by (simp add: filter_sort)
  qed
qed

lemma hd_sort_key_least:
  assumes "x \<in> set xs"
  shows "f (hd (sort_key f xs)) \<le> f x"
proof -
  have "sort_key f xs \<noteq> []" using assms by (metis empty_iff empty_set set_sort)
  moreover have "sorted (map f (sort_key f xs))" by simp
  moreover have "x \<in> set (sort_key f xs)" using assms by simp
  ultimately show ?thesis
    by (cases "sort_key f xs") auto
qed

section \<open>Decimal rendering\<close>

text \<open>The \<open>Display\<close> rendering of an unsigned integer.\<close>

fun show_nat :: "nat \<Rightarrow> string" where
  "show_nat n = (if n < 10 then [char_of (48 + n)] else show_nat (n div 10) @ [char_of (48 + n mod 10)])"

declare show_nat.simps [simp del]

definition digit_value :: "char \<Rightarrow> nat" where
  "digit_value c = of_char c - 48"

definition is_ascii_digit :: "char \<Rightarrow> bool" where
  "is_ascii_digit c = (let n = of_char c :: nat in 48 \<le> n \<and> n \<le> 57)"

definition read_nat :: "string \<Rightarrow> nat" where
  "read_nat s = foldl (\<lambda>v c. 10 * v + digit_value c) 0 s"

lemma digit_char [simp]:
  "d < 10 \<Longrightarrow> digit_value (char_of (48 + d)) = d" "d < 10 \<Longrightarrow> is_ascii_digit (char_of (48 + d))"
  by (simp_all add: digit_value_def is_ascii_digit_def Let_def)

lemma show_nat_nonempty [simp]: "show_nat n \<noteq> []"
  by (subst show_nat.simps) simp

lemma show_nat_digits: "list_all is_ascii_digit (show_nat n)"
proof (induction n rule: show_nat.induct)
  case (1 n)
  then show ?case by (subst show_nat.simps) (cases "n < 10"; simp)
qed

lemma read_show_nat: "read_nat (show_nat n) = n"
proof (induction n rule: show_nat.induct)
  case (1 n)
  show ?case
  proof (cases "n < 10")
    case True
    then show ?thesis by (subst show_nat.simps) (simp add: read_nat_def)
  next
    case False
    with 1 have "read_nat (show_nat (n div 10)) = n div 10" by simp
    with False show ?thesis by (subst show_nat.simps) (simp add: read_nat_def)
  qed
qed

lemma show_nat_inject: "show_nat m = show_nat n \<longleftrightarrow> m = n"
  by (metis read_show_nat)

end
