(* ===== verification/Ids.thy ===== *)
theory Ids
  imports Prelude
begin

text \<open>
  Identifiers (\<open>hypellm-core/src/ids.rs\<close>): the validated string newtypes of the domain model
  and the 128-bit request identifier with its hexadecimal codec.
\<close>

datatype id_error = Empty | TooLong | InvalidCharacter

definition MAX_ID_LEN :: nat where
  "MAX_ID_LEN = 128"

definition is_ascii_alphanumeric :: "char \<Rightarrow> bool" where
  "is_ascii_alphanumeric c =
     (let n = of_char c :: nat
      in (48 \<le> n \<and> n \<le> 57) \<or> (65 \<le> n \<and> n \<le> 90) \<or> (97 \<le> n \<and> n \<le> 122))"

definition id_byte_ok :: "char \<Rightarrow> bool" where
  "id_byte_ok b = (is_ascii_alphanumeric b \<or> b = CHR ''.'' \<or> b = CHR ''_'' \<or> b = CHR ''-'' \<or> b = CHR '':'')"

fun validate_bytes :: "string \<Rightarrow> id_error + unit" where
  "validate_bytes [] = Inr ()"
| "validate_bytes (b # bs) = (if \<not> id_byte_ok b then Inl InvalidCharacter else validate_bytes bs)"

definition validate :: "string \<Rightarrow> id_error + unit" where
  "validate s =
     (if s = [] then Inl Empty
      else if length s > MAX_ID_LEN then Inl TooLong
      else validate_bytes s)"

text \<open>
  Every identifier newtype is generated by one macro around \<open>validate\<close>; the model's
  identifiers are the strings inside.
\<close>

definition id_new :: "string \<Rightarrow> id_error + string" where
  "id_new s = (case validate s of Inl e \<Rightarrow> Inl e | Inr _ \<Rightarrow> Inr s)"

type_synonym tenant_id = string
type_synonym principal_id = string
type_synonym group_id = string
type_synonym provider_id = string
type_synonym target_id = string
type_synonym alias_id = string
type_synonym credential_ref = string
type_synonym binding_id = string
type_synonym host_id = string
type_synonym key_id = string

type_synonym request_id = "128 word"

definition hex_value :: "char \<Rightarrow> 128 word option" where
  "hex_value b =
     (let n = of_char b :: nat
      in if 48 \<le> n \<and> n \<le> 57 then Some (of_nat (n - 48))
         else if 97 \<le> n \<and> n \<le> 102 then Some (of_nat (n - 97) + 10)
         else None)"

fun request_id_loop :: "128 word \<Rightarrow> string \<Rightarrow> id_error + request_id" where
  "request_id_loop v [] = Inr v"
| "request_id_loop v (b # bs) =
     (case hex_value b of
        None \<Rightarrow> Inl InvalidCharacter
      | Some d \<Rightarrow> request_id_loop (push_bit 4 v OR d) bs)"

definition request_id_parse :: "string \<Rightarrow> id_error + request_id" where
  "request_id_parse s = (if length s \<noteq> 32 then Inl InvalidCharacter else request_id_loop 0 s)"

text \<open>\<open>format!("{:032x}")\<close>: the 32 nibbles, most significant first.\<close>

definition hex_digit :: "nat \<Rightarrow> char" where
  "hex_digit n = (if n < 10 then char_of (48 + n) else char_of (87 + n))"

fun nibbles :: "nat \<Rightarrow> request_id \<Rightarrow> nat list" where
  "nibbles 0 v = []"
| "nibbles (Suc n) v = unat (drop_bit (4 * n) v AND 15) # nibbles n v"

definition request_id_to_hex :: "request_id \<Rightarrow> string" where
  "request_id_to_hex v = map hex_digit (nibbles 32 v)"

section \<open>Validation\<close>

lemma validate_bytes_Inr: "validate_bytes s = Inr () \<longleftrightarrow> list_all id_byte_ok s"
  by (induction s) auto

text \<open>A successfully constructed identifier is exactly a non-empty, bounded, delimiter-free string.\<close>

lemma id_new_iff:
  "id_new s = Inr t \<longleftrightarrow> t = s \<and> s \<noteq> [] \<and> length s \<le> MAX_ID_LEN \<and> list_all id_byte_ok s"
  using validate_bytes_Inr [of s]
  by (auto simp: id_new_def validate_def split: sum.splits)

text \<open>The delimiters of store keys, log lines and the configuration grammar.\<close>

definition id_delimiters :: "char list" where
  "id_delimiters = [CHR ''/'', CHR '' '', CHR 0x0A, CHR 0x0D, CHR 0x09, CHR 0x22, CHR 0x27, CHR ''|'']"

lemma id_delimiters_rejected: "list_all (\<lambda>c. \<not> id_byte_ok c) id_delimiters"
  by (simp add: id_delimiters_def id_byte_ok_def is_ascii_alphanumeric_def Let_def)

text \<open>
  A constructed identifier is the string it was given, 1 to 128 bytes long, and contains no
  delimiter of a store key, a log line or the configuration grammar.
\<close>

theorem id_new_no_delimiter:
  assumes "id_new s = Inr t"
  shows "s = t \<and> 0 < length t \<and> length t \<le> 128 \<and> set t \<inter> set id_delimiters = {}"
proof -
  from assms have t: "t = s" "s \<noteq> []" "length s \<le> 128" and ok: "list_all id_byte_ok s"
    by (simp_all add: id_new_iff MAX_ID_LEN_def)
  have "set s \<inter> set id_delimiters = {}"
    using ok id_delimiters_rejected unfolding list_all_iff by blast
  with t show ?thesis by simp
qed

theorem id_new_no_delimiter_witness:
  "id_new ''local:qwen'' = Inr ''local:qwen'' \<and> set ''local:qwen'' \<inter> set id_delimiters = {}"
proof -
  have h: "id_new ''local:qwen'' = Inr ''local:qwen''" by code_simp
  from id_new_no_delimiter [OF h] h show ?thesis by (simp only: simp_thms)
qed

section \<open>Request identifiers\<close>

lemma hex_value_digit: "n < 16 \<Longrightarrow> hex_value (hex_digit n) = Some (of_nat n)"
proof -
  assume n: "n < 16"
  then consider "n < 10" | "10 \<le> n" "n < 16" by linarith
  then show ?thesis
    by cases (auto simp: hex_value_def hex_digit_def Let_def of_nat_diff)
qed

lemma nibble_lt: "unat (drop_bit k (v :: 128 word) AND 15) < 16"
proof -
  have "unat (drop_bit k v AND 15) \<le> unat (15 :: 128 word)"
    by (rule word_and_le1 [THEN word_le_nat_alt [THEN iffD1]])
  then show ?thesis by simp
qed

lemma nibble_step:
  "push_bit 4 (drop_bit (4 * Suc n) v) OR (drop_bit (4 * n) v AND 15) = drop_bit (4 * n) (v :: 128 word)"
proof -
  have m: "(15 :: 128 word) = mask 4" by (simp add: mask_eq_exp_minus_1)
  show ?thesis
    unfolding m
    by (rule bit_eqI) (auto simp: bit_simps not_less)
qed

lemma request_id_loop_nibbles:
  "request_id_loop (drop_bit (4 * n) v) (map hex_digit (nibbles n v)) = Inr v"
proof (induction n)
  case (Suc n)
  have "hex_value (hex_digit (unat (drop_bit (4 * n) v AND 15))) = Some (drop_bit (4 * n) v AND 15)"
    using hex_value_digit [OF nibble_lt] by simp
  with Suc nibble_step [of n v] show ?case by simp
qed simp

lemma length_nibbles [simp]: "length (nibbles n v) = n"
  by (induction n) auto

text \<open>A request identifier survives rendering and parsing, and the rendering is 32 bytes.\<close>

theorem request_id_roundtrip:
  "request_id_parse (request_id_to_hex v) = Inr v \<and> length (request_id_to_hex v) = 32"
proof -
  have "drop_bit (4 * 32) v = (0 :: 128 word)" by (rule bit_eqI) (simp add: bit_simps)
  with request_id_loop_nibbles [of 32 v] show ?thesis
    by (simp add: request_id_parse_def request_id_to_hex_def)
qed

end
