(* ===== verification/Canonical.thy ===== *)
theory Canonical
  imports Complex_Main Ids
begin

text \<open>
  The canonical request (\<open>hypellm-core/src/canonical.rs\<close>): the closed vocabularies with their
  stable tokens, message content, sampling parameters, and the conservative token estimate that
  admission and routing share. Byte lengths (\<open>usize\<close>) are naturals; sums of lengths of in-memory
  buffers are not bounded, since the address space bounds them. A finite \<open>f64\<close> is a rational:
  the sources only compare them.
\<close>

section \<open>Closed vocabularies\<close>

datatype operation = Chat | Responses | Embeddings | Tokenize | Rerank | Job

fun operation_ord :: "operation \<Rightarrow> nat" where
  "operation_ord Chat = 0"
| "operation_ord Responses = 1"
| "operation_ord Embeddings = 2"
| "operation_ord Tokenize = 3"
| "operation_ord Rerank = 4"
| "operation_ord Job = 5"

lemma operation_ord_inj: "operation_ord a = operation_ord b \<Longrightarrow> a = b"
  by (cases a; cases b) simp_all

instantiation operation :: linorder
begin
definition less_eq_operation :: "operation \<Rightarrow> operation \<Rightarrow> bool" where
  "less_eq_operation a b = (operation_ord a \<le> operation_ord b)"
definition less_operation :: "operation \<Rightarrow> operation \<Rightarrow> bool" where
  "less_operation a b = (operation_ord a < operation_ord b)"
instance
  by standard (auto simp: less_eq_operation_def less_operation_def intro: operation_ord_inj)
end

fun operation_as_str :: "operation \<Rightarrow> string" where
  "operation_as_str Chat = ''chat''"
| "operation_as_str Responses = ''responses''"
| "operation_as_str Embeddings = ''embeddings''"
| "operation_as_str Tokenize = ''tokenize''"
| "operation_as_str Rerank = ''rerank''"
| "operation_as_str Job = ''job''"

definition operation_parse :: "string \<Rightarrow> operation option" where
  "operation_parse s =
     (if s = ''chat'' then Some Chat
      else if s = ''responses'' then Some Responses
      else if s = ''embeddings'' then Some Embeddings
      else if s = ''tokenize'' then Some Tokenize
      else if s = ''rerank'' then Some Rerank
      else if s = ''job'' then Some Job
      else None)"

definition can_stream :: "operation \<Rightarrow> bool" where
  "can_stream op = (op = Chat \<or> op = Responses)"

definition operation_all :: "operation list" where
  "operation_all = [Chat, Responses, Embeddings, Tokenize, Rerank, Job]"

datatype role = RSystem | RUser | RAssistant | RTool

fun role_as_str :: "role \<Rightarrow> string" where
  "role_as_str RSystem = ''system''"
| "role_as_str RUser = ''user''"
| "role_as_str RAssistant = ''assistant''"
| "role_as_str RTool = ''tool''"

definition role_parse :: "string \<Rightarrow> role option" where
  "role_parse s =
     (if s = ''system'' \<or> s = ''developer'' then Some RSystem
      else if s = ''user'' then Some RUser
      else if s = ''assistant'' then Some RAssistant
      else if s = ''tool'' \<or> s = ''function'' then Some RTool
      else None)"

datatype modality = Text | Image | Audio | Document

fun modality_as_str :: "modality \<Rightarrow> string" where
  "modality_as_str Text = ''text''"
| "modality_as_str Image = ''image''"
| "modality_as_str Audio = ''audio''"
| "modality_as_str Document = ''document''"

definition modality_parse :: "string \<Rightarrow> modality option" where
  "modality_parse s =
     (if s = ''text'' then Some Text
      else if s = ''image'' then Some Image
      else if s = ''audio'' then Some Audio
      else if s = ''document'' then Some Document
      else None)"

definition modality_all :: "modality list" where
  "modality_all = [Text, Image, Audio, Document]"

text \<open>The derived \<open>Ord\<close> of \<open>Modality\<close> is the declaration order.\<close>

fun modality_ord :: "modality \<Rightarrow> nat" where
  "modality_ord Text = 0"
| "modality_ord Image = 1"
| "modality_ord Audio = 2"
| "modality_ord Document = 3"

lemma modality_ord_inj: "modality_ord a = modality_ord b \<Longrightarrow> a = b"
  by (cases a; cases b) simp_all

instantiation modality :: linorder
begin
definition less_eq_modality :: "modality \<Rightarrow> modality \<Rightarrow> bool" where
  "less_eq_modality a b = (modality_ord a \<le> modality_ord b)"
definition less_modality :: "modality \<Rightarrow> modality \<Rightarrow> bool" where
  "less_modality a b = (modality_ord a < modality_ord b)"
instance
  by standard (auto simp: less_eq_modality_def less_modality_def intro: modality_ord_inj)
end

datatype reasoning_effort = Unset | Minimal | Low | Medium | High

fun effort_as_str :: "reasoning_effort \<Rightarrow> string" where
  "effort_as_str Unset = ''unset''"
| "effort_as_str Minimal = ''minimal''"
| "effort_as_str Low = ''low''"
| "effort_as_str Medium = ''medium''"
| "effort_as_str High = ''high''"

definition effort_parse :: "string \<Rightarrow> reasoning_effort option" where
  "effort_parse s =
     (if s = ''unset'' \<or> s = ''none'' then Some Unset
      else if s = ''minimal'' then Some Minimal
      else if s = ''low'' then Some Low
      else if s = ''medium'' then Some Medium
      else if s = ''high'' then Some High
      else None)"

fun default_output_multiplier :: "reasoning_effort \<Rightarrow> nat" where
  "default_output_multiplier Unset = 1"
| "default_output_multiplier Minimal = 1"
| "default_output_multiplier Low = 2"
| "default_output_multiplier Medium = 4"
| "default_output_multiplier High = 8"

datatype client_protocol =
  OpenAiChat | OpenAiResponses | OpenAiEmbeddings | AnthropicMessages | RerankProtocol | Native

fun protocol_as_str :: "client_protocol \<Rightarrow> string" where
  "protocol_as_str OpenAiChat = ''openai_chat''"
| "protocol_as_str OpenAiResponses = ''openai_responses''"
| "protocol_as_str OpenAiEmbeddings = ''openai_embeddings''"
| "protocol_as_str AnthropicMessages = ''anthropic_messages''"
| "protocol_as_str RerankProtocol = ''rerank''"
| "protocol_as_str Native = ''native''"

text \<open>Administrator-assigned ordinals (\<open>CostClass\<close>, \<open>QualityClass\<close>), clamped to 0..9.\<close>

type_synonym cost_class = nat
type_synonym quality_class = nat

definition cost_class_new :: "nat \<Rightarrow> cost_class" where
  "cost_class_new v = (if v > 9 then 9 else v)"

definition quality_class_new :: "nat \<Rightarrow> quality_class" where
  "quality_class_new v = (if v > 9 then 9 else v)"

definition quality_class_default :: quality_class where
  "quality_class_default = 0"

definition to_ascii_lower :: "char \<Rightarrow> char" where
  "to_ascii_lower c =
     (let n = of_char c :: nat in if 65 \<le> n \<and> n \<le> 90 then char_of (n + 32) else c)"

type_synonym residency = string

definition residency_new :: "string \<Rightarrow> residency" where
  "residency_new region = map to_ascii_lower region"

datatype document_type = Pdf | PlainText | Markdown | Csv

fun document_type_as_str :: "document_type \<Rightarrow> string" where
  "document_type_as_str Pdf = ''application/pdf''"
| "document_type_as_str PlainText = ''text/plain''"
| "document_type_as_str Markdown = ''text/markdown''"
| "document_type_as_str Csv = ''text/csv''"

section \<open>Message content\<close>

datatype image_source = ImageInline string string | ImageUrl string

datatype document_source = DocInline string | DocUrl string

datatype content_part =
    PText string
  | PImage image_source
  | PDocument document_type document_source
  | PAudio string string
  | PToolResult string string bool

fun part_byte_len :: "content_part \<Rightarrow> nat" where
  "part_byte_len (PText t) = length t"
| "part_byte_len (PImage (ImageInline _ b64)) = length b64"
| "part_byte_len (PImage (ImageUrl u)) = length u"
| "part_byte_len (PAudio _ b64) = length b64"
| "part_byte_len (PToolResult _ content _) = length content"
| "part_byte_len (PDocument _ (DocInline b64)) = length b64"
| "part_byte_len (PDocument _ (DocUrl u)) = length u"

fun part_modality :: "content_part \<Rightarrow> modality" where
  "part_modality (PText _) = Text"
| "part_modality (PToolResult _ _ _) = Text"
| "part_modality (PImage _) = Image"
| "part_modality (PAudio _ _) = Audio"
| "part_modality (PDocument _ _) = Document"

fun is_document :: "content_part \<Rightarrow> bool" where
  "is_document (PDocument _ _) = True"
| "is_document _ = False"

fun part_inline_document_bytes :: "content_part \<Rightarrow> nat option" where
  "part_inline_document_bytes (PDocument _ (DocInline b64)) =
     (let padding = length (takeWhile (\<lambda>b. b = CHR ''='') (rev b64));
          decoded = length b64 div 4 * 3
      in Some (decoded - min padding 2))"
| "part_inline_document_bytes _ = None"

record tool_call =
  tc_id :: string
  tc_name :: string
  tc_arguments :: string

record message =
  msg_role :: role
  msg_content :: "content_part list"
  msg_name :: "string option"
  msg_tool_calls :: "tool_call list"

definition message_text :: "role \<Rightarrow> string \<Rightarrow> message" where
  "message_text r t =
     \<lparr>msg_role = r, msg_content = [PText t], msg_name = None, msg_tool_calls = []\<rparr>"

definition message_byte_len :: "message \<Rightarrow> nat" where
  "message_byte_len m =
     sum_list (map part_byte_len (msg_content m)) +
     sum_list (map (\<lambda>c. length (tc_arguments c) + length (tc_name c)) (msg_tool_calls m))"

fun part_text :: "content_part \<Rightarrow> string option" where
  "part_text (PText t) = Some t"
| "part_text _ = None"

definition message_as_text :: "message \<Rightarrow> string option" where
  "message_as_text m =
     (if list_ex (\<lambda>p. part_text p = None) (msg_content m) then None
      else Some (concat (List.map_filter part_text (msg_content m))))"

record tool_def =
  td_name :: string
  td_description :: "string option"
  td_parameters_json :: string
  td_strict :: bool

datatype tool_choice = ToolAuto | ToolNone | ToolRequired | ToolFunction string

datatype response_format = FormatText | JsonObject | JsonSchema string string bool

section \<open>Sampling parameters\<close>

datatype f64 = Finite rat | PosInf | NegInf | NaN

fun f64_in_range :: "rat \<Rightarrow> rat \<Rightarrow> f64 \<Rightarrow> bool" where
  "f64_in_range lo hi (Finite x) = (lo \<le> x \<and> x \<le> hi)"
| "f64_in_range lo hi _ = False"

fun f64_is_finite :: "f64 \<Rightarrow> bool" where
  "f64_is_finite (Finite _) = True"
| "f64_is_finite _ = False"

record llama_cpp_samplers =
  repeat_penalty :: "f64 option"
  repeat_last_n :: "int option"
  dry_multiplier :: "f64 option"
  dry_base :: "f64 option"
  dry_allowed_length :: "nat option"
  dry_penalty_last_n :: "int option"
  dry_sequence_breakers :: "string list option"

definition samplers_default :: llama_cpp_samplers where
  "samplers_default =
     \<lparr>repeat_penalty = None, repeat_last_n = None, dry_multiplier = None, dry_base = None,
      dry_allowed_length = None, dry_penalty_last_n = None, dry_sequence_breakers = None\<rparr>"

definition samplers_validate :: "llama_cpp_samplers \<Rightarrow> string + unit" where
  "samplers_validate s =
     (let in_rng = (\<lambda>v lo hi. is_none_or (\<lambda>x. f64_is_finite x \<and> f64_in_range lo hi x) v);
          last_n = is_none_or (\<lambda>n. 0 \<le> n \<and> n \<le> 1048576)
      in if \<not> in_rng (repeat_penalty s) 0 2 then Inl ''repeat_penalty''
         else if \<not> last_n (repeat_last_n s) then Inl ''repeat_last_n''
         else if \<not> in_rng (dry_multiplier s) 0 5 then Inl ''dry_multiplier''
         else if \<not> in_rng (dry_base s) 1 10 then Inl ''dry_base''
         else if \<not> is_none_or (\<lambda>n. n \<le> 1024) (dry_allowed_length s) then Inl ''dry_allowed_length''
         else if \<not> last_n (dry_penalty_last_n s) then Inl ''dry_penalty_last_n''
         else if is_some_and (\<lambda>bs. length bs > 16 \<or> list_ex (\<lambda>b. b = [] \<or> length b > 64) bs)
                   (dry_sequence_breakers s) then Inl ''dry_sequence_breakers''
         else Inr ())"

record sampling =
  temperature :: "f64 option"
  top_p :: "f64 option"
  top_k :: "nat option"
  seed :: "int option"
  frequency_penalty :: "f64 option"
  presence_penalty :: "f64 option"
  stop :: "string list"
  enable_thinking :: "bool option"
  llamacpp :: llama_cpp_samplers

definition sampling_default :: sampling where
  "sampling_default =
     \<lparr>temperature = None, top_p = None, top_k = None, seed = None, frequency_penalty = None,
      presence_penalty = None, stop = [], enable_thinking = None, llamacpp = samplers_default\<rparr>"

definition sampling_is_unset :: "sampling \<Rightarrow> bool" where
  "sampling_is_unset s =
     (temperature s = None \<and> top_p s = None \<and> top_k s = None \<and> seed s = None \<and>
      frequency_penalty s = None \<and> presence_penalty s = None \<and> stop s = [] \<and>
      enable_thinking s = None \<and> llamacpp s = samplers_default)"

definition sampling_validate :: "sampling \<Rightarrow> string + unit" where
  "sampling_validate s =
     (let bad = (\<lambda>v lo hi. is_some_and (\<lambda>x. \<not> f64_in_range lo hi x \<or> \<not> f64_is_finite x) v)
      in if bad (temperature s) 0 2 then Inl ''temperature''
         else if bad (top_p s) 0 1 then Inl ''top_p''
         else if bad (frequency_penalty s) (- 2) 2 then Inl ''frequency_penalty''
         else if bad (presence_penalty s) (- 2) 2 then Inl ''presence_penalty''
         else if length (stop s) > 8 then Inl ''stop''
         else samplers_validate (llamacpp s))"

section \<open>The request\<close>

text \<open>A \<open>Deadline\<close> (\<open>hypellm-core/src/time.rs\<close>) is its absolute monotonic instant in milliseconds.\<close>

type_synonym deadline = nat

record request_limits =
  max_output_tokens :: "nat option"
  limit_deadline :: deadline
  max_cost_class :: "cost_class option"
  min_quality_class :: "quality_class option"
  limit_residency :: "residency option"

record stream_options =
  stream_enabled :: bool
  include_usage :: bool

record routing_hints =
  prefer_target :: "target_id option"
  conversation_id :: "string option"
  require_local :: bool
  idempotency_key :: "string option"

definition hints_is_empty :: "routing_hints \<Rightarrow> bool" where
  "hints_is_empty h =
     (prefer_target h = None \<and> conversation_id h = None \<and> \<not> require_local h \<and> idempotency_key h = None)"

record canonical_request =
  req_id :: request_id
  req_tenant :: tenant_id
  req_principal :: principal_id
  req_protocol :: client_protocol
  req_operation :: operation
  requested_model :: alias_id
  req_messages :: "message list"
  req_inputs :: "string list"
  req_tools :: "tool_def list"
  req_tool_choice :: "tool_choice option"
  req_response_format :: "response_format option"
  req_sampling :: sampling
  req_reasoning_effort :: reasoning_effort
  req_limits :: request_limits
  req_stream :: stream_options
  req_hints :: routing_hints

definition all_parts :: "canonical_request \<Rightarrow> content_part list" where
  "all_parts req = concat (map msg_content (req_messages req))"

definition input_byte_len :: "canonical_request \<Rightarrow> nat" where
  "input_byte_len req =
     sum_list (map message_byte_len (req_messages req)) +
     sum_list (map length (req_inputs req)) +
     sum_list (map (\<lambda>t. length (td_parameters_json t) + length (td_name t)) (req_tools req))"

definition required_modalities :: "canonical_request \<Rightarrow> modality list" where
  "required_modalities req =
     (let ms = map part_modality (all_parts req);
          ms' = (if ms = [] then [Text] else ms)
      in remdups_adj (sort ms'))"

definition requires_tools :: "canonical_request \<Rightarrow> bool" where
  "requires_tools req =
     (req_tools req \<noteq> [] \<or> list_ex (\<lambda>m. msg_tool_calls m \<noteq> []) (req_messages req))"

fun is_structured :: "response_format \<Rightarrow> bool" where
  "is_structured FormatText = False"
| "is_structured JsonObject = True"
| "is_structured (JsonSchema _ _ _) = True"

definition requires_structured_output :: "canonical_request \<Rightarrow> bool" where
  "requires_structured_output req = is_some_and is_structured (req_response_format req)"

definition non_document_input_byte_len :: "canonical_request \<Rightarrow> nat" where
  "non_document_input_byte_len req =
     input_byte_len req - sum_list (map part_byte_len (filter is_document (all_parts req)))"

definition document_parts :: "canonical_request \<Rightarrow> nat" where
  "document_parts req = length (filter is_document (all_parts req))"

definition inline_document_bytes :: "canonical_request \<Rightarrow> nat" where
  "inline_document_bytes req =
     foldl sat_add64 0 (map sat_u64 (List.map_filter part_inline_document_bytes (all_parts req)))"

section \<open>Token estimates\<close>

definition DEFAULT_DOCUMENT_TOKEN_ESTIMATE :: nat where
  "DEFAULT_DOCUMENT_TOKEN_ESTIMATE = 4096"

definition DEFAULT_BYTES_PER_TOKEN_HUNDREDTHS :: nat where
  "DEFAULT_BYTES_PER_TOKEN_HUNDREDTHS = 200"

definition MIN_BYTES_PER_TOKEN_HUNDREDTHS :: nat where
  "MIN_BYTES_PER_TOKEN_HUNDREDTHS = 100"

definition MAX_BYTES_PER_TOKEN_HUNDREDTHS :: nat where
  "MAX_BYTES_PER_TOKEN_HUNDREDTHS = 800"

record token_estimate =
  document_token_estimate :: nat
  output_multiplier :: nat
  bytes_per_token_hundredths :: nat

definition estimate_for_effort :: "reasoning_effort \<Rightarrow> token_estimate" where
  "estimate_for_effort e =
     \<lparr>document_token_estimate = DEFAULT_DOCUMENT_TOKEN_ESTIMATE,
      output_multiplier = default_output_multiplier e,
      bytes_per_token_hundredths = DEFAULT_BYTES_PER_TOKEN_HUNDREDTHS\<rparr>"

definition estimated_input_tokens_for :: "canonical_request \<Rightarrow> token_estimate \<Rightarrow> nat" where
  "estimated_input_tokens_for req est =
     (if req_operation req = Job then 0
      else
        let bytes = sat_u64 (non_document_input_byte_len req);
            per_token = clamp_n MIN_BYTES_PER_TOKEN_HUNDREDTHS MAX_BYTES_PER_TOKEN_HUNDREDTHS
                          (bytes_per_token_hundredths est);
            framing = sat_mul64 (sat_u64 (length (req_messages req))) 8;
            documents = sat_mul64 (sat_u64 (document_parts req)) (document_token_estimate est)
        in sat_add64 (sat_add64 (div_ceil (sat_mul64 bytes 100) per_token) framing) documents)"

definition estimated_input_tokens :: "canonical_request \<Rightarrow> nat" where
  "estimated_input_tokens req =
     estimated_input_tokens_for req (estimate_for_effort (req_reasoning_effort req))"

definition estimated_output_tokens_with :: "canonical_request \<Rightarrow> nat \<Rightarrow> nat" where
  "estimated_output_tokens_with req m =
     (if req_operation req = Job then 0
      else sat_mul64 (unwrap_or 0 (max_output_tokens (req_limits req))) (max m 1))"

definition estimated_total_tokens_with :: "canonical_request \<Rightarrow> token_estimate \<Rightarrow> nat" where
  "estimated_total_tokens_with req est =
     sat_add64 (estimated_input_tokens_for req est)
       (estimated_output_tokens_with req (output_multiplier est))"

definition estimated_total_tokens :: "canonical_request \<Rightarrow> nat" where
  "estimated_total_tokens req =
     estimated_total_tokens_with req (estimate_for_effort (req_reasoning_effort req))"

section \<open>Tokens round-trip\<close>

lemma operation_parse_as_str: "operation_parse (operation_as_str op) = Some op"
  by (cases op) (simp_all add: operation_parse_def)

lemma role_parse_as_str: "role_parse (role_as_str r) = Some r"
  by (cases r) (simp_all add: role_parse_def)

lemma modality_parse_as_str: "modality_parse (modality_as_str m) = Some m"
  by (cases m) (simp_all add: modality_parse_def)

lemma effort_parse_as_str: "effort_parse (effort_as_str e) = Some e"
  by (cases e) (simp_all add: effort_parse_def)

section \<open>Estimates are monotone upper bounds\<close>

lemma set_remdups_adj_sort: "set (remdups_adj (sort xs)) = set (xs :: 'a::linorder list)"
  by simp

lemma required_modalities_set:
  "set (required_modalities req) =
     (if all_parts req = [] then {Text} else part_modality ` set (all_parts req))"
  by (simp add: required_modalities_def Let_def)

lemma sort_remdups_adj_distinct: "sorted xs \<Longrightarrow> distinct (remdups_adj (xs :: 'a::linorder list))"
  by (induction xs rule: remdups_adj.induct) (auto simp: le_less)

lemma required_modalities_sorted: "sorted (required_modalities req) \<and> distinct (required_modalities req)"
  by (simp add: required_modalities_def Let_def sorted_remdups_adj sort_remdups_adj_distinct)

lemma parts_bytes_le_messages:
  "sum_list (map part_byte_len (concat (map msg_content ms))) \<le> sum_list (map message_byte_len ms)"
  by (induction ms) (auto simp: message_byte_len_def)

lemma filter_bytes_le:
  "sum_list (map part_byte_len (filter p ps)) \<le> sum_list (map part_byte_len ps)"
  by (induction ps) auto

lemma document_bytes_le_input:
  "sum_list (map part_byte_len (filter is_document (all_parts req))) \<le> input_byte_len req"
  using filter_bytes_le [of is_document "all_parts req"] parts_bytes_le_messages [of "req_messages req"]
  by (simp add: input_byte_len_def all_parts_def)

text \<open>The byte-derived half of the estimate counts every byte outside the document parts.\<close>

lemma non_document_bytes_split:
  "input_byte_len req =
     non_document_input_byte_len req + sum_list (map part_byte_len (filter is_document (all_parts req)))"
  using document_bytes_le_input [of req] by (simp add: non_document_input_byte_len_def)

lemma non_document_bytes_append:
  "non_document_input_byte_len req
     \<le> non_document_input_byte_len (req\<lparr>req_messages := req_messages req @ [m]\<rparr>)"
proof -
  let ?r = "req\<lparr>req_messages := req_messages req @ [m]\<rparr>"
  have "sum_list (map part_byte_len (filter is_document (msg_content m))) \<le> message_byte_len m"
    using filter_bytes_le [of is_document "msg_content m"] by (simp add: message_byte_len_def)
  moreover have "input_byte_len ?r = input_byte_len req + message_byte_len m"
    by (simp add: input_byte_len_def)
  moreover have "all_parts ?r = all_parts req @ msg_content m"
    by (simp add: all_parts_def)
  ultimately show ?thesis
    using document_bytes_le_input [of req] by (simp add: non_document_input_byte_len_def)
qed

abbreviation clamped_rate :: "token_estimate \<Rightarrow> nat" where
  "clamped_rate est \<equiv>
     clamp_n MIN_BYTES_PER_TOKEN_HUNDREDTHS MAX_BYTES_PER_TOKEN_HUNDREDTHS (bytes_per_token_hundredths est)"

lemma clamped_rate_bounds: "100 \<le> clamped_rate est" "clamped_rate est \<le> 800"
  by (simp_all add: MIN_BYTES_PER_TOKEN_HUNDREDTHS_def MAX_BYTES_PER_TOKEN_HUNDREDTHS_def clamp_n_def)

lemma estimated_input_tokens_le: "estimated_input_tokens_for req est \<le> u64_max"
  by (simp add: estimated_input_tokens_for_def Let_def)

text \<open>
  The input estimate is a conservative upper bound. At the (clamped) declared bytes per token,
  the estimated tokens cover every non-document byte, plus eight tokens of framing per message and
  the declared constant per document part, whenever the sum fits \<open>u64\<close>; it saturates high otherwise.
\<close>

theorem input_estimate_conservative:
  assumes "req_operation req \<noteq> Job"
    and "non_document_input_byte_len req * 100 + 8 * length (req_messages req)
           + document_parts req * document_token_estimate est \<le> u64_max"
  shows "non_document_input_byte_len req * 100
           \<le> (estimated_input_tokens_for req est - 8 * length (req_messages req)
                - document_parts req * document_token_estimate est) * clamped_rate est
         \<and> 8 * length (req_messages req) + document_parts req * document_token_estimate est
           \<le> estimated_input_tokens_for req est"
proof -
  let ?b = "non_document_input_byte_len req * 100" and ?h = "clamped_rate est"
  let ?f = "8 * length (req_messages req)" and ?d = "document_parts req * document_token_estimate est"
  have h: "0 < ?h" using clamped_rate_bounds(1) [of est] by linarith
  have tok: "div_ceil ?b ?h \<le> ?b"
  proof -
    have "div_ceil ?b ?h \<le> div_ceil (?b * ?h) ?h" using h by (intro div_ceil_mono) simp_all
    also have "\<dots> = ?b" using h by (simp add: div_ceil_def)
    finally show ?thesis .
  qed
  have doc: "sat_mul64 (sat_u64 (document_parts req)) (document_token_estimate est) = ?d"
  proof (cases "document_token_estimate est = 0")
    case False
    then have "document_parts req \<le> ?d" by simp
    with assms(2) have "document_parts req \<le> u64_max" by linarith
    with assms(2) show ?thesis by (simp add: sat_mul64_def sat_u64_def)
  qed (simp add: sat_mul64_def sat_u64_def)
  have "estimated_input_tokens_for req est = div_ceil ?b ?h + ?f + ?d"
    using assms tok doc
    by (simp add: estimated_input_tokens_for_def Let_def sat_mul64_def sat_add64_def sat_u64_def mult.commute)
  moreover have "?b \<le> div_ceil ?b ?h * ?h" using h by (rule div_ceil_covers)
  ultimately show ?thesis by simp
qed

theorem input_estimate_conservative_witness:
  "8 \<le> estimated_input_tokens_for
     \<lparr>req_id = 0, req_tenant = ''t'', req_principal = ''me'', req_protocol = OpenAiChat,
      req_operation = Chat, requested_model = ''x'', req_messages = [message_text RUser ''hi''],
      req_inputs = [], req_tools = [], req_tool_choice = None, req_response_format = None,
      req_sampling = sampling_default, req_reasoning_effort = Unset,
      req_limits = \<lparr>max_output_tokens = None, limit_deadline = 1000, max_cost_class = None,
        min_quality_class = None, limit_residency = None\<rparr>,
      req_stream = \<lparr>stream_enabled = False, include_usage = False\<rparr>,
      req_hints = \<lparr>prefer_target = None, conversation_id = None, require_local = False,
        idempotency_key = None\<rparr>\<rparr> (estimate_for_effort High)" (is "8 \<le> estimated_input_tokens_for ?req ?est")
proof -
  have "req_operation ?req \<noteq> Job"
    "non_document_input_byte_len ?req * 100 + 8 * length (req_messages ?req)
       + document_parts ?req * document_token_estimate ?est \<le> u64_max"
    by (simp_all add: non_document_input_byte_len_def input_byte_len_def message_byte_len_def all_parts_def
        document_parts_def message_text_def u64_max_def)
  from input_estimate_conservative [OF this] show ?thesis
    by (simp add: all_parts_def document_parts_def message_text_def)
qed

text \<open>
  The reservation estimate never shrinks when the request grows: appending a message, or raising
  the multiplier of the reasoning tier, never lowers the total.
\<close>

theorem total_estimate_monotone:
  "estimated_total_tokens_with req est
     \<le> estimated_total_tokens_with (req\<lparr>req_messages := req_messages req @ [m]\<rparr>)
          (est\<lparr>output_multiplier := output_multiplier est + k\<rparr>)"
proof -
  let ?r = "req\<lparr>req_messages := req_messages req @ [m]\<rparr>"
  have h: "0 < clamped_rate est" using clamped_rate_bounds(1) [of est] by linarith
  have mono: "a \<le> b \<Longrightarrow> sat_u64 a \<le> sat_u64 b" for a b by (simp add: sat_u64_def min_def)
  have parts: "document_parts req \<le> document_parts ?r" by (simp add: document_parts_def all_parts_def)
  have "estimated_input_tokens_for req est \<le> estimated_input_tokens_for ?r est"
    unfolding estimated_input_tokens_for_def Let_def
    using h non_document_bytes_append [of req m] parts
    by (auto intro!: sat_add64_mono sat_mul64_mono div_ceil_mono mono)
  moreover have "estimated_output_tokens_with req (output_multiplier est)
      \<le> estimated_output_tokens_with ?r (output_multiplier est + k)"
    by (auto simp: estimated_output_tokens_with_def intro!: sat_mul64_mono)
  moreover have "estimated_input_tokens_for ?r (est\<lparr>output_multiplier := output_multiplier est + k\<rparr>)
      = estimated_input_tokens_for ?r est"
    by (simp add: estimated_input_tokens_for_def)
  ultimately show ?thesis
    by (simp add: estimated_total_tokens_with_def sat_add64_mono)
qed

text \<open>Every closed vocabulary of the canonical request parses back from its stable token.\<close>

theorem canonical_tokens_roundtrip:
  "operation_parse (operation_as_str op) = Some op \<and> role_parse (role_as_str r) = Some r \<and>
   modality_parse (modality_as_str m) = Some m \<and> effort_parse (effort_as_str e) = Some e"
  by (simp add: operation_parse_as_str role_parse_as_str modality_parse_as_str effort_parse_as_str)

end
