(* ===== verification/Targets.thy ===== *)
theory Targets
  imports Canonical
begin

text \<open>
  Providers, targets and declared capabilities (\<open>hypellm-core/src/target.rs\<close>).
\<close>

section \<open>Capability verbs and provider families\<close>

datatype capability =
    CapChat | CapVision | CapDocument | CapEmbeddings | CapRerank
  | CapTextToSpeech | CapTextToMusic | CapTextToSfx | CapTextToImage | CapTextToVideo
  | CapImageToVideo | CapAudioToVideo | CapLipsync | CapImageTo3d | CapTextToMotion

fun capability_as_str :: "capability \<Rightarrow> string" where
  "capability_as_str CapChat = ''chat''"
| "capability_as_str CapVision = ''vision''"
| "capability_as_str CapDocument = ''document''"
| "capability_as_str CapEmbeddings = ''embeddings''"
| "capability_as_str CapRerank = ''rerank''"
| "capability_as_str CapTextToSpeech = ''text-to-speech''"
| "capability_as_str CapTextToMusic = ''text-to-music''"
| "capability_as_str CapTextToSfx = ''text-to-sfx''"
| "capability_as_str CapTextToImage = ''text-to-image''"
| "capability_as_str CapTextToVideo = ''text-to-video''"
| "capability_as_str CapImageToVideo = ''image-to-video''"
| "capability_as_str CapAudioToVideo = ''audio-to-video''"
| "capability_as_str CapLipsync = ''lipsync''"
| "capability_as_str CapImageTo3d = ''image-to-3d''"
| "capability_as_str CapTextToMotion = ''text-to-motion''"

definition capability_parse :: "string \<Rightarrow> capability option" where
  "capability_parse s =
     (if s = ''chat'' then Some CapChat
      else if s = ''vision'' then Some CapVision
      else if s = ''document'' then Some CapDocument
      else if s = ''embeddings'' then Some CapEmbeddings
      else if s = ''rerank'' then Some CapRerank
      else if s = ''text-to-speech'' then Some CapTextToSpeech
      else if s = ''text-to-music'' then Some CapTextToMusic
      else if s = ''text-to-sfx'' then Some CapTextToSfx
      else if s = ''text-to-image'' then Some CapTextToImage
      else if s = ''text-to-video'' then Some CapTextToVideo
      else if s = ''image-to-video'' then Some CapImageToVideo
      else if s = ''audio-to-video'' then Some CapAudioToVideo
      else if s = ''lipsync'' then Some CapLipsync
      else if s = ''image-to-3d'' then Some CapImageTo3d
      else if s = ''text-to-motion'' then Some CapTextToMotion
      else None)"

definition capability_all :: "capability list" where
  "capability_all =
     [CapChat, CapVision, CapDocument, CapEmbeddings, CapRerank, CapTextToSpeech, CapTextToMusic,
      CapTextToSfx, CapTextToImage, CapTextToVideo, CapImageToVideo, CapAudioToVideo, CapLipsync,
      CapImageTo3d, CapTextToMotion]"

definition is_long_running :: "capability \<Rightarrow> bool" where
  "is_long_running c =
     (c = CapTextToMusic \<or> c = CapTextToVideo \<or> c = CapImageToVideo \<or> c = CapAudioToVideo \<or> c = CapLipsync)"

datatype provider_family =
  LlamaCpp | OpenAi | Anthropic | DeepSeek | Moonshot | GenericOpenAi | JobFamily | SemIf

fun family_as_str :: "provider_family \<Rightarrow> string" where
  "family_as_str LlamaCpp = ''llamacpp''"
| "family_as_str OpenAi = ''openai''"
| "family_as_str Anthropic = ''anthropic''"
| "family_as_str DeepSeek = ''deepseek''"
| "family_as_str Moonshot = ''moonshot''"
| "family_as_str GenericOpenAi = ''generic_openai''"
| "family_as_str SemIf = ''semif''"
| "family_as_str JobFamily = ''job''"

definition family_parse :: "string \<Rightarrow> provider_family option" where
  "family_parse s =
     (if s = ''llamacpp'' \<or> s = ''llama.cpp'' then Some LlamaCpp
      else if s = ''openai'' then Some OpenAi
      else if s = ''anthropic'' then Some Anthropic
      else if s = ''deepseek'' then Some DeepSeek
      else if s = ''moonshot'' \<or> s = ''kimi'' then Some Moonshot
      else if s = ''generic_openai'' then Some GenericOpenAi
      else if s = ''semif'' then Some SemIf
      else if s = ''job'' then Some JobFamily
      else None)"

definition requires_explicit_opt_in :: "provider_family \<Rightarrow> bool" where
  "requires_explicit_opt_in f = (f = GenericOpenAi)"

definition family_all :: "provider_family list" where
  "family_all = [LlamaCpp, OpenAi, Anthropic, DeepSeek, Moonshot, GenericOpenAi, SemIf, JobFamily]"

section \<open>Endpoints\<close>

datatype scheme = Http | Https | Unix

fun scheme_as_str :: "scheme \<Rightarrow> string" where
  "scheme_as_str Http = ''http''"
| "scheme_as_str Https = ''https''"
| "scheme_as_str Unix = ''unix''"

definition scheme_parse :: "string \<Rightarrow> scheme option" where
  "scheme_parse s =
     (if s = ''http'' then Some Http
      else if s = ''https'' then Some Https
      else if s = ''unix'' then Some Unix
      else None)"

definition needs_tls :: "scheme \<Rightarrow> bool" where
  "needs_tls s = (s = Https)"

record endpoint =
  ep_scheme :: scheme
  ep_host :: string
  ep_port :: nat
  ep_base_path :: string

definition authority :: "endpoint \<Rightarrow> string" where
  "authority e =
     (case ep_scheme e of
        Unix \<Rightarrow> ''localhost''
      | Http \<Rightarrow> if ep_port e = 80 then ep_host e else ep_host e @ '':'' @ show_nat (ep_port e)
      | Https \<Rightarrow> if ep_port e = 443 then ep_host e else ep_host e @ '':'' @ show_nat (ep_port e))"

definition trim_end_slashes :: "string \<Rightarrow> string" where
  "trim_end_slashes s = rev (dropWhile (\<lambda>c. c = CHR ''/'') (rev s))"

definition endpoint_path :: "endpoint \<Rightarrow> string \<Rightarrow> string" where
  "endpoint_path e suffix =
     (let base = trim_end_slashes (ep_base_path e)
      in if suffix \<noteq> [] \<and> hd suffix = CHR ''/'' then base @ suffix else base @ ''/'' @ suffix)"

definition pool_key :: "endpoint \<Rightarrow> string \<Rightarrow> string" where
  "pool_key e credential_class =
     scheme_as_str (ep_scheme e) @ ''|'' @ ep_host e @ ''|'' @ show_nat (ep_port e) @ ''|'' @ credential_class"

record provider =
  prov_id :: provider_id
  prov_family :: provider_family
  prov_endpoints :: "endpoint list"
  prov_credential_ref :: "credential_ref option"
  prov_enabled :: bool
  prov_egress_profile :: string
  prov_recovery_wait_ms :: nat

section \<open>Capabilities and targets\<close>

record effort_multipliers =
  mult_minimal :: nat
  mult_low :: nat
  mult_medium :: nat
  mult_high :: nat

definition effort_multipliers_default :: effort_multipliers where
  "effort_multipliers_default = \<lparr>mult_minimal = 1, mult_low = 2, mult_medium = 4, mult_high = 8\<rparr>"

fun multiplier_for_effort :: "effort_multipliers \<Rightarrow> reasoning_effort \<Rightarrow> nat" where
  "multiplier_for_effort em Unset = 1"
| "multiplier_for_effort em Minimal = mult_minimal em"
| "multiplier_for_effort em Low = mult_low em"
| "multiplier_for_effort em Medium = mult_medium em"
| "multiplier_for_effort em High = mult_high em"

record capabilities =
  cap_operations :: "operation list"
  cap_verbs :: "capability list"
  cap_modalities :: "modality list"
  cap_reasoning_efforts :: "reasoning_effort list"
  cap_effort_multipliers :: effort_multipliers
  cap_streaming :: bool
  cap_tools :: bool
  cap_parallel_tool_calls :: bool
  cap_json_mode :: bool
  cap_structured_output :: bool
  cap_reasoning :: bool
  cap_prompt_caching :: bool
  cap_max_context_tokens :: nat
  cap_max_output_tokens :: nat
  cap_embedding_dimensions :: "nat option"
  cap_native_tokenizer :: bool

definition capabilities_default :: capabilities where
  "capabilities_default =
     \<lparr>cap_operations = [], cap_verbs = [], cap_modalities = [Text], cap_reasoning_efforts = [],
      cap_effort_multipliers = effort_multipliers_default, cap_streaming = False, cap_tools = False,
      cap_parallel_tool_calls = False, cap_json_mode = False, cap_structured_output = False,
      cap_reasoning = False, cap_prompt_caching = False, cap_max_context_tokens = 0,
      cap_max_output_tokens = 0, cap_embedding_dimensions = None, cap_native_tokenizer = False\<rparr>"

definition supports_operation :: "capabilities \<Rightarrow> operation \<Rightarrow> bool" where
  "supports_operation c op = (op \<in> set (cap_operations c))"

definition supports_modalities :: "capabilities \<Rightarrow> modality list \<Rightarrow> bool" where
  "supports_modalities c required = list_all (\<lambda>m. m \<in> set (cap_modalities c)) required"

definition supports_capability :: "capabilities \<Rightarrow> capability \<Rightarrow> bool" where
  "supports_capability c verb = (verb \<in> set (cap_verbs c))"

definition supports_effort :: "capabilities \<Rightarrow> reasoning_effort \<Rightarrow> bool" where
  "supports_effort c e = (e = Unset \<or> e \<in> set (cap_reasoning_efforts c))"

datatype admin_state = Enabled | Draining | Maintenance | Quarantined | Disabled

definition admits_new_requests :: "admin_state \<Rightarrow> bool" where
  "admits_new_requests s = (s = Enabled)"

fun admin_state_as_str :: "admin_state \<Rightarrow> string" where
  "admin_state_as_str Enabled = ''enabled''"
| "admin_state_as_str Draining = ''draining''"
| "admin_state_as_str Maintenance = ''maintenance''"
| "admin_state_as_str Quarantined = ''quarantined''"
| "admin_state_as_str Disabled = ''disabled''"

record target =
  tgt_id :: target_id
  tgt_provider_id :: provider_id
  tgt_native_model :: string
  tgt_aliases :: "alias_id list"
  tgt_capabilities :: capabilities
  tgt_cost_class :: cost_class
  tgt_quality_class :: quality_class
  tgt_document_token_estimate :: "nat option"
  tgt_bytes_per_token_hundredths :: "nat option"
  tgt_residency :: "residency option"
  tgt_is_local :: bool
  tgt_admin_state :: admin_state
  tgt_endpoint_index :: nat
  tgt_max_concurrency :: nat
  tgt_max_requests_per_second :: nat

definition satisfies_residency :: "target \<Rightarrow> residency option \<Rightarrow> bool" where
  "satisfies_residency t required =
     (case required of None \<Rightarrow> True | Some req \<Rightarrow> tgt_residency t = Some req)"

definition within_cost_ceiling :: "target \<Rightarrow> cost_class option \<Rightarrow> bool" where
  "within_cost_ceiling t limit =
     (case limit of None \<Rightarrow> True | Some mx \<Rightarrow> tgt_cost_class t \<le> mx)"

definition meets_quality_floor :: "target \<Rightarrow> quality_class option \<Rightarrow> bool" where
  "meets_quality_floor t limit =
     (case limit of None \<Rightarrow> True | Some mn \<Rightarrow> mn \<le> tgt_quality_class t)"

definition target_token_estimate :: "target \<Rightarrow> reasoning_effort \<Rightarrow> nat \<Rightarrow> token_estimate" where
  "target_token_estimate t e default_document =
     \<lparr>document_token_estimate = unwrap_or default_document (tgt_document_token_estimate t),
      output_multiplier = multiplier_for_effort (cap_effort_multipliers (tgt_capabilities t)) e,
      bytes_per_token_hundredths =
        unwrap_or DEFAULT_BYTES_PER_TOKEN_HUNDREDTHS (tgt_bytes_per_token_hundredths t)\<rparr>"

definition has_alias :: "target \<Rightarrow> alias_id \<Rightarrow> bool" where
  "has_alias t a = (a \<in> set (tgt_aliases t))"

record llama_cpp_sampling =
  als_dry_multiplier :: "f64 option"
  als_repeat_penalty :: "f64 option"

definition alias_sampling_is_unset :: "llama_cpp_sampling \<Rightarrow> bool" where
  "alias_sampling_is_unset s = (als_dry_multiplier s = None \<and> als_repeat_penalty s = None)"

record model_alias =
  al_id :: alias_id
  al_capability :: "capability option"
  al_permitted_targets :: "target_id list"
  al_allow_family_failover :: bool
  al_description :: "string option"
  al_llamacpp_sampling :: llama_cpp_sampling

section \<open>Properties\<close>

lemma capability_parse_as_str: "capability_parse (capability_as_str c) = Some c"
  by (cases c) (simp_all add: capability_parse_def)

lemma family_parse_as_str: "family_parse (family_as_str f) = Some f"
  by (cases f) (simp_all add: family_parse_def)

lemma scheme_parse_as_str: "scheme_parse (scheme_as_str s) = Some s"
  by (cases s) (simp_all add: scheme_parse_def)

lemma capability_all_complete: "c \<in> set capability_all" "distinct capability_all"
  by (cases c) (simp_all add: capability_all_def)

lemma family_all_complete: "f \<in> set family_all" "distinct family_all"
  by (cases f) (simp_all add: family_all_def)

text \<open>
  Every capability verb, provider family and endpoint scheme parses back from its stable token,
  and the \<open>all\<close> tables the management surface iterates list each of them once.
\<close>

theorem target_tokens_roundtrip:
  "capability_parse (capability_as_str c) = Some c \<and> family_parse (family_as_str f) = Some f \<and>
   scheme_parse (scheme_as_str s) = Some s \<and>
   c \<in> set capability_all \<and> distinct capability_all \<and> f \<in> set family_all \<and> distinct family_all"
  using capability_all_complete(1) [of c] capability_all_complete(2) family_all_complete(1) [of f] family_all_complete(2)
  by (simp add: capability_parse_as_str family_parse_as_str scheme_parse_as_str)

text \<open>The first field of a \<open>|\<close>-separated key determines itself and the rest when it holds no separator.\<close>

lemma sep_append_inject:
  assumes "x \<notin> set as" "x \<notin> set bs"
  shows "as @ x # cs = bs @ x # ds \<longleftrightarrow> as = bs \<and> cs = ds"
  using assms
proof (induction as arbitrary: bs)
  case Nil
  then show ?case by (cases bs) auto
next
  case (Cons a as)
  then show ?case by (cases bs) auto
qed

lemma scheme_as_str_no_bar: "CHR ''|'' \<notin> set (scheme_as_str s)"
  by (cases s) auto

lemma show_nat_no_bar: "CHR ''|'' \<notin> set (show_nat n)"
  using show_nat_digits [of n] by (auto simp: list_all_iff is_ascii_digit_def Let_def)

text \<open>
  Connections are pooled by exact endpoint and credential class: for hosts that hold no
  separator, two endpoints share a pool key only when scheme, host, port and credential class agree.
\<close>

theorem pool_key_isolates:
  assumes "CHR ''|'' \<notin> set (ep_host e)" "CHR ''|'' \<notin> set (ep_host e')"
    and "pool_key e c = pool_key e' c'"
  shows "ep_scheme e = ep_scheme e' \<and> ep_host e = ep_host e' \<and> ep_port e = ep_port e' \<and> c = c'"
proof -
  have "scheme_as_str (ep_scheme e) = scheme_as_str (ep_scheme e') \<and> ep_host e = ep_host e' \<and>
      show_nat (ep_port e) = show_nat (ep_port e') \<and> c = c'"
    using assms(3) unfolding pool_key_def
    by (simp add: sep_append_inject scheme_as_str_no_bar show_nat_no_bar assms(1,2))
  then show ?thesis
    by (metis option.inject scheme_parse_as_str show_nat_inject)
qed

theorem pool_key_isolates_witness:
  "pool_key \<lparr>ep_scheme = Https, ep_host = ''h'', ep_port = 443, ep_base_path = ''/v1''\<rparr> ''team'' =
     pool_key \<lparr>ep_scheme = Https, ep_host = ''h'', ep_port = 443, ep_base_path = ''/v2''\<rparr> ''team'' \<and>
   ep_port \<lparr>ep_scheme = Https, ep_host = ''h'', ep_port = 443, ep_base_path = ''/v1''\<rparr> =
     ep_port \<lparr>ep_scheme = Https, ep_host = ''h'', ep_port = 443, ep_base_path = ''/v2''\<rparr>"
  using pool_key_isolates
    [of "\<lparr>ep_scheme = Https, ep_host = ''h'', ep_port = 443, ep_base_path = ''/v1''\<rparr>"
        "\<lparr>ep_scheme = Https, ep_host = ''h'', ep_port = 443, ep_base_path = ''/v2''\<rparr>" "''team''" "''team''"]
  by (simp add: pool_key_def)

lemma trim_end_slashes_no_slash: "trim_end_slashes s = [] \<or> last (trim_end_slashes s) \<noteq> CHR ''/''"
proof -
  have "dropWhile (\<lambda>c. c = CHR ''/'') (rev s) = [] \<or> hd (dropWhile (\<lambda>c. c = CHR ''/'') (rev s)) \<noteq> CHR ''/''"
    using hd_dropWhile by blast
  then show ?thesis by (auto simp: trim_end_slashes_def last_rev)
qed

end
