(* ===== verification/Errors.thy ===== *)
theory Errors
  imports Prelude
begin

text \<open>
  The client-facing error contract (\<open>hypellm-core/src/error.rs\<close>) and the capped strings it
  carries (\<open>hypellm-core/src/sensitive.rs\<close>). A \<open>String\<close> is its UTF-8 byte sequence.
\<close>

section \<open>Character boundaries\<close>

definition is_continuation :: "char \<Rightarrow> bool" where
  "is_continuation c = (let n = of_char c :: nat in 128 \<le> n \<and> n < 192)"

definition is_char_boundary :: "string \<Rightarrow> nat \<Rightarrow> bool" where
  "is_char_boundary s i =
     (i = 0 \<or> i = length s \<or> (i < length s \<and> \<not> is_continuation (s ! i)))"

text \<open>The loop \<open>while end > 0 && !s.is_char_boundary(end) { end -= 1 }\<close>.\<close>

fun back_to_boundary :: "string \<Rightarrow> nat \<Rightarrow> nat" where
  "back_to_boundary s 0 = 0"
| "back_to_boundary s (Suc n) = (if is_char_boundary s (Suc n) then Suc n else back_to_boundary s n)"

lemma back_to_boundary_le: "back_to_boundary s n \<le> n"
  by (induction n) auto

lemma back_to_boundary_ok: "is_char_boundary s (back_to_boundary s n)"
  by (induction n) (auto simp: is_char_boundary_def)

lemma back_to_boundary_greatest:
  "i \<le> n \<Longrightarrow> is_char_boundary s i \<Longrightarrow> i \<le> back_to_boundary s n"
  by (induction n) (auto simp: le_Suc_eq)

section \<open>Capped strings\<close>

record capped =
  capped_text :: string
  capped_truncated :: bool

definition capped_new :: "string \<Rightarrow> nat \<Rightarrow> capped" where
  "capped_new str mx =
     (if length str \<le> mx then \<lparr>capped_text = str, capped_truncated = False\<rparr>
      else \<lparr>capped_text = take (back_to_boundary str mx) str, capped_truncated = True\<rparr>)"

definition capped_log_field :: "string \<Rightarrow> capped" where
  "capped_log_field str = capped_new str 256"

lemma capped_new_bounded: "length (capped_text (capped_new str mx)) \<le> mx"
  using back_to_boundary_le [of str mx] by (simp add: capped_new_def)

lemma capped_new_prefix: "\<exists>rest. str = capped_text (capped_new str mx) @ rest"
  by (cases "length str \<le> mx") (simp_all add: capped_new_def, metis append_take_drop_id)

lemma capped_new_truncated: "capped_truncated (capped_new str mx) \<longleftrightarrow> mx < length str"
  by (auto simp: capped_new_def)

text \<open>
  Capping keeps the longest prefix of at most \<open>mx\<close> bytes that ends on a character boundary, and
  reports truncation exactly when bytes were dropped.
\<close>

theorem capped_new_longest_prefix:
  "(\<exists>n. capped_text (capped_new str mx) = take n str \<and> n \<le> length str \<and> n \<le> mx \<and>
     is_char_boundary str n \<and>
     (\<forall>i. i \<le> mx \<and> i \<le> length str \<and> is_char_boundary str i \<longrightarrow> i \<le> n)) \<and>
   (capped_truncated (capped_new str mx) \<longleftrightarrow> mx < length str)"
proof (cases "length str \<le> mx")
  case True
  then show ?thesis
    by (auto simp: capped_new_def is_char_boundary_def intro!: exI [of _ "length str"])
next
  case False
  let ?n = "back_to_boundary str mx"
  have "capped_text (capped_new str mx) = take ?n str" "?n \<le> mx" "is_char_boundary str ?n"
    using False by (simp_all add: capped_new_def back_to_boundary_le back_to_boundary_ok)
  moreover have "?n \<le> length str" using False back_to_boundary_le [of str mx] by linarith
  moreover have "\<forall>i. i \<le> mx \<and> i \<le> length str \<and> is_char_boundary str i \<longrightarrow> i \<le> ?n"
    by (blast intro: back_to_boundary_greatest)
  ultimately show ?thesis using capped_new_truncated by blast
qed

theorem capped_new_longest_prefix_witness:
  "capped_truncated (capped_new ''hello'' 3) \<longleftrightarrow> 3 < length ''hello''"
  using capped_new_longest_prefix [of "''hello''" 3] by (rule conjunct2)

section \<open>Error codes\<close>

datatype error_code =
    InvalidRequest | Unauthenticated | TokenBudgetExhausted | Forbidden | ModelNotFound
  | IdempotencyConflict | RateLimited | CapacityExhaustedCode | UpstreamInvalidResponse
  | NoEligibleTarget | DeadlineExceededCode | JobNotFound | JobNotReady | InternalFault

fun error_as_str :: "error_code \<Rightarrow> string" where
  "error_as_str InvalidRequest = ''invalid_request''"
| "error_as_str Unauthenticated = ''unauthenticated''"
| "error_as_str TokenBudgetExhausted = ''token_budget_exhausted''"
| "error_as_str Forbidden = ''forbidden''"
| "error_as_str ModelNotFound = ''model_not_found''"
| "error_as_str IdempotencyConflict = ''idempotency_conflict''"
| "error_as_str RateLimited = ''rate_limited''"
| "error_as_str CapacityExhaustedCode = ''capacity_exhausted''"
| "error_as_str UpstreamInvalidResponse = ''upstream_invalid_response''"
| "error_as_str NoEligibleTarget = ''no_eligible_target''"
| "error_as_str DeadlineExceededCode = ''deadline_exceeded''"
| "error_as_str JobNotFound = ''job_not_found''"
| "error_as_str JobNotReady = ''job_not_ready''"
| "error_as_str InternalFault = ''internal_fault''"

fun error_status :: "error_code \<Rightarrow> nat" where
  "error_status InvalidRequest = 400"
| "error_status Unauthenticated = 401"
| "error_status TokenBudgetExhausted = 402"
| "error_status Forbidden = 403"
| "error_status ModelNotFound = 404"
| "error_status JobNotFound = 404"
| "error_status IdempotencyConflict = 409"
| "error_status JobNotReady = 409"
| "error_status RateLimited = 429"
| "error_status CapacityExhaustedCode = 429"
| "error_status UpstreamInvalidResponse = 502"
| "error_status NoEligibleTarget = 503"
| "error_status DeadlineExceededCode = 504"
| "error_status InternalFault = 500"

definition error_is_retriable :: "error_code \<Rightarrow> bool" where
  "error_is_retriable c = (c = RateLimited \<or> c = CapacityExhaustedCode \<or> c = UpstreamInvalidResponse)"

fun openai_type :: "error_code \<Rightarrow> string" where
  "openai_type InvalidRequest = ''invalid_request_error''"
| "openai_type ModelNotFound = ''invalid_request_error''"
| "openai_type IdempotencyConflict = ''invalid_request_error''"
| "openai_type JobNotFound = ''invalid_request_error''"
| "openai_type JobNotReady = ''invalid_request_error''"
| "openai_type Unauthenticated = ''authentication_error''"
| "openai_type TokenBudgetExhausted = ''payment_required''"
| "openai_type Forbidden = ''permission_error''"
| "openai_type RateLimited = ''rate_limit_error''"
| "openai_type CapacityExhaustedCode = ''rate_limit_error''"
| "openai_type UpstreamInvalidResponse = ''api_error''"
| "openai_type NoEligibleTarget = ''api_error''"
| "openai_type DeadlineExceededCode = ''api_error''"
| "openai_type InternalFault = ''api_error''"

fun anthropic_type :: "error_code \<Rightarrow> string" where
  "anthropic_type InvalidRequest = ''invalid_request_error''"
| "anthropic_type IdempotencyConflict = ''invalid_request_error''"
| "anthropic_type JobNotReady = ''invalid_request_error''"
| "anthropic_type Unauthenticated = ''authentication_error''"
| "anthropic_type TokenBudgetExhausted = ''payment_required''"
| "anthropic_type Forbidden = ''permission_error''"
| "anthropic_type ModelNotFound = ''not_found_error''"
| "anthropic_type JobNotFound = ''not_found_error''"
| "anthropic_type RateLimited = ''rate_limit_error''"
| "anthropic_type CapacityExhaustedCode = ''rate_limit_error''"
| "anthropic_type UpstreamInvalidResponse = ''api_error''"
| "anthropic_type NoEligibleTarget = ''api_error''"
| "anthropic_type DeadlineExceededCode = ''timeout_error''"
| "anthropic_type InternalFault = ''api_error''"

definition error_all :: "error_code list" where
  "error_all =
     [InvalidRequest, Unauthenticated, TokenBudgetExhausted, Forbidden, ModelNotFound,
      IdempotencyConflict, RateLimited, CapacityExhaustedCode, UpstreamInvalidResponse,
      NoEligibleTarget, DeadlineExceededCode, JobNotFound, JobNotReady, InternalFault]"

text \<open>Payment directions (\<open>hypellm-core/src/budget.rs\<close>), attached to a 402.\<close>

record payment_instructions =
  pay_message :: "string option"
  pay_url :: "string option"

record router_error =
  err_code :: error_code
  err_detail :: capped
  err_retry_after_secs :: "nat option"
  err_param :: "capped option"
  err_payment_required :: "payment_instructions option"

definition router_error_new :: "error_code \<Rightarrow> string \<Rightarrow> router_error" where
  "router_error_new code detail =
     \<lparr>err_code = code, err_detail = capped_log_field detail, err_retry_after_secs = None,
      err_param = None, err_payment_required = None\<rparr>"

definition token_budget_exhausted :: "payment_instructions option \<Rightarrow> router_error" where
  "token_budget_exhausted payment =
     (router_error_new TokenBudgetExhausted
        ''The API key's token budget is exhausted or insufficient for this request.'')
       \<lparr>err_payment_required := payment\<rparr>"

definition with_retry_after :: "router_error \<Rightarrow> nat \<Rightarrow> router_error" where
  "with_retry_after e secs = e\<lparr>err_retry_after_secs := Some secs\<rparr>"

definition with_param :: "router_error \<Rightarrow> string \<Rightarrow> router_error" where
  "with_param e param = e\<lparr>err_param := Some (capped_new param 64)\<rparr>"

lemma error_all_complete: "c \<in> set error_all"
  by (cases c) (simp_all add: error_all_def)

lemma error_as_str_inj: "error_as_str a = error_as_str b \<Longrightarrow> a = b"
  by (cases a; cases b) simp_all

lemma error_status_range: "error_status c \<in> {400..<600}"
  by (cases c) simp_all

text \<open>
  The error contract is stable and self-consistent. Codes have distinct wire strings, every
  status is a 4xx or 5xx, retriable codes are exactly 429s and the 502, and none of the codes a
  caller must fix before retrying is retriable.
\<close>

theorem error_contract:
  "(error_as_str a = error_as_str b \<longleftrightarrow> a = b) \<and> 400 \<le> error_status a \<and> error_status a < 600 \<and>
   (error_is_retriable a \<longleftrightarrow> error_status a = 429 \<or> error_status a = 502) \<and>
   (anthropic_type a = ''rate_limit_error'' \<longleftrightarrow> openai_type a = ''rate_limit_error'')"
  using error_status_range [of a] error_as_str_inj [of a b]
  by (cases a) (auto simp: error_is_retriable_def)

end
