(* ===== verification/Events.thy ===== *)
theory Events
  imports Errors Canonical
begin

text \<open>
  The canonical event stream (\<open>hypellm-core/src/event.rs\<close>): finish reasons, usage accounting with
  provenance, the response accumulator with its bounds, and the classification of upstream errors
  that drives failover.
\<close>

section \<open>Finish reasons and usage\<close>

datatype finish_reason =
  FStop | FLength | FToolCalls | FContentFilter | FCancelled | FError | FUnrecognized

fun openai_str :: "finish_reason \<Rightarrow> string" where
  "openai_str FStop = ''stop''"
| "openai_str FLength = ''length''"
| "openai_str FToolCalls = ''tool_calls''"
| "openai_str FContentFilter = ''content_filter''"
| "openai_str FCancelled = ''stop''"
| "openai_str FError = ''stop''"
| "openai_str FUnrecognized = ''stop''"

fun anthropic_str :: "finish_reason \<Rightarrow> string" where
  "anthropic_str FStop = ''end_turn''"
| "anthropic_str FLength = ''max_tokens''"
| "anthropic_str FToolCalls = ''tool_use''"
| "anthropic_str FContentFilter = ''stop_sequence''"
| "anthropic_str FCancelled = ''stop_sequence''"
| "anthropic_str FError = ''stop_sequence''"
| "anthropic_str FUnrecognized = ''stop_sequence''"

definition parse_openai :: "string \<Rightarrow> finish_reason option" where
  "parse_openai s =
     (if s = ''stop'' then Some FStop
      else if s = ''length'' then Some FLength
      else if s = ''tool_calls'' \<or> s = ''function_call'' then Some FToolCalls
      else if s = ''content_filter'' then Some FContentFilter
      else None)"

definition parse_anthropic :: "string \<Rightarrow> finish_reason option" where
  "parse_anthropic s =
     (if s = ''end_turn'' \<or> s = ''stop_sequence'' then Some FStop
      else if s = ''max_tokens'' then Some FLength
      else if s = ''tool_use'' then Some FToolCalls
      else None)"

datatype usage_source = ProviderReported | RouterEstimated | ProviderReportedOutput

fun usage_source_as_str :: "usage_source \<Rightarrow> string" where
  "usage_source_as_str ProviderReported = ''provider_reported''"
| "usage_source_as_str RouterEstimated = ''router_estimated''"
| "usage_source_as_str ProviderReportedOutput = ''provider_reported_partial''"

record canonical_usage =
  input_tokens :: nat
  output_tokens :: nat
  cached_input_tokens :: nat
  reasoning_tokens :: nat
  usage_source :: usage_source

definition usage_estimated :: "nat \<Rightarrow> nat \<Rightarrow> canonical_usage" where
  "usage_estimated i out =
     \<lparr>input_tokens = i, output_tokens = out, cached_input_tokens = 0, reasoning_tokens = 0,
      usage_source = RouterEstimated\<rparr>"

definition usage_reported :: "nat \<Rightarrow> nat \<Rightarrow> canonical_usage" where
  "usage_reported i out =
     \<lparr>input_tokens = i, output_tokens = out, cached_input_tokens = 0, reasoning_tokens = 0,
      usage_source = ProviderReported\<rparr>"

definition usage_total :: "canonical_usage \<Rightarrow> nat" where
  "usage_total u = sat_add64 (input_tokens u) (output_tokens u)"

definition usage_is_reported :: "canonical_usage \<Rightarrow> bool" where
  "usage_is_reported u = (usage_source u = ProviderReported)"

definition usage_output_only :: "nat \<Rightarrow> canonical_usage" where
  "usage_output_only out =
     \<lparr>input_tokens = 0, output_tokens = out, cached_input_tokens = 0, reasoning_tokens = 0,
      usage_source = ProviderReportedOutput\<rparr>"

definition known_input_tokens :: "canonical_usage \<Rightarrow> nat option" where
  "known_input_tokens u =
     (case usage_source u of
        ProviderReportedOutput \<Rightarrow> None
      | ProviderReported \<Rightarrow> Some (input_tokens u)
      | RouterEstimated \<Rightarrow> Some (input_tokens u))"

definition merge_source :: "canonical_usage \<Rightarrow> canonical_usage \<Rightarrow> usage_source" where
  "merge_source u later =
     (if usage_is_reported u \<or> usage_is_reported later then ProviderReported
      else if usage_source u = ProviderReportedOutput \<or> usage_source later = ProviderReportedOutput
      then ProviderReportedOutput
      else RouterEstimated)"

definition merge_input :: "usage_source \<Rightarrow> canonical_usage \<Rightarrow> nat" where
  "merge_input src u =
     (case src of
        ProviderReported \<Rightarrow> if usage_is_reported u then input_tokens u else 0
      | ProviderReportedOutput \<Rightarrow> 0
      | RouterEstimated \<Rightarrow> input_tokens u)"

definition usage_merge :: "canonical_usage \<Rightarrow> canonical_usage \<Rightarrow> canonical_usage" where
  "usage_merge u later =
     (let src = merge_source u later
      in \<lparr>input_tokens = max (merge_input src u) (merge_input src later),
          output_tokens = max (output_tokens u) (output_tokens later),
          cached_input_tokens = max (cached_input_tokens u) (cached_input_tokens later),
          reasoning_tokens = max (reasoning_tokens u) (reasoning_tokens later),
          usage_source = src\<rparr>)"

section \<open>Events\<close>

type_synonym f32 = f64

record tool_call_delta =
  tcd_index :: nat
  tcd_id :: "string option"
  tcd_name :: "string option"
  tcd_arguments_delta :: string

datatype canonical_event =
    Start "string option" "string option"
  | TextDelta string
  | ReasoningDelta string
  | ToolCallDelta tool_call_delta
  | Embedding nat "f32 list"
  | Score nat f32
  | Usage canonical_usage
  | Finish finish_reason
  | StreamError router_error

fun is_semantic_output :: "canonical_event \<Rightarrow> bool" where
  "is_semantic_output (TextDelta _) = True"
| "is_semantic_output (ReasoningDelta _) = True"
| "is_semantic_output (ToolCallDelta _) = True"
| "is_semantic_output (Embedding _ _) = True"
| "is_semantic_output (Score _ _) = True"
| "is_semantic_output _ = False"

fun is_terminal :: "canonical_event \<Rightarrow> bool" where
  "is_terminal (Finish _) = True"
| "is_terminal (StreamError _) = True"
| "is_terminal _ = False"

definition opt_len :: "string option \<Rightarrow> nat" where
  "opt_len x = (case x of None \<Rightarrow> 0 | Some s \<Rightarrow> length s)"

fun event_byte_len :: "canonical_event \<Rightarrow> nat" where
  "event_byte_len (Start upstream native) = opt_len upstream + opt_len native"
| "event_byte_len (TextDelta t) = length t"
| "event_byte_len (ReasoningDelta t) = length t"
| "event_byte_len (ToolCallDelta d) = length (tcd_arguments_delta d)"
| "event_byte_len (Embedding _ values) = length values * 4"
| "event_byte_len (Score _ _) = 0"
| "event_byte_len (Usage _) = 0"
| "event_byte_len (Finish _) = 0"
| "event_byte_len (StreamError e) = length (capped_text (err_detail e))"

section \<open>The response accumulator\<close>

definition MAX_TEXT_BYTES :: nat where "MAX_TEXT_BYTES = 8 * 1024 * 1024"
definition MAX_REASONING_BYTES :: nat where "MAX_REASONING_BYTES = 8 * 1024 * 1024"
definition MAX_TOOL_CALLS :: nat where "MAX_TOOL_CALLS = 1024"
definition MAX_TOOL_ARGUMENTS_BYTES :: nat where "MAX_TOOL_ARGUMENTS_BYTES = 1024 * 1024"
definition MAX_EMBEDDINGS :: nat where "MAX_EMBEDDINGS = 100000"
definition MAX_SCORES :: nat where "MAX_SCORES = 4096"

text \<open>Append up to a bound, on a character boundary; the flag says whether anything was dropped.\<close>

definition append_bounded :: "string \<Rightarrow> string \<Rightarrow> nat \<Rightarrow> string \<times> bool" where
  "append_bounded tgt addition mx =
     (if mx \<le> length tgt then (tgt, addition \<noteq> [])
      else
        let room = mx - length tgt
        in if length addition \<le> room then (tgt @ addition, False)
           else (tgt @ take (back_to_boundary addition room) addition, True))"

record accumulated_tool_call =
  atc_index :: nat
  atc_id :: string
  atc_name :: string
  atc_arguments :: string

record response_accumulator =
  acc_text :: string
  acc_reasoning :: string
  acc_tool_calls :: "accumulated_tool_call list"
  acc_embeddings :: "(nat \<times> f32 list) list"
  acc_scores :: "(nat \<times> f32) list"
  acc_usage :: "canonical_usage option"
  acc_finish :: "finish_reason option"
  acc_upstream_id :: "string option"
  acc_native_model :: "string option"
  acc_error :: "router_error option"
  saw_output :: bool
  acc_truncated :: bool
  tool_slots :: "(nat, nat) btree_map"

definition acc_new :: response_accumulator where
  "acc_new =
     \<lparr>acc_text = [], acc_reasoning = [], acc_tool_calls = [], acc_embeddings = [], acc_scores = [],
      acc_usage = None, acc_finish = None, acc_upstream_id = None, acc_native_model = None,
      acc_error = None, saw_output = False, acc_truncated = False, tool_slots = []\<rparr>"

definition or_else :: "'a option \<Rightarrow> 'a option \<Rightarrow> 'a option" where
  "or_else x y = (case x of None \<Rightarrow> y | Some _ \<Rightarrow> x)"

text \<open>Fold one delta into its slot.\<close>

definition slot_absorb ::
  "tool_call_delta \<Rightarrow> accumulated_tool_call \<Rightarrow> accumulated_tool_call \<times> bool" where
  "slot_absorb d slot =
     (let (args, dropped) =
        append_bounded (atc_arguments slot) (tcd_arguments_delta d) MAX_TOOL_ARGUMENTS_BYTES
      in (slot\<lparr>atc_id := unwrap_or (atc_id slot) (tcd_id d),
               atc_name := unwrap_or (atc_name slot) (tcd_name d),
               atc_arguments := args\<rparr>, dropped))"

definition slot_update ::
  "tool_call_delta \<Rightarrow> nat \<Rightarrow> response_accumulator \<Rightarrow> response_accumulator" where
  "slot_update d position acc =
     (if position < length (acc_tool_calls acc) then
        let (slot, dropped) = slot_absorb d (acc_tool_calls acc ! position)
        in acc\<lparr>acc_tool_calls := (acc_tool_calls acc)[position := slot],
               acc_truncated := acc_truncated acc \<or> dropped\<rparr>
      else acc)"

definition push_tool_call :: "tool_call_delta \<Rightarrow> response_accumulator \<Rightarrow> response_accumulator" where
  "push_tool_call d acc =
     (case btree_get (tool_slots acc) (tcd_index d) of
        Some position \<Rightarrow> slot_update d position acc
      | None \<Rightarrow>
          if length (acc_tool_calls acc) \<ge> MAX_TOOL_CALLS then acc\<lparr>acc_truncated := True\<rparr>
          else
            let position = length (acc_tool_calls acc);
                fresh = \<lparr>atc_index = tcd_index d, atc_id = [], atc_name = [], atc_arguments = []\<rparr>
            in slot_update d position
                 (acc\<lparr>acc_tool_calls := acc_tool_calls acc @ [fresh],
                      tool_slots := btree_insert (tcd_index d) position (tool_slots acc)\<rparr>))"

fun push_event :: "canonical_event \<Rightarrow> response_accumulator \<Rightarrow> response_accumulator" where
  "push_event (Start upstream native) acc =
     acc\<lparr>acc_upstream_id := or_else (acc_upstream_id acc) upstream,
         acc_native_model := or_else (acc_native_model acc) native\<rparr>"
| "push_event (TextDelta t) acc =
     (let (s, dropped) = append_bounded (acc_text acc) t MAX_TEXT_BYTES
      in acc\<lparr>acc_text := s, acc_truncated := acc_truncated acc \<or> dropped\<rparr>)"
| "push_event (ReasoningDelta t) acc =
     (let (s, dropped) = append_bounded (acc_reasoning acc) t MAX_REASONING_BYTES
      in acc\<lparr>acc_reasoning := s, acc_truncated := acc_truncated acc \<or> dropped\<rparr>)"
| "push_event (ToolCallDelta d) acc = push_tool_call d acc"
| "push_event (Embedding i values) acc =
     (if length (acc_embeddings acc) \<ge> MAX_EMBEDDINGS then acc\<lparr>acc_truncated := True\<rparr>
      else acc\<lparr>acc_embeddings := acc_embeddings acc @ [(i, values)]\<rparr>)"
| "push_event (Score i s) acc =
     (if length (acc_scores acc) \<ge> MAX_SCORES then acc\<lparr>acc_truncated := True\<rparr>
      else acc\<lparr>acc_scores := acc_scores acc @ [(i, s)]\<rparr>)"
| "push_event (Usage u) acc =
     acc\<lparr>acc_usage := Some (case acc_usage acc of Some previous \<Rightarrow> usage_merge previous u | None \<Rightarrow> u)\<rparr>"
| "push_event (Finish reason) acc = acc\<lparr>acc_finish := Some reason\<rparr>"
| "push_event (StreamError e) acc = acc\<lparr>acc_error := Some e\<rparr>"

definition acc_push :: "canonical_event \<Rightarrow> response_accumulator \<Rightarrow> response_accumulator" where
  "acc_push e acc =
     push_event e (if is_semantic_output e then acc\<lparr>saw_output := True\<rparr> else acc)"

definition accumulate :: "canonical_event list \<Rightarrow> response_accumulator" where
  "accumulate es = fold acc_push es acc_new"

definition sorted_tool_calls :: "response_accumulator \<Rightarrow> accumulated_tool_call list" where
  "sorted_tool_calls acc = sort_key atc_index (acc_tool_calls acc)"

section \<open>Upstream errors\<close>

datatype upstream_error_class =
    UConnection | UTimeout | UAuthentication | URateLimited | UInvalidRequest
  | UContextOverflow | UUnsupportedFeature | UServerError | UProtocolViolation | UContentFilter

definition class_is_retriable :: "upstream_error_class \<Rightarrow> bool" where
  "class_is_retriable c =
     (c = UConnection \<or> c = UTimeout \<or> c = URateLimited \<or> c = UServerError \<or> c = UProtocolViolation)"

definition affects_health :: "upstream_error_class \<Rightarrow> bool" where
  "affects_health c = (c = UConnection \<or> c = UTimeout \<or> c = UServerError \<or> c = UProtocolViolation)"

fun class_as_str :: "upstream_error_class \<Rightarrow> string" where
  "class_as_str UConnection = ''connection''"
| "class_as_str UTimeout = ''timeout''"
| "class_as_str UAuthentication = ''authentication''"
| "class_as_str URateLimited = ''rate_limited''"
| "class_as_str UInvalidRequest = ''invalid_request''"
| "class_as_str UContextOverflow = ''context_overflow''"
| "class_as_str UUnsupportedFeature = ''unsupported_feature''"
| "class_as_str UServerError = ''server_error''"
| "class_as_str UProtocolViolation = ''protocol_violation''"
| "class_as_str UContentFilter = ''content_filter''"

fun to_client_code :: "upstream_error_class \<Rightarrow> error_code" where
  "to_client_code UConnection = UpstreamInvalidResponse"
| "to_client_code UServerError = UpstreamInvalidResponse"
| "to_client_code UProtocolViolation = UpstreamInvalidResponse"
| "to_client_code UTimeout = DeadlineExceededCode"
| "to_client_code UAuthentication = InternalFault"
| "to_client_code URateLimited = RateLimited"
| "to_client_code UInvalidRequest = InvalidRequest"
| "to_client_code UContextOverflow = InvalidRequest"
| "to_client_code UUnsupportedFeature = InvalidRequest"
| "to_client_code UContentFilter = InvalidRequest"

section \<open>Usage merging is order-independent\<close>

lemma usage_eqI:
  "input_tokens u = input_tokens v \<Longrightarrow> output_tokens u = output_tokens v \<Longrightarrow>
   cached_input_tokens u = cached_input_tokens v \<Longrightarrow> reasoning_tokens u = reasoning_tokens v \<Longrightarrow>
   usage_source u = usage_source v \<Longrightarrow> u = (v :: canonical_usage)"
  by (cases u; cases v) simp

lemmas usage_defs = usage_merge_def merge_source_def merge_input_def usage_is_reported_def Let_def

lemma usage_merge_commute: "usage_merge u v = usage_merge v u"
  by (rule usage_eqI) (auto simp: usage_defs max.commute split: usage_source.splits)

lemma usage_merge_sel:
  "usage_source (usage_merge u v) = merge_source u v"
  "input_tokens (usage_merge u v) = max (merge_input (merge_source u v) u) (merge_input (merge_source u v) v)"
  "output_tokens (usage_merge u v) = max (output_tokens u) (output_tokens v)"
  "cached_input_tokens (usage_merge u v) = max (cached_input_tokens u) (cached_input_tokens v)"
  "reasoning_tokens (usage_merge u v) = max (reasoning_tokens u) (reasoning_tokens v)"
  by (simp_all add: usage_merge_def Let_def)

text \<open>Provenance is ordered: a report outranks a partial report, which outranks an estimate.\<close>

fun source_rank :: "usage_source \<Rightarrow> nat" where
  "source_rank RouterEstimated = 0"
| "source_rank ProviderReportedOutput = 1"
| "source_rank ProviderReported = 2"

lemma source_rank_inj: "source_rank a = source_rank b \<Longrightarrow> a = b"
  by (cases a; cases b) simp_all

lemma source_rank_merge:
  "source_rank (merge_source u v) = max (source_rank (usage_source u)) (source_rank (usage_source v))"
  by (cases "usage_source u"; cases "usage_source v") (simp_all add: merge_source_def usage_is_reported_def)

lemma merge_source_assoc: "merge_source (usage_merge u v) w = merge_source u (usage_merge v w)"
  by (rule source_rank_inj) (simp add: source_rank_merge usage_merge_sel(1) max.assoc)

lemma merge_input_merge:
  assumes "source_rank (merge_source u v) \<le> source_rank src"
  shows "merge_input src (usage_merge u v) = max (merge_input src u) (merge_input src v)"
  using assms
  by (cases src; cases "usage_source u"; cases "usage_source v")
    (simp_all add: merge_input_def usage_is_reported_def usage_merge_sel merge_source_def)

lemma usage_merge_assoc: "usage_merge (usage_merge u v) w = usage_merge u (usage_merge v w)"
proof (rule usage_eqI)
  let ?src = "merge_source u (usage_merge v w)"
  have "merge_input ?src (usage_merge u v) = max (merge_input ?src u) (merge_input ?src v)"
    "merge_input ?src (usage_merge v w) = max (merge_input ?src v) (merge_input ?src w)"
    by (rule merge_input_merge, simp add: source_rank_merge usage_merge_sel(1))+
  then show "input_tokens (usage_merge (usage_merge u v) w) = input_tokens (usage_merge u (usage_merge v w))"
    by (simp add: usage_merge_sel(2) merge_source_assoc max.assoc)
qed (simp_all add: usage_merge_sel merge_source_assoc max.assoc)

text \<open>
  Usage reports of one response can be combined in any order and grouping: merging is commutative
  and associative, a reported input count is never replaced by an estimate or by the placeholder zero
  of an output-only report, and output counts never decrease.
\<close>

theorem usage_merge_laws:
  "usage_merge u v = usage_merge v u \<and>
   usage_merge (usage_merge u v) w = usage_merge u (usage_merge v w) \<and>
   output_tokens u \<le> output_tokens (usage_merge u v) \<and>
   (usage_is_reported u \<longrightarrow>
      usage_is_reported (usage_merge u v) \<and>
      (\<not> usage_is_reported v \<longrightarrow> known_input_tokens (usage_merge u v) = Some (input_tokens u)))"
proof (intro conjI impI)
  assume "usage_is_reported u"
  then show rep: "usage_is_reported (usage_merge u v)"
    by (simp add: usage_is_reported_def usage_merge_sel merge_source_def)
  show "known_input_tokens (usage_merge u v) = Some (input_tokens u)" if "\<not> usage_is_reported v"
    using that \<open>usage_is_reported u\<close> rep
    by (simp add: known_input_tokens_def usage_merge_sel merge_input_def usage_is_reported_def merge_source_def)
next
  show "usage_merge u v = usage_merge v u" by (rule usage_merge_commute)
  show "usage_merge (usage_merge u v) w = usage_merge u (usage_merge v w)" by (rule usage_merge_assoc)
qed (simp add: usage_merge_sel(3))

section \<open>The accumulator is bounded and never mixes tool calls\<close>

lemma append_bounded_cases:
  assumes "append_bounded tgt a mx = (r, dropped)" "length tgt \<le> mx"
  shows "length r \<le> mx" "\<not> dropped \<Longrightarrow> r = tgt @ a" "\<exists>rest. r = tgt @ rest"
proof -
  have "back_to_boundary a (mx - length tgt) \<le> mx - length tgt" by (rule back_to_boundary_le)
  with assms show "length r \<le> mx" "\<not> dropped \<Longrightarrow> r = tgt @ a" "\<exists>rest. r = tgt @ rest"
    by (auto simp: append_bounded_def Let_def min_def split: if_splits)
qed

theorem usage_merge_laws_witness:
  "known_input_tokens (usage_merge (usage_reported 10 5) (usage_estimated 99 7)) = Some 10"
proof -
  have "usage_is_reported (usage_reported 10 5)" "\<not> usage_is_reported (usage_estimated 99 7)"
    by (simp_all add: usage_is_reported_def usage_reported_def usage_estimated_def)
  with usage_merge_laws [of "usage_reported 10 5" "usage_estimated 99 7" "usage_estimated 0 0"]
  have "known_input_tokens (usage_merge (usage_reported 10 5) (usage_estimated 99 7)) =
    Some (input_tokens (usage_reported 10 5))" by blast
  then show ?thesis by (simp add: usage_reported_def)
qed

definition acc_ok :: "response_accumulator \<Rightarrow> bool" where
  "acc_ok acc =
     (length (acc_text acc) \<le> MAX_TEXT_BYTES \<and>
      length (acc_reasoning acc) \<le> MAX_REASONING_BYTES \<and>
      length (acc_tool_calls acc) \<le> MAX_TOOL_CALLS \<and>
      (\<forall>c \<in> set (acc_tool_calls acc). length (atc_arguments c) \<le> MAX_TOOL_ARGUMENTS_BYTES) \<and>
      length (acc_embeddings acc) \<le> MAX_EMBEDDINGS \<and>
      length (acc_scores acc) \<le> MAX_SCORES \<and>
      btree_wf (tool_slots acc) \<and>
      (\<forall>i p. btree_get (tool_slots acc) i = Some p \<longleftrightarrow>
         p < length (acc_tool_calls acc) \<and> atc_index (acc_tool_calls acc ! p) = i))"

lemma acc_ok_new: "acc_ok acc_new"
  by (simp add: acc_ok_def acc_new_def btree_wf_def btree_get_def)

lemma slot_absorb_cases:
  assumes "slot_absorb d slot = (slot', dropped)" "length (atc_arguments slot) \<le> MAX_TOOL_ARGUMENTS_BYTES"
  shows "atc_index slot' = atc_index slot" "length (atc_arguments slot') \<le> MAX_TOOL_ARGUMENTS_BYTES"
    "\<not> dropped \<Longrightarrow> atc_arguments slot' = atc_arguments slot @ tcd_arguments_delta d"
  using append_bounded_cases [OF surjective_pairing assms(2), of "tcd_arguments_delta d"] assms(1)
  by (auto simp: slot_absorb_def split: prod.splits)

lemma slot_update_ok:
  assumes "acc_ok acc"
  shows "acc_ok (slot_update d p acc)"
proof (cases "p < length (acc_tool_calls acc)")
  case True
  obtain slot dropped where sl: "slot_absorb d (acc_tool_calls acc ! p) = (slot, dropped)"
    by fastforce
  have "length (atc_arguments (acc_tool_calls acc ! p)) \<le> MAX_TOOL_ARGUMENTS_BYTES"
    using assms True by (auto simp: acc_ok_def)
  note slot_absorb_cases [OF sl this]
  then show ?thesis
    using assms True sl set_update_subset_insert [of "acc_tool_calls acc" p slot]
    by (auto simp: acc_ok_def slot_update_def nth_list_update)
qed (use assms in \<open>simp add: slot_update_def\<close>)

lemma acc_ok_fresh_slot:
  assumes "acc_ok acc" "btree_get (tool_slots acc) i = None" "length (acc_tool_calls acc) < MAX_TOOL_CALLS"
  shows "acc_ok (acc\<lparr>acc_tool_calls :=
            acc_tool_calls acc @ [\<lparr>atc_index = i, atc_id = [], atc_name = [], atc_arguments = []\<rparr>],
          tool_slots := btree_insert i (length (acc_tool_calls acc)) (tool_slots acc)\<rparr>)"
proof -
  have none: "\<And>p. p < length (acc_tool_calls acc) \<Longrightarrow> atc_index (acc_tool_calls acc ! p) \<noteq> i"
    using assms(1,2) unfolding acc_ok_def by (metis option.distinct(1))
  show ?thesis
    using assms none
    by (auto simp: acc_ok_def btree_wf_insert btree_get_insert nth_append less_Suc_eq split: if_splits)
qed

lemma push_tool_call_ok: "acc_ok acc \<Longrightarrow> acc_ok (push_tool_call d acc)"
  by (auto simp: push_tool_call_def Let_def not_le slot_update_ok acc_ok_fresh_slot split: option.splits)
    (auto simp: acc_ok_def)

lemma push_event_ok:
  assumes ok: "acc_ok acc"
  shows "acc_ok (push_event e acc)"
proof (cases e)
  case (TextDelta t)
  obtain r dr where r: "append_bounded (acc_text acc) t MAX_TEXT_BYTES = (r, dr)" by fastforce
  have "length (acc_text acc) \<le> MAX_TEXT_BYTES" using ok by (simp add: acc_ok_def)
  from append_bounded_cases(1) [OF r this] ok r TextDelta show ?thesis by (simp add: acc_ok_def)
next
  case (ReasoningDelta t)
  obtain r dr where r: "append_bounded (acc_reasoning acc) t MAX_REASONING_BYTES = (r, dr)" by fastforce
  have "length (acc_reasoning acc) \<le> MAX_REASONING_BYTES" using ok by (simp add: acc_ok_def)
  from append_bounded_cases(1) [OF r this] ok r ReasoningDelta show ?thesis by (simp add: acc_ok_def)
qed (use ok push_tool_call_ok in \<open>simp_all add: acc_ok_def\<close>)

lemma acc_ok_saw [simp]: "acc_ok (acc\<lparr>saw_output := b\<rparr>) = acc_ok acc"
  by (simp add: acc_ok_def)

lemma acc_push_ok: "acc_ok acc \<Longrightarrow> acc_ok (acc_push e acc)"
  by (simp add: acc_push_def push_event_ok)

lemma fold_acc_push_ok: "acc_ok acc \<Longrightarrow> acc_ok (fold acc_push es acc)"
  by (induction es arbitrary: acc) (simp_all add: acc_push_ok)

subsection \<open>What an untruncated response holds\<close>

fun text_of :: "canonical_event \<Rightarrow> string" where
  "text_of (TextDelta t) = t"
| "text_of _ = []"

fun reasoning_of :: "canonical_event \<Rightarrow> string" where
  "reasoning_of (ReasoningDelta t) = t"
| "reasoning_of _ = []"

fun arguments_of :: "nat \<Rightarrow> canonical_event \<Rightarrow> string" where
  "arguments_of i (ToolCallDelta d) = (if tcd_index d = i then tcd_arguments_delta d else [])"
| "arguments_of i _ = []"

definition slot_arguments :: "response_accumulator \<Rightarrow> nat \<Rightarrow> string" where
  "slot_arguments acc i =
     (case btree_get (tool_slots acc) i of None \<Rightarrow> [] | Some p \<Rightarrow> atc_arguments (acc_tool_calls acc ! p))"

lemma slot_arguments_cong:
  "tool_slots a = tool_slots b \<Longrightarrow> acc_tool_calls a = acc_tool_calls b \<Longrightarrow> slot_arguments a i = slot_arguments b i"
  by (simp add: slot_arguments_def split: option.split)

lemma slot_arguments_frame [simp]:
  "slot_arguments (acc\<lparr>saw_output := b\<rparr>) i = slot_arguments acc i"
  "slot_arguments (acc\<lparr>acc_text := s, acc_truncated := b\<rparr>) i = slot_arguments acc i"
  "slot_arguments (acc\<lparr>acc_reasoning := s, acc_truncated := b\<rparr>) i = slot_arguments acc i"
  by (rule slot_arguments_cong; simp)+

lemma slot_update_frame:
  "acc_text (slot_update d p acc) = acc_text acc" "acc_reasoning (slot_update d p acc) = acc_reasoning acc"
  "tool_slots (slot_update d p acc) = tool_slots acc" "saw_output (slot_update d p acc) = saw_output acc"
  "acc_truncated acc \<Longrightarrow> acc_truncated (slot_update d p acc)"
  by (auto simp: slot_update_def split: prod.splits)

lemma push_tool_call_frame:
  "acc_text (push_tool_call d acc) = acc_text acc" "acc_reasoning (push_tool_call d acc) = acc_reasoning acc"
  "saw_output (push_tool_call d acc) = saw_output acc"
  "acc_truncated acc \<Longrightarrow> acc_truncated (push_tool_call d acc)"
  by (auto simp: push_tool_call_def slot_update_frame Let_def split: option.splits)

lemma push_event_frame:
  "saw_output (push_event e acc) = saw_output acc"
  "acc_truncated acc \<Longrightarrow> acc_truncated (push_event e acc)"
  by (cases e; auto simp: push_tool_call_frame split: prod.splits)+

lemma slot_update_arguments:
  assumes ok: "acc_ok acc" and slot: "btree_get (tool_slots acc) (tcd_index d) = Some p"
    and nt: "\<not> acc_truncated (slot_update d p acc)"
  shows "slot_arguments (slot_update d p acc) i = slot_arguments acc i @ arguments_of i (ToolCallDelta d)"
proof -
  have p: "p < length (acc_tool_calls acc)" "atc_index (acc_tool_calls acc ! p) = tcd_index d"
    using ok slot by (auto simp: acc_ok_def)
  obtain slot' dropped where sl: "slot_absorb d (acc_tool_calls acc ! p) = (slot', dropped)" by fastforce
  have "length (atc_arguments (acc_tool_calls acc ! p)) \<le> MAX_TOOL_ARGUMENTS_BYTES"
    using ok p by (auto simp: acc_ok_def)
  note absorbed = slot_absorb_cases(3) [OF sl this]
  have nd: "\<not> dropped" using nt p sl by (simp add: slot_update_def)
  have other: "q \<noteq> p" if "btree_get (tool_slots acc) i = Some q" "i \<noteq> tcd_index d" for q
    using ok slot that p by (auto simp: acc_ok_def)
  show ?thesis
    using p sl slot absorbed [OF nd] other
    by (auto simp: slot_arguments_def slot_update_def nth_list_update split: option.splits)
qed

lemma push_tool_call_arguments:
  assumes ok: "acc_ok acc" and nt: "\<not> acc_truncated (push_tool_call d acc)"
  shows "slot_arguments (push_tool_call d acc) i = slot_arguments acc i @ arguments_of i (ToolCallDelta d)"
proof (cases "btree_get (tool_slots acc) (tcd_index d)")
  case (Some p)
  with nt slot_update_arguments [OF ok Some] show ?thesis by (simp add: push_tool_call_def)
next
  case None
  let ?n = "length (acc_tool_calls acc)"
  let ?fresh = "acc\<lparr>acc_tool_calls := acc_tool_calls acc
        @ [\<lparr>atc_index = tcd_index d, atc_id = [], atc_name = [], atc_arguments = []\<rparr>],
      tool_slots := btree_insert (tcd_index d) ?n (tool_slots acc)\<rparr>"
  have room: "?n < MAX_TOOL_CALLS"
    using nt None by (cases "MAX_TOOL_CALLS \<le> ?n") (simp_all add: push_tool_call_def)
  have push: "push_tool_call d acc = slot_update d ?n ?fresh"
    using None room by (simp add: push_tool_call_def Let_def)
  have "slot_arguments ?fresh i = slot_arguments acc i"
  proof (cases "btree_get (tool_slots acc) i")
    case (Some p)
    then have "p < ?n" using ok by (simp add: acc_ok_def)
    with Some None show ?thesis by (auto simp: slot_arguments_def btree_get_insert nth_append)
  qed (simp add: slot_arguments_def btree_get_insert)
  then show ?thesis
    using slot_update_arguments [OF acc_ok_fresh_slot [OF ok None room], of d ?n i] nt push
    by (simp add: btree_get_insert)
qed

lemma push_event_content:
  assumes ok: "acc_ok acc" and nt: "\<not> acc_truncated (push_event e acc)"
  shows "acc_text (push_event e acc) = acc_text acc @ text_of e \<and>
    acc_reasoning (push_event e acc) = acc_reasoning acc @ reasoning_of e \<and>
    slot_arguments (push_event e acc) i = slot_arguments acc i @ arguments_of i e"
proof (cases e)
  case (TextDelta t)
  obtain r dr where r: "append_bounded (acc_text acc) t MAX_TEXT_BYTES = (r, dr)" by fastforce
  have "length (acc_text acc) \<le> MAX_TEXT_BYTES" using ok by (simp add: acc_ok_def)
  from append_bounded_cases(2) [OF r this] nt r TextDelta show ?thesis by simp
next
  case (ReasoningDelta t)
  obtain r dr where r: "append_bounded (acc_reasoning acc) t MAX_REASONING_BYTES = (r, dr)" by fastforce
  have "length (acc_reasoning acc) \<le> MAX_REASONING_BYTES" using ok by (simp add: acc_ok_def)
  from append_bounded_cases(2) [OF r this] nt r ReasoningDelta show ?thesis by simp
next
  case (ToolCallDelta d)
  with push_tool_call_arguments [OF ok, of d i] nt show ?thesis
    by (simp add: push_tool_call_frame(1,2))
qed (use nt in \<open>auto split: if_splits intro!: slot_arguments_cong\<close>)

lemma acc_push_content:
  assumes "acc_ok acc" "\<not> acc_truncated (acc_push e acc)"
  shows "acc_text (acc_push e acc) = acc_text acc @ text_of e \<and>
    acc_reasoning (acc_push e acc) = acc_reasoning acc @ reasoning_of e \<and>
    slot_arguments (acc_push e acc) i = slot_arguments acc i @ arguments_of i e"
  using assms push_event_content [of "acc\<lparr>saw_output := True\<rparr>" e i] push_event_content [of acc e i]
  by (auto simp: acc_push_def split: if_splits)

lemma acc_push_truncated: "acc_truncated acc \<Longrightarrow> acc_truncated (acc_push e acc)"
  by (simp add: acc_push_def push_event_frame(2))

lemma fold_acc_push_truncated: "acc_truncated acc \<Longrightarrow> acc_truncated (fold acc_push es acc)"
  by (induction es arbitrary: acc) (simp_all add: acc_push_truncated)

lemma fold_acc_push_content:
  "acc_ok acc \<Longrightarrow> \<not> acc_truncated (fold acc_push es acc) \<Longrightarrow>
   acc_text (fold acc_push es acc) = acc_text acc @ concat (map text_of es) \<and>
   acc_reasoning (fold acc_push es acc) = acc_reasoning acc @ concat (map reasoning_of es) \<and>
   slot_arguments (fold acc_push es acc) i = slot_arguments acc i @ concat (map (arguments_of i) es)"
proof (induction es arbitrary: acc)
  case (Cons e es)
  have "\<not> acc_truncated (acc_push e acc)"
    using Cons.prems(2) fold_acc_push_truncated [of "acc_push e acc" es] by auto
  with Cons.IH [OF acc_push_ok [OF Cons.prems(1)], of e] Cons.prems acc_push_content [of acc e i]
  show ?case by simp
qed simp

lemma fold_acc_push_saw:
  "saw_output (fold acc_push es acc) \<longleftrightarrow> saw_output acc \<or> list_ex is_semantic_output es"
  by (induction es arbitrary: acc) (auto simp: acc_push_def push_event_frame(1))

text \<open>
  Whatever a provider streams, the assembled response stays within every published bound, and
  failover is ruled out exactly when some event carried semantic output.
\<close>

theorem accumulator_bounded:
  "length (acc_text (accumulate es)) \<le> MAX_TEXT_BYTES \<and>
   length (acc_reasoning (accumulate es)) \<le> MAX_REASONING_BYTES \<and>
   length (acc_tool_calls (accumulate es)) \<le> MAX_TOOL_CALLS \<and>
   list_all (\<lambda>c. length (atc_arguments c) \<le> MAX_TOOL_ARGUMENTS_BYTES) (acc_tool_calls (accumulate es)) \<and>
   length (acc_embeddings (accumulate es)) \<le> MAX_EMBEDDINGS \<and>
   length (acc_scores (accumulate es)) \<le> MAX_SCORES \<and>
   (saw_output (accumulate es) \<longleftrightarrow> list_ex is_semantic_output es)"
  using fold_acc_push_ok [OF acc_ok_new, of es] fold_acc_push_saw [of es acc_new]
  by (simp add: accumulate_def acc_ok_def list_all_iff) (simp add: acc_new_def)

text \<open>
  When nothing was truncated the response is exact: text and reasoning are the concatenation of
  their deltas, and the arguments of the tool call at any index are the concatenation, in order, of
  the deltas that carried that index, however the provider interleaved the calls.
\<close>

theorem accumulator_faithful:
  assumes "\<not> acc_truncated (accumulate es)"
  shows "acc_text (accumulate es) = concat (map text_of es) \<and>
    acc_reasoning (accumulate es) = concat (map reasoning_of es) \<and>
    slot_arguments (accumulate es) i = concat (map (arguments_of i) es)"
  using fold_acc_push_content [OF acc_ok_new, of es i] assms
  by (simp add: accumulate_def) (simp add: acc_new_def slot_arguments_def btree_get_def)

abbreviation sample_delta :: "nat \<Rightarrow> string \<Rightarrow> canonical_event" where
  "sample_delta i args \<equiv> ToolCallDelta \<lparr>tcd_index = i, tcd_id = None, tcd_name = None, tcd_arguments_delta = args\<rparr>"

theorem accumulator_faithful_witness:
  "slot_arguments (accumulate [sample_delta 0 ''a'', sample_delta 7 ''x'', TextDelta ''t'', sample_delta 0 ''b'']) 0 = ''ab''"
proof -
  let ?es = "[sample_delta 0 ''a'', sample_delta 7 ''x'', TextDelta ''t'', sample_delta 0 ''b'']"
  have h: "\<not> acc_truncated (accumulate ?es)"
    by (simp add: accumulate_def acc_new_def acc_push_def push_tool_call_def slot_update_def slot_absorb_def
        append_bounded_def btree_get_def MAX_TEXT_BYTES_def MAX_TOOL_CALLS_def MAX_TOOL_ARGUMENTS_BYTES_def)
  from accumulator_faithful [OF h, of 0] show ?thesis by simp
qed

end
