(* ===== verification/Decision.thy ===== *)
theory Decision
  imports Targets Events
begin

text \<open>
  Decision traces (\<open>hypellm-core/src/decision.rs\<close>): exclusion reasons, fleet residency classes, the
  integer score terms with their published ranges, candidates and their total order, and the
  repetition detector of an attempt's output tally. Signed terms are integers with the \<open>i64\<close>
  saturation written out.
\<close>

section \<open>Exclusion reasons\<close>

datatype exclusion_reason =
    NotAuthorizedForAlias | OperationUnsupported | NotPermittedForAlias | ProviderDisabled
     | TargetDisabled | TargetDraining | TargetMaintenance | TargetQuarantined | CircuitOpen
     | ProbeUnreachable | Unhealthy | ModalityUnsupported | ToolsUnsupported
     | StructuredOutputUnsupported | StreamingUnsupported | ContextWindowTooSmall
     | OutputLimitTooSmall | ResidencyMismatch | EndpointNotAllowlisted
     | CredentialScopeMismatch | CostCeilingExceeded | BudgetExceeded | CapacityExhausted
     | DeniedByPolicy | FleetAccessDenied | KeyRestricted | NotPinnedTarget | LocalRequired
     | FamilyFailoverNotAllowed | AlreadyAttempted | NotSelectedByAnyBinding
     | CapabilityUnsupported | ReasoningEffortUnsupported | QualityFloorNotMet
     | ActivationExceedsDeadline | ActivationBudgetExhausted | ActivationQueued
     | ActivationNotPermitted | ArtifactUnavailable | HostCapacityInsufficient
     | FleetStateStale | FleetAgentUnavailable | FleetConfigurationMismatch | DeploymentInDwell
     | EvictionValueInsufficient

fun reason_code :: "exclusion_reason \<Rightarrow> string" where
  "reason_code NotAuthorizedForAlias = ''not_authorized_for_alias''"
| "reason_code OperationUnsupported = ''operation_unsupported''"
| "reason_code NotPermittedForAlias = ''not_permitted_for_alias''"
| "reason_code ProviderDisabled = ''provider_disabled''"
| "reason_code TargetDisabled = ''target_disabled''"
| "reason_code TargetDraining = ''target_draining''"
| "reason_code TargetMaintenance = ''target_maintenance''"
| "reason_code TargetQuarantined = ''target_quarantined''"
| "reason_code CircuitOpen = ''circuit_open''"
| "reason_code ProbeUnreachable = ''probe_unreachable''"
| "reason_code Unhealthy = ''unhealthy''"
| "reason_code ModalityUnsupported = ''modality_unsupported''"
| "reason_code ToolsUnsupported = ''tools_unsupported''"
| "reason_code StructuredOutputUnsupported = ''structured_output_unsupported''"
| "reason_code StreamingUnsupported = ''streaming_unsupported''"
| "reason_code ContextWindowTooSmall = ''context_window_too_small''"
| "reason_code OutputLimitTooSmall = ''output_limit_too_small''"
| "reason_code ResidencyMismatch = ''residency_mismatch''"
| "reason_code EndpointNotAllowlisted = ''endpoint_not_allowlisted''"
| "reason_code CredentialScopeMismatch = ''credential_scope_mismatch''"
| "reason_code CostCeilingExceeded = ''cost_ceiling_exceeded''"
| "reason_code BudgetExceeded = ''budget_exceeded''"
| "reason_code CapacityExhausted = ''capacity_exhausted''"
| "reason_code DeniedByPolicy = ''denied_by_policy''"
| "reason_code FleetAccessDenied = ''fleet_access_denied''"
| "reason_code KeyRestricted = ''key_restricted''"
| "reason_code NotPinnedTarget = ''not_pinned_target''"
| "reason_code LocalRequired = ''local_required''"
| "reason_code FamilyFailoverNotAllowed = ''family_failover_not_allowed''"
| "reason_code AlreadyAttempted = ''already_attempted''"
| "reason_code NotSelectedByAnyBinding = ''not_selected_by_any_binding''"
| "reason_code CapabilityUnsupported = ''capability_unsupported''"
| "reason_code ReasoningEffortUnsupported = ''reasoning_effort_unsupported''"
| "reason_code QualityFloorNotMet = ''quality_floor_not_met''"
| "reason_code ActivationExceedsDeadline = ''activation_exceeds_deadline''"
| "reason_code ActivationBudgetExhausted = ''activation_budget_exhausted''"
| "reason_code ActivationQueued = ''activation_queued''"
| "reason_code ActivationNotPermitted = ''activation_not_permitted''"
| "reason_code ArtifactUnavailable = ''artifact_unavailable''"
| "reason_code HostCapacityInsufficient = ''host_capacity_insufficient''"
| "reason_code FleetStateStale = ''fleet_state_stale''"
| "reason_code FleetAgentUnavailable = ''fleet_agent_unavailable''"
| "reason_code FleetConfigurationMismatch = ''fleet_configuration_mismatch''"
| "reason_code DeploymentInDwell = ''deployment_in_dwell''"
| "reason_code EvictionValueInsufficient = ''eviction_value_insufficient''"

definition is_fleet_constraint :: "exclusion_reason \<Rightarrow> bool" where
  "is_fleet_constraint r = (r \<in> set [ActivationExceedsDeadline, ActivationBudgetExhausted, ActivationQueued
      , ActivationNotPermitted, ArtifactUnavailable, HostCapacityInsufficient, FleetStateStale
      , FleetAgentUnavailable, FleetConfigurationMismatch, DeploymentInDwell
      , EvictionValueInsufficient])"

definition is_security_constraint :: "exclusion_reason \<Rightarrow> bool" where
  "is_security_constraint r = (r \<in> set [NotAuthorizedForAlias, DeniedByPolicy, FleetAccessDenied, KeyRestricted
      , ResidencyMismatch, EndpointNotAllowlisted, CredentialScopeMismatch, TargetQuarantined
      , FamilyFailoverNotAllowed, LocalRequired, ActivationNotPermitted])"

definition reason_all :: "exclusion_reason list" where
  "reason_all = [
      NotAuthorizedForAlias, OperationUnsupported, NotPermittedForAlias, ProviderDisabled
      , TargetDisabled, TargetDraining, TargetMaintenance, TargetQuarantined, CircuitOpen
      , ProbeUnreachable, Unhealthy, ModalityUnsupported, ToolsUnsupported
      , StructuredOutputUnsupported, StreamingUnsupported, ContextWindowTooSmall
      , OutputLimitTooSmall, ResidencyMismatch, EndpointNotAllowlisted, CredentialScopeMismatch
      , CostCeilingExceeded, BudgetExceeded, CapacityExhausted, DeniedByPolicy
      , FleetAccessDenied, KeyRestricted, NotPinnedTarget, LocalRequired
      , FamilyFailoverNotAllowed, AlreadyAttempted, NotSelectedByAnyBinding
      , CapabilityUnsupported, ReasoningEffortUnsupported, QualityFloorNotMet
      , ActivationExceedsDeadline, ActivationBudgetExhausted, ActivationQueued
      , ActivationNotPermitted, ArtifactUnavailable, HostCapacityInsufficient, FleetStateStale
      , FleetAgentUnavailable, FleetConfigurationMismatch, DeploymentInDwell
      , EvictionValueInsufficient]"

text \<open>The derived \<open>Ord\<close> is the declaration order, which \<open>all\<close> lists.\<close>

definition reason_ord :: "exclusion_reason \<Rightarrow> nat" where
  "reason_ord r = length (takeWhile (\<lambda>x. x \<noteq> r) reason_all)"

lemma reason_all_complete: "r \<in> set reason_all"
  by (cases r) (simp_all add: reason_all_def)

lemma reason_all_nth: "reason_all ! reason_ord r = r"
proof -
  have "takeWhile (\<lambda>x. x \<noteq> r) reason_all \<noteq> reason_all"
    using reason_all_complete [of r] by (metis (mono_tags) takeWhile_eq_all_conv)
  then have "length (takeWhile (\<lambda>x. x \<noteq> r) reason_all) < length reason_all"
    by (metis le_neq_implies_less length_takeWhile_le takeWhile_eq_take take_all)
  from nth_length_takeWhile [OF this] show ?thesis by (simp add: reason_ord_def)
qed

lemma reason_ord_inj: "reason_ord a = reason_ord b \<Longrightarrow> a = b"
  by (metis reason_all_nth)

instantiation exclusion_reason :: linorder
begin
definition less_eq_exclusion_reason :: "exclusion_reason \<Rightarrow> exclusion_reason \<Rightarrow> bool" where
  "less_eq_exclusion_reason a b = (reason_ord a \<le> reason_ord b)"
definition less_exclusion_reason :: "exclusion_reason \<Rightarrow> exclusion_reason \<Rightarrow> bool" where
  "less_exclusion_reason a b = (reason_ord a < reason_ord b)"
instance
  by standard (auto simp: less_eq_exclusion_reason_def less_exclusion_reason_def intro: reason_ord_inj)
end

section \<open>Residency classes\<close>

datatype residency_class =
    Unmanaged | Resident | ResidentBusy | Activating | ColdFits | ColdRequiresEviction
  | ColdRequiresFetch | Infeasible exclusion_reason

fun residency_as_str :: "residency_class \<Rightarrow> string" where
  "residency_as_str Unmanaged = ''unmanaged''"
| "residency_as_str Resident = ''resident''"
| "residency_as_str ResidentBusy = ''resident_busy''"
| "residency_as_str Activating = ''activating''"
| "residency_as_str ColdFits = ''cold_fits''"
| "residency_as_str ColdRequiresEviction = ''cold_requires_eviction''"
| "residency_as_str ColdRequiresFetch = ''cold_requires_fetch''"
| "residency_as_str (Infeasible _) = ''infeasible''"

fun residency_exclusion :: "residency_class \<Rightarrow> exclusion_reason option" where
  "residency_exclusion (Infeasible reason) = Some reason"
| "residency_exclusion _ = None"

definition requires_activation :: "residency_class \<Rightarrow> bool" where
  "requires_activation c = (c = ColdFits \<or> c = ColdRequiresEviction \<or> c = ColdRequiresFetch)"

definition RANK_UNIT :: int where "RANK_UNIT = 1000000"
definition MAX_RANK :: int where "MAX_RANK = 64"
definition WARMTH_SLICE :: int where "WARMTH_SLICE = 40000"
definition HINT_SLICE :: int where "HINT_SLICE = 6000"
definition CONVERSATION_SLICE :: int where "CONVERSATION_SLICE = 4000"
definition WARMTH_LADDER_STEP :: int where "WARMTH_LADDER_STEP = 8000"
definition MAX_NON_RANK_MAGNITUDE :: int where "MAX_NON_RANK_MAGNITUDE = 100000 + 50000 * 6 + 999"

fun warmth_rung :: "residency_class \<Rightarrow> int" where
  "warmth_rung Unmanaged = 5"
| "warmth_rung Resident = 5"
| "warmth_rung ResidentBusy = 4"
| "warmth_rung Activating = 3"
| "warmth_rung ColdFits = 2"
| "warmth_rung ColdRequiresEviction = 1"
| "warmth_rung ColdRequiresFetch = 0"
| "warmth_rung (Infeasible _) = 0"

definition warmth_bonus :: "residency_class \<Rightarrow> int" where
  "warmth_bonus c = sat_i64 (WARMTH_LADDER_STEP * warmth_rung c)"

definition all_ready_classes :: "residency_class list" where
  "all_ready_classes =
     [Resident, ResidentBusy, Activating, ColdFits, ColdRequiresEviction, ColdRequiresFetch]"

section \<open>Score terms\<close>

record score_terms =
  priority_rank :: int
  policy_weight :: int
  health :: int
  latency :: int
  queue :: int
  cost :: int
  locality :: int
  affinity :: int
  jitter :: int

definition rank_term :: "nat \<Rightarrow> int" where
  "rank_term rank =
     (let r = int rank; r' = (if r > MAX_RANK then MAX_RANK else r) in (MAX_RANK - r') * RANK_UNIT)"

definition terms_total :: "score_terms \<Rightarrow> int" where
  "terms_total t =
     sat_addi (sat_addi (sat_addi (sat_addi (sat_addi (sat_addi (sat_addi (sat_addi
       (priority_rank t) (policy_weight t)) (health t)) (latency t)) (queue t)) (cost t))
       (locality t)) (affinity t)) (jitter t)"

definition non_rank_total :: "score_terms \<Rightarrow> int" where
  "non_rank_total t = sat_subi (terms_total t) (priority_rank t)"

definition clamped :: "score_terms \<Rightarrow> score_terms" where
  "clamped t =
     \<lparr>priority_rank = clamp_i 0 (MAX_RANK * RANK_UNIT) (priority_rank t),
      policy_weight = clamp_i (- 100000) 100000 (policy_weight t),
      health = clamp_i (- 50000) 0 (health t),
      latency = clamp_i (- 50000) 0 (latency t),
      queue = clamp_i (- 50000) 0 (queue t),
      cost = clamp_i (- 50000) 0 (cost t),
      locality = clamp_i 0 50000 (locality t),
      affinity = clamp_i 0 50000 (affinity t),
      jitter = clamp_i 0 999 (jitter t)\<rparr>"

section \<open>Candidates, exclusions, attempts\<close>

record candidate =
  cand_target :: target_id
  cand_terms :: score_terms
  cand_binding_precedence :: nat
  cand_rank :: nat
  cand_pin_rank :: nat
  cand_residency :: residency_class

definition PIN_TARGET :: nat where "PIN_TARGET = 0"
definition PIN_FALLBACK :: nat where "PIN_FALLBACK = 1"

definition cand_score :: "candidate \<Rightarrow> int" where
  "cand_score c = terms_total (cand_terms c)"

text \<open>\<open>Reverse(score)\<close> in the ordering key is the negated score.\<close>

definition ordering_key :: "candidate \<Rightarrow> nat \<times> int \<times> target_id" where
  "ordering_key c = (cand_pin_rank c, - cand_score c, cand_target c)"

record exclusion =
  excl_target :: target_id
  excl_reason :: exclusion_reason

datatype attempt_outcome =
    Success
  | FailedBeforeAcceptance upstream_error_class
  | FailedAfterAcceptance upstream_error_class
  | FailedAfterOutput upstream_error_class
  | OutcomeCancelled
  | OutcomeDeadlineExceeded

fun outcome_code :: "attempt_outcome \<Rightarrow> string" where
  "outcome_code Success = ''success''"
| "outcome_code (FailedBeforeAcceptance _) = ''failed_before_acceptance''"
| "outcome_code (FailedAfterAcceptance _) = ''failed_after_acceptance''"
| "outcome_code (FailedAfterOutput _) = ''failed_after_output''"
| "outcome_code OutcomeCancelled = ''cancelled''"
| "outcome_code OutcomeDeadlineExceeded = ''deadline_exceeded''"

fun outcome_error_class :: "attempt_outcome \<Rightarrow> upstream_error_class option" where
  "outcome_error_class (FailedBeforeAcceptance c) = Some c"
| "outcome_error_class (FailedAfterAcceptance c) = Some c"
| "outcome_error_class (FailedAfterOutput c) = Some c"
| "outcome_error_class _ = None"

record output_tally =
  tally_deltas :: nat
  tally_text_bytes :: nat
  tally_reasoning_bytes :: nat
  tally_tool_argument_bytes :: nat
  tally_tool_calls :: nat
  repeat_period :: "nat option"
  repeat_bytes :: "nat option"

definition REPEAT_MIN_BYTES :: nat where "REPEAT_MIN_BYTES = 128"
definition REPEAT_MAX_PERIOD :: nat where "REPEAT_MAX_PERIOD = 512"

definition try_u16 :: "nat \<Rightarrow> nat option" where
  "try_u16 n = (if n \<le> u16_max then Some n else None)"

text \<open>Count back from the end while each byte equals the one a period before it.\<close>

definition matched_run :: "string \<Rightarrow> nat \<Rightarrow> nat" where
  "matched_run tail period =
     length (takeWhile (\<lambda>i. tail ! i = tail ! (i - period)) (rev [period..<length tail]))"

fun repetition_loop :: "string \<Rightarrow> nat list \<Rightarrow> (nat \<times> nat) option" where
  "repetition_loop tail [] = None"
| "repetition_loop tail (period # periods) =
     (if period * 3 > length tail then None
      else
        let width = matched_run tail period + period
        in if width \<ge> REPEAT_MIN_BYTES \<and> width \<ge> period * 3 then Some (period, width)
           else repetition_loop tail periods)"

definition record_repetition :: "string \<Rightarrow> output_tally \<Rightarrow> output_tally" where
  "record_repetition tail tally =
     (case repetition_loop tail [1..<REPEAT_MAX_PERIOD + 1] of
        None \<Rightarrow> tally\<lparr>repeat_period := None, repeat_bytes := None\<rparr>
      | Some (period, width) \<Rightarrow>
          tally\<lparr>repeat_period := try_u16 period, repeat_bytes := try_u16 width\<rparr>)"

record attempt =
  att_target :: target_id
  att_sequence :: nat
  att_first_byte_millis :: "nat option"
  att_total_millis :: nat
  att_outcome :: attempt_outcome
  att_upstream_status :: "nat option"
  att_provider_code :: "string option"
  att_output :: output_tally

fun count_runs :: "(exclusion_reason \<times> nat) list \<Rightarrow> exclusion_reason list \<Rightarrow> (exclusion_reason \<times> nat) list" where
  "count_runs out [] = out"
| "count_runs out (r # rs) =
     (if out \<noteq> [] \<and> fst (last out) = r
      then count_runs (butlast out @ [(r, snd (last out) + 1)]) rs
      else count_runs (out @ [(r, 1)]) rs)"

definition exclusion_summary :: "exclusion list \<Rightarrow> (exclusion_reason \<times> nat) list" where
  "exclusion_summary exclusions = count_runs [] (sort (map excl_reason exclusions))"

section \<open>Rank dominates every optimisation term\<close>

lemmas score_limits = RANK_UNIT_def MAX_RANK_def int_limits

lemma rank_term_bounds: "0 \<le> rank_term r" "rank_term r \<le> MAX_RANK * RANK_UNIT"
  by (simp_all add: rank_term_def score_limits)

lemma rank_term_step:
  "r < r' \<Longrightarrow> int r < MAX_RANK \<Longrightarrow> rank_term r' + RANK_UNIT \<le> rank_term r"
  by (auto simp: rank_term_def score_limits)

definition non_rank_sum :: "score_terms \<Rightarrow> int" where
  "non_rank_sum t =
     policy_weight t + health t + latency t + queue t + cost t + locality t + affinity t + jitter t"

lemma clamped_priority_rank: "priority_rank t = rank_term r \<Longrightarrow> priority_rank (clamped t) = rank_term r"
  using rank_term_bounds [of r] by (simp add: clamped_def clamp_i_id)

lemma clamped_ranges:
  "priority_rank (clamped t) \<in> {0..64000000}" "policy_weight (clamped t) \<in> {-100000..100000}"
  "health (clamped t) \<in> {-50000..0}" "latency (clamped t) \<in> {-50000..0}" "queue (clamped t) \<in> {-50000..0}"
  "cost (clamped t) \<in> {-50000..0}" "locality (clamped t) \<in> {0..50000}" "affinity (clamped t) \<in> {0..50000}"
  "jitter (clamped t) \<in> {0..999}"
  by (simp_all add: clamped_def score_limits)

text \<open>Within the published ranges no intermediate sum saturates.\<close>

lemma clamped_total: "terms_total (clamped t) = priority_rank (clamped t) + non_rank_sum (clamped t)"
proof -
  note r = clamped_ranges [of t, unfolded atLeastAtMost_iff]
  let ?t = "clamped t"
  have step: "sat_addi a b = a + b" if "- 100000000 \<le> a + b" "a + b \<le> 100000000" for a b
    using that by (auto intro!: sat_addi_id simp: int_limits)
  have "sat_addi (priority_rank ?t) (policy_weight ?t) = priority_rank ?t + policy_weight ?t" (is "_ = ?s1")
    using r by (intro step) linarith+
  moreover have "sat_addi ?s1 (health ?t) = ?s1 + health ?t" (is "_ = ?s2")
    using r by (intro step) linarith+
  moreover have "sat_addi ?s2 (latency ?t) = ?s2 + latency ?t" (is "_ = ?s3")
    using r by (intro step) linarith+
  moreover have "sat_addi ?s3 (queue ?t) = ?s3 + queue ?t" (is "_ = ?s4")
    using r by (intro step) linarith+
  moreover have "sat_addi ?s4 (cost ?t) = ?s4 + cost ?t" (is "_ = ?s5")
    using r by (intro step) linarith+
  moreover have "sat_addi ?s5 (locality ?t) = ?s5 + locality ?t" (is "_ = ?s6")
    using r by (intro step) linarith+
  moreover have "sat_addi ?s6 (affinity ?t) = ?s6 + affinity ?t" (is "_ = ?s7")
    using r by (intro step) linarith+
  moreover have "sat_addi ?s7 (jitter ?t) = ?s7 + jitter ?t"
    using r by (intro step) linarith+
  ultimately show ?thesis by (simp only: terms_total_def non_rank_sum_def add.assoc)
qed

lemma non_rank_sum_bounds: "- 300000 \<le> non_rank_sum (clamped t)" "non_rank_sum (clamped t) \<le> 200999"
  using clamped_ranges [of t, unfolded atLeastAtMost_iff] unfolding non_rank_sum_def by linarith+

lemma rank_beats_total:
  assumes "priority_rank a = rank_term r" "priority_rank b = rank_term r'" "r < r'" "int r < MAX_RANK"
  shows "terms_total (clamped b) < terms_total (clamped a)"
proof -
  note rank_term_step [OF assms(3,4)]
  moreover have "terms_total (clamped a) = rank_term r + non_rank_sum (clamped a)"
    "terms_total (clamped b) = rank_term r' + non_rank_sum (clamped b)"
    using clamped_total clamped_priority_rank assms(1,2) by simp_all
  ultimately show ?thesis
    using non_rank_sum_bounds [of a] non_rank_sum_bounds [of b] by (simp add: RANK_UNIT_def)
qed

lemma non_rank_total_bound: "\<bar>non_rank_total (clamped a)\<bar> \<le> MAX_NON_RANK_MAGNITUDE"
  using non_rank_sum_bounds [of a] clamped_total [of a]
  by (simp add: non_rank_total_def sat_subi_def sat_i64_def int_limits MAX_NON_RANK_MAGNITUDE_def)

text \<open>
  A better preference rank beats every combination of the other score terms. For two clamped score
  vectors with ranks below the cap, the one with the smaller rank has the strictly larger total, and
  the non-rank part always stays below one rank unit.
\<close>

theorem rank_dominates:
  assumes "priority_rank a = rank_term r" "priority_rank b = rank_term r'"
    and "r < r'" "int r < MAX_RANK"
  shows "terms_total (clamped b) < terms_total (clamped a) \<and>
    \<bar>non_rank_total (clamped a)\<bar> \<le> MAX_NON_RANK_MAGNITUDE \<and> MAX_NON_RANK_MAGNITUDE < RANK_UNIT"
  using rank_beats_total [OF assms] non_rank_total_bound [of a]
  by (simp add: MAX_NON_RANK_MAGNITUDE_def RANK_UNIT_def)

abbreviation sample_terms :: "nat \<Rightarrow> int \<Rightarrow> score_terms" where
  "sample_terms r w \<equiv>
     \<lparr>priority_rank = rank_term r, policy_weight = w, health = w, latency = w, queue = w, cost = w,
      locality = w, affinity = w, jitter = w\<rparr>"

theorem rank_dominates_witness:
  "terms_total (clamped (sample_terms 1 999999999)) < terms_total (clamped (sample_terms 0 (- 999999999)))"
proof -
  have "int 0 < MAX_RANK" by (simp add: MAX_RANK_def)
  from rank_dominates [of "sample_terms 0 (- 999999999)" 0 "sample_terms 1 999999999" 1, OF _ _ _ this]
  show ?thesis by simp
qed

section \<open>The warmth ladder\<close>

lemma warmth_rung_bounds: "0 \<le> warmth_rung c" "warmth_rung c \<le> 5"
  by (cases c; simp)+

lemma warmth_bonus_eq: "warmth_bonus c = 8000 * warmth_rung c"
  using warmth_rung_bounds [of c] by (simp add: warmth_bonus_def WARMTH_LADDER_STEP_def sat_i64_def int_limits)

text \<open>
  The warmth slice fits its budget, adjacent ready classes are one full ladder step apart, and a
  client hint alone never lifts a colder class to a warmer one: the warmer class keeps the larger
  affinity even when only the colder target carries the hint.
\<close>

theorem hint_cannot_beat_warmth:
  "0 \<le> warmth_bonus c \<and> warmth_bonus c \<le> WARMTH_SLICE \<and>
   (warmth_rung cold < warmth_rung warm \<longrightarrow>
      warmth_bonus cold + HINT_SLICE < warmth_bonus warm \<and>
      warmth_bonus cold + WARMTH_LADDER_STEP \<le> warmth_bonus warm) \<and>
   WARMTH_SLICE + HINT_SLICE + CONVERSATION_SLICE = 50000"
  using warmth_rung_bounds [of c]
  by (simp add: warmth_bonus_eq WARMTH_SLICE_def HINT_SLICE_def WARMTH_LADDER_STEP_def CONVERSATION_SLICE_def)

theorem hint_cannot_beat_warmth_witness:
  "warmth_bonus ResidentBusy + HINT_SLICE < warmth_bonus Resident"
proof -
  have "warmth_rung ResidentBusy < warmth_rung Resident" by simp
  with hint_cannot_beat_warmth [of Resident ResidentBusy Resident] show ?thesis by blast
qed

text \<open>
  The two smaller slices together exceed a ladder step, so a hint and conversation affinity held by
  the same colder target do outweigh one rung of warmth.
\<close>

lemma hint_with_affinity_beats_one_rung:
  "warmth_rung cold + 1 = warmth_rung warm \<Longrightarrow>
   warmth_bonus warm < warmth_bonus cold + HINT_SLICE + CONVERSATION_SLICE"
  by (simp add: warmth_bonus_eq HINT_SLICE_def CONVERSATION_SLICE_def)

section \<open>Repetition detection\<close>

lemma matched_run_spec:
  assumes "p \<le> length tail"
  shows "matched_run tail p \<le> length tail - p"
    "\<forall>i. length tail - matched_run tail p \<le> i \<and> i < length tail \<longrightarrow> tail ! i = tail ! (i - p)"
proof -
  let ?idx = "rev [p..<length tail]"
  let ?P = "\<lambda>i. tail ! i = tail ! (i - p)"
  show le: "matched_run tail p \<le> length tail - p"
    using length_takeWhile_le [of ?P ?idx] by (simp add: matched_run_def)
  show "\<forall>i. length tail - matched_run tail p \<le> i \<and> i < length tail \<longrightarrow> tail ! i = tail ! (i - p)"
  proof (intro allI impI)
    fix i assume i: "length tail - matched_run tail p \<le> i \<and> i < length tail"
    define k where "k = length tail - Suc i"
    have k: "k < matched_run tail p" using i le unfolding k_def by arith
    then have "takeWhile ?P ?idx ! k = ?idx ! k" by (simp add: takeWhile_nth matched_run_def)
    moreover have "?idx ! k = i" using i k le by (simp add: rev_nth k_def)
    moreover have "takeWhile ?P ?idx ! k \<in> set (takeWhile ?P ?idx)" using k by (simp add: matched_run_def)
    ultimately show "tail ! i = tail ! (i - p)" by (metis (mono_tags, lifting) set_takeWhileD)
  qed
qed

lemma repetition_loop_Some:
  assumes "repetition_loop tail ps = Some (p, w)"
  shows "p \<in> set ps \<and> 3 * p \<le> w \<and> REPEAT_MIN_BYTES \<le> w \<and> w = matched_run tail p + p \<and> 3 * p \<le> length tail"
  using assms
  by (induction tail ps rule: repetition_loop.induct) (auto simp: Let_def split: if_splits)

text \<open>
  A reported repetition is real: the last \<open>w\<close> bytes of the tail repeat one unit of \<open>p\<close> bytes, at
  least three times and over at least 128 bytes.
\<close>

theorem record_repetition_sound:
  assumes "repeat_period (record_repetition tail tally) = Some p"
    and "repeat_bytes (record_repetition tail tally) = Some w"
  shows "1 \<le> p \<and> p \<le> 512 \<and> 3 * p \<le> w \<and> 128 \<le> w \<and> w \<le> length tail \<and>
    (\<forall>i. length tail - w + p \<le> i \<and> i < length tail \<longrightarrow> tail ! i = tail ! (i - p))"
proof -
  from assms have loop: "repetition_loop tail [1..<REPEAT_MAX_PERIOD + 1] = Some (p, w)"
    by (auto simp: record_repetition_def try_u16_def split: option.splits if_splits)
  note found = repetition_loop_Some [OF loop]
  then have p: "1 \<le> p" "p \<le> 512" "p \<le> length tail" by (auto simp: REPEAT_MAX_PERIOD_def)
  note run = matched_run_spec [OF p(3)]
  with found p have "w \<le> length tail" by linarith
  moreover have "length tail - w + p = length tail - matched_run tail p"
    using found run(1) p(3) by linarith
  ultimately show ?thesis using found run(2) p by (simp add: REPEAT_MIN_BYTES_def)
qed

theorem record_repetition_sound_witness:
  "\<exists>tally. repeat_period (record_repetition (replicate 200 CHR ''x'') tally) = Some 1 \<and>
     repeat_bytes (record_repetition (replicate 200 CHR ''x'') tally) = Some 200"
proof -
  let ?t = "replicate 200 CHR ''x''"
  let ?tally = "\<lparr>tally_deltas = 0, tally_text_bytes = 0, tally_reasoning_bytes = 0,
    tally_tool_argument_bytes = 0, tally_tool_calls = 0, repeat_period = None, repeat_bytes = None\<rparr>"
  have "matched_run ?t 1 = 199"
  proof -
    have eq: "takeWhile (\<lambda>i. ?t ! i = ?t ! (i - 1)) (rev [1..<200]) = rev [1..<200]"
      by (rule takeWhile_eq_all_conv [THEN iffD2]) auto
    show ?thesis unfolding matched_run_def length_replicate eq by simp
  qed
  then have "repetition_loop ?t (1 # [2..<REPEAT_MAX_PERIOD + 1]) = Some (1, 200)"
    by (simp add: REPEAT_MIN_BYTES_def)
  moreover have "[1..<REPEAT_MAX_PERIOD + 1] = 1 # [2..<REPEAT_MAX_PERIOD + 1]"
    using upt_conv_Cons [of 1 "REPEAT_MAX_PERIOD + 1"]
    by (simp only: REPEAT_MAX_PERIOD_def) (simp add: numeral_2_eq_2 del: upt_Suc)
  ultimately have "repeat_period (record_repetition ?t ?tally) = Some 1 \<and>
      repeat_bytes (record_repetition ?t ?tally) = Some 200"
    by (simp add: record_repetition_def try_u16_def u16_max_def)
  moreover from this record_repetition_sound [of ?t ?tally 1 200]
  have "200 \<le> length ?t" by blast
  ultimately show ?thesis by blast
qed

section \<open>The exclusion summary counts every exclusion\<close>

definition expand_runs :: "(exclusion_reason \<times> nat) list \<Rightarrow> exclusion_reason list" where
  "expand_runs out = concat (map (\<lambda>(r, n). replicate n r) out)"

lemma replicate_snoc: "replicate n x @ [x] = x # replicate n x"
  by (induction n) auto

lemma count_runs_expand: "expand_runs (count_runs out rs) = expand_runs out @ rs"
proof (induction out rs rule: count_runs.induct)
  case (2 out r rs)
  show ?case
  proof (cases "out \<noteq> [] \<and> fst (last out) = r")
    case True
    then obtain ys n where "out = ys @ [(r, n)]" by (cases out rule: rev_cases) auto
    with 2(1) [OF True] show ?thesis by (simp add: expand_runs_def replicate_snoc)
  next
    case False
    with 2(2) [OF False] show ?thesis by (auto simp: expand_runs_def)
  qed
qed simp

lemma count_runs_strict:
  assumes "sorted_wrt (<) (map fst out)" "sorted rs" "\<And>x r. x \<in> set out \<Longrightarrow> r \<in> set rs \<Longrightarrow> fst x \<le> r"
  shows "sorted_wrt (<) (map fst (count_runs out rs))"
  using assms
proof (induction out rs rule: count_runs.induct)
  case (2 out r rs)
  show ?case
  proof (cases "out \<noteq> [] \<and> fst (last out) = r")
    case True
    then obtain ys n where out: "out = ys @ [(r, n)]" by (cases out rule: rev_cases) auto
    then have "count_runs out (r # rs) = count_runs (ys @ [(r, n + 1)]) rs" by simp
    moreover have "sorted_wrt (<) (map fst (count_runs (butlast out @ [(r, snd (last out) + 1)]) rs))"
      using 2(3-5) out by (intro 2(1) [OF True]) (auto simp: sorted_wrt_append)
    ultimately show ?thesis using out by simp
  next
    case False
    have "fst x < r" if x: "x \<in> set out" for x
    proof (cases out rule: rev_cases)
      case (snoc ys y)
      with False have "fst y \<noteq> r" by simp
      moreover have "fst y \<le> r" using 2(5) [of y r] snoc by simp
      ultimately have "fst y < r" by simp
      moreover have "x \<in> set ys \<Longrightarrow> fst x < fst y" using 2(3) snoc by (auto simp: sorted_wrt_append)
      ultimately show ?thesis using x snoc by auto
    qed (use x in simp)
    then have "sorted_wrt (<) (map fst (count_runs (out @ [(r, 1)]) rs))"
      using 2(3-5) by (intro 2(2) [OF False]) (auto simp: sorted_wrt_append)
    with False show ?thesis by auto
  qed
qed simp

text \<open>
  The exclusion summary is the run-length encoding of the sorted reasons: each reason appears once,
  in order, with exactly the number of targets it excluded.
\<close>

theorem exclusion_summary_correct:
  "expand_runs (exclusion_summary es) = sort (map excl_reason es) \<and>
   sorted_wrt (<) (map fst (exclusion_summary es))"
  using count_runs_expand [of "[]" "sort (map excl_reason es)"]
    count_runs_strict [of "[]" "sort (map excl_reason es)"]
  by (simp add: exclusion_summary_def expand_runs_def)

end
