(* ===== verification/Access.thy ===== *)
theory Access
  imports Decision
begin

text \<open>
  Who may use what: the scopes and selectors of policy (\<open>hypellm-core/src/policy.rs\<close>), per-key
  restrictions (\<open>key_restriction.rs\<close>), fleet grants (\<open>fleet_access.rs\<close>), and the resolution rule
  both grant families share, stated once as a locale: the best level decides and a deny wins a tie.
\<close>

section \<open>Scopes, selectors and the routing context\<close>

datatype binding_scope =
  Principal principal_id | Group group_id | Tenant tenant_id | Global

datatype model_selector = ModelExact alias_id | ModelPrefix string | ModelAny

definition starts_with :: "string \<Rightarrow> string \<Rightarrow> bool" where
  "starts_with s p = (take (length p) s = p)"

fun model_matches :: "model_selector \<Rightarrow> alias_id \<Rightarrow> bool" where
  "model_matches (ModelExact a) al = (a = al)"
| "model_matches (ModelPrefix p) al = starts_with al p"
| "model_matches ModelAny al = True"

fun model_is_exact :: "model_selector \<Rightarrow> bool" where
  "model_is_exact (ModelExact _) = True"
| "model_is_exact _ = False"

text \<open>The admission priority class (\<open>admission.rs\<close>); the derived order is the declaration order.\<close>

datatype priority_class = Interactive | Standard | Batch

fun priority_ord :: "priority_class \<Rightarrow> nat" where
  "priority_ord Interactive = 0"
| "priority_ord Standard = 1"
| "priority_ord Batch = 2"

lemma priority_ord_inj: "priority_ord a = priority_ord b \<Longrightarrow> a = b"
  by (cases a; cases b) simp_all

instantiation priority_class :: linorder
begin
definition less_eq_priority_class :: "priority_class \<Rightarrow> priority_class \<Rightarrow> bool" where
  "less_eq_priority_class a b = (priority_ord a \<le> priority_ord b)"
definition less_priority_class :: "priority_class \<Rightarrow> priority_class \<Rightarrow> bool" where
  "less_priority_class a b = (priority_ord a < priority_ord b)"
instance
  by standard (auto simp: less_eq_priority_class_def less_priority_class_def intro: priority_ord_inj)
end

fun priority_as_str :: "priority_class \<Rightarrow> string" where
  "priority_as_str Interactive = ''interactive''"
| "priority_as_str Standard = ''standard''"
| "priority_as_str Batch = ''batch''"

definition priority_parse :: "string \<Rightarrow> priority_class option" where
  "priority_parse s =
     (if s = ''interactive'' then Some Interactive
      else if s = ''standard'' then Some Standard
      else if s = ''batch'' then Some Batch
      else None)"

record key_restriction =
  kr_models :: "alias_id set option"
  kr_targets :: "target_id set option"
  kr_hosts :: "host_id set option"
  kr_priority :: "priority_class option"

definition is_unrestricted :: "key_restriction \<Rightarrow> bool" where
  "is_unrestricted k =
     (kr_models k = None \<and> kr_targets k = None \<and> kr_hosts k = None \<and> kr_priority k = None)"

definition permits_alias :: "key_restriction \<Rightarrow> alias_id \<Rightarrow> bool" where
  "permits_alias k a = is_none_or (\<lambda>s. a \<in> s) (kr_models k)"

definition permits_target :: "key_restriction \<Rightarrow> target_id \<Rightarrow> bool" where
  "permits_target k t = is_none_or (\<lambda>s. t \<in> s) (kr_targets k)"

definition permits_host :: "key_restriction \<Rightarrow> host_id \<Rightarrow> bool" where
  "permits_host k h = is_none_or (\<lambda>s. h \<in> s) (kr_hosts k)"

definition cap_priority :: "key_restriction \<Rightarrow> priority_class \<Rightarrow> priority_class" where
  "cap_priority k principal_class =
     (case kr_priority k of None \<Rightarrow> principal_class | Some key \<Rightarrow> max key principal_class)"

record routing_context =
  ctx_principal :: principal_id
  ctx_groups :: "group_id list"
  ctx_tenant :: tenant_id
  ctx_attempted :: "target_id list"
  ctx_now_millis :: nat
  ctx_key :: "key_restriction option"

definition remaining_ms :: "routing_context \<Rightarrow> deadline \<Rightarrow> nat" where
  "remaining_ms ctx d = d - ctx_now_millis ctx"

section \<open>Best level wins, deny wins a tie\<close>

text \<open>One iteration of the resolution loops: the best level so far with its verdict.\<close>

definition resolve_step :: "('l::linorder \<times> bool) option \<Rightarrow> 'l \<Rightarrow> bool \<Rightarrow> ('l \<times> bool) option" where
  "resolve_step best level allow =
     Some (case best of
        None \<Rightarrow> (level, allow)
      | Some (best_level, best_allow) \<Rightarrow>
          if level < best_level then (level, allow)
          else if level = best_level then (best_level, best_allow \<and> allow)
          else (best_level, best_allow))"

text \<open>
  The contract of a resolution loop over rules: \<open>lvl\<close> gives the level at which a rule applies (if
  at all), \<open>ok\<close> whether it permits, and \<open>run\<close> is the loop.
\<close>

locale grant_resolution =
  fixes lvl :: "'r \<Rightarrow> 'l::linorder option"
    and ok :: "'r \<Rightarrow> bool"
    and run :: "('l \<times> bool) option \<Rightarrow> 'r list \<Rightarrow> ('l \<times> bool) option"
  assumes run_Nil: "run best [] = best"
    and run_Cons: "run best (r # rs) =
      run (case lvl r of None \<Rightarrow> best | Some l \<Rightarrow> resolve_step best l (ok r)) rs"
begin

definition applicable :: "'r list \<Rightarrow> 'l set" where
  "applicable rs = {l. \<exists>r \<in> set rs. lvl r = Some l}"

lemma applicable_simps:
  "applicable [] = {}"
  "applicable (r # rs) = (case lvl r of None \<Rightarrow> {} | Some l \<Rightarrow> {l}) \<union> applicable rs"
  by (auto simp: applicable_def split: option.splits)

lemma finite_applicable: "finite (applicable rs)"
  by (induction rs) (auto simp: applicable_simps split: option.splits)

text \<open>The verdict of a set of rules at a level: every rule at that level permits.\<close>

definition unanimous :: "'l \<Rightarrow> 'r list \<Rightarrow> bool" where
  "unanimous l rs = (\<forall>r \<in> set rs. lvl r = Some l \<longrightarrow> ok r)"

lemma run_Some:
  "run (Some (b, v)) rs =
     (let m = Min (insert b (applicable rs))
      in Some (m, (m = b \<longrightarrow> v) \<and> unanimous m rs))"
proof (induction rs arbitrary: b v)
  case Nil
  then show ?case by (simp add: run_Nil applicable_simps unanimous_def)
next
  case (Cons r rs)
  show ?case
  proof (cases "lvl r")
    case None
    then show ?thesis
      by (simp add: run_Cons Cons.IH applicable_simps unanimous_def Let_def)
  next
    case (Some l)
    let ?m = "Min (insert b (applicable (r # rs)))"
    have app: "insert b (applicable (r # rs)) = insert b (insert l (applicable rs))"
      by (auto simp: applicable_simps Some)
    have fin: "finite (insert x (applicable rs))" for x using finite_applicable by simp
    consider "l < b" | "l = b" | "b < l" by (rule linorder_cases)
    then show ?thesis
    proof cases
      case 1
      have m: "?m = Min (insert l (applicable rs))"
        unfolding app using 1 by (subst Min_insert) (use fin Min_le [OF fin, of l l] in \<open>auto simp: min_def\<close>)
      have "?m \<le> l" unfolding m using fin by simp
      with 1 have "?m \<noteq> b" by auto
      with 1 Some m show ?thesis
        by (auto simp: run_Cons resolve_step_def Cons.IH Let_def unanimous_def)
    next
      case 2
      with Some have "?m = Min (insert b (applicable rs))" unfolding app by simp
      with 2 Some show ?thesis
        by (auto simp: run_Cons resolve_step_def Cons.IH Let_def unanimous_def)
    next
      case 3
      have m: "?m = Min (insert b (applicable rs))"
        unfolding app insert_commute [of b l] using 3
        by (subst Min_insert) (use fin Min_le [OF fin, of b b] in \<open>auto simp: min_def\<close>)
      have "?m \<le> b" unfolding m using fin by simp
      with 3 have "?m \<noteq> l" by auto
      with 3 Some m show ?thesis
        by (auto simp: run_Cons resolve_step_def Cons.IH Let_def unanimous_def)
    qed
  qed
qed

text \<open>The loop computes the strongest applicable level and whether it is unanimous.\<close>

theorem run_None:
  "run None rs =
     (if applicable rs = {} then None
      else Some (Min (applicable rs), unanimous (Min (applicable rs)) rs))"
proof (induction rs)
  case Nil
  then show ?case by (simp add: run_Nil applicable_simps)
next
  case (Cons r rs)
  show ?case
  proof (cases "lvl r")
    case None
    with Cons show ?thesis by (simp add: run_Cons applicable_simps unanimous_def)
  next
    case (Some l)
    then have "run None (r # rs) = run (Some (l, ok r)) rs"
      by (simp add: run_Cons resolve_step_def)
    with Some show ?thesis
      by (auto simp: run_Some applicable_simps unanimous_def Let_def)
  qed
qed

lemma run_perm: "set rs = set rs' \<Longrightarrow> run None rs = run None rs'"
  by (simp add: run_None applicable_def unanimous_def)

lemma run_deny_sticky:
  assumes "r \<in> set rs" "lvl r = Some l" "\<not> ok r" "\<And>r' l'. r' \<in> set rs \<Longrightarrow> lvl r' = Some l' \<Longrightarrow> l \<le> l'"
  shows "run None rs = Some (l, False)"
proof -
  have "Min (applicable rs) = l"
    using assms finite_applicable by (intro Min_eqI) (auto simp: applicable_def)
  moreover have "applicable rs \<noteq> {}" using assms(1,2) by (auto simp: applicable_def)
  moreover have "\<not> unanimous l rs" using assms(1-3) by (auto simp: unanimous_def)
  ultimately show ?thesis by (simp add: run_None)
qed

lemma run_allows_iff:
  "is_some_and snd (run None rs) \<longleftrightarrow>
     (\<exists>r \<in> set rs. \<exists>l. lvl r = Some l \<and> ok r \<and>
        (\<forall>r' \<in> set rs. \<forall>l'. lvl r' = Some l' \<longrightarrow> l < l' \<or> l = l' \<and> ok r'))"
proof (cases "applicable rs = {}")
  case True
  then show ?thesis by (auto simp: run_None applicable_def)
next
  case False
  define m where "m = Min (applicable rs)"
  have m_in: "m \<in> applicable rs" using False finite_applicable by (simp add: m_def)
  have m_le: "\<And>l. l \<in> applicable rs \<Longrightarrow> m \<le> l" using finite_applicable by (simp add: m_def)
  show ?thesis (is "?L \<longleftrightarrow> ?R")
  proof
    assume ?L
    then have "unanimous m rs" using False by (simp add: run_None m_def)
    with m_in m_le show ?R unfolding unanimous_def applicable_def by (auto; metis order_le_less)
  next
    assume ?R
    then obtain r l where r: "r \<in> set rs" "lvl r = Some l"
      and best: "\<forall>r' \<in> set rs. \<forall>l'. lvl r' = Some l' \<longrightarrow> l < l' \<or> l = l' \<and> ok r'" by blast
    have "m = l"
    proof (rule antisym)
      show "m \<le> l" using r by (intro m_le) (auto simp: applicable_def)
      obtain r' where "r' \<in> set rs" "lvl r' = Some m" using m_in by (auto simp: applicable_def)
      with best show "l \<le> m" by (auto simp: order_le_less)
    qed
    moreover have "unanimous l rs" using best unfolding unanimous_def by blast
    ultimately show ?L using False by (simp add: run_None m_def)
  qed
qed

end

section \<open>Fleet grants\<close>

datatype fleet_access_default = FleetAllow | FleetDeny

definition fleet_default_parse :: "string \<Rightarrow> fleet_access_default option" where
  "fleet_default_parse raw =
     (if raw = ''allow'' then Some FleetAllow else if raw = ''deny'' then Some FleetDeny else None)"

fun fleet_default_as_str :: "fleet_access_default \<Rightarrow> string" where
  "fleet_default_as_str FleetAllow = ''allow''"
| "fleet_default_as_str FleetDeny = ''deny''"

definition fleet_default_allows :: "fleet_access_default \<Rightarrow> bool" where
  "fleet_default_allows d = (d = FleetAllow)"

datatype host_selector = HostExact host_id | HostAny

fun host_matches :: "host_selector \<Rightarrow> host_id \<Rightarrow> bool" where
  "host_matches (HostExact h) host = (h = host)"
| "host_matches HostAny host = True"

datatype fleet_model_selector = FleetAlias model_selector | FleetTarget target_id

fun fleet_model_matches :: "fleet_model_selector \<Rightarrow> alias_id \<Rightarrow> target_id \<Rightarrow> bool" where
  "fleet_model_matches (FleetAlias sel) al t = model_matches sel al"
| "fleet_model_matches (FleetTarget t') al t = (t' = t)"

fun fleet_model_specificity :: "fleet_model_selector \<Rightarrow> nat" where
  "fleet_model_specificity (FleetTarget _) = 3"
| "fleet_model_specificity (FleetAlias (ModelExact _)) = 2"
| "fleet_model_specificity (FleetAlias (ModelPrefix _)) = 1"
| "fleet_model_specificity (FleetAlias ModelAny) = 0"

record fleet_grant =
  fg_id :: binding_id
  fg_scope :: binding_scope
  fg_host :: host_selector
  fg_model :: fleet_model_selector
  fg_allow :: bool

fun fleet_scope_level :: "routing_context \<Rightarrow> binding_scope \<Rightarrow> nat option" where
  "fleet_scope_level ctx (Principal p) = (if p = ctx_principal ctx then Some 0 else None)"
| "fleet_scope_level ctx (Group g) = (if g \<in> set (ctx_groups ctx) then Some 1 else None)"
| "fleet_scope_level ctx (Tenant t) = (if t = ctx_tenant ctx then Some 2 else None)"
| "fleet_scope_level ctx Global = Some 3"

fun host_specificity :: "host_selector \<Rightarrow> nat" where
  "host_specificity (HostExact _) = 4"
| "host_specificity HostAny = 0"

definition fleet_grant_level ::
  "routing_context \<Rightarrow> alias_id \<Rightarrow> target_id \<Rightarrow> host_id \<Rightarrow> fleet_grant \<Rightarrow> nat option" where
  "fleet_grant_level ctx al t host g =
     (if \<not> host_matches (fg_host g) host \<or> \<not> fleet_model_matches (fg_model g) al t then None
      else case fleet_scope_level ctx (fg_scope g) of
             None \<Rightarrow> None
           | Some scope \<Rightarrow>
               (let specificity = min (host_specificity (fg_host g) + fleet_model_specificity (fg_model g)) u8_max
                in Some (min (min (scope * 8) u8_max + (7 - specificity)) u8_max)))"

fun fleet_best ::
  "routing_context \<Rightarrow> alias_id \<Rightarrow> target_id \<Rightarrow> host_id \<Rightarrow> (nat \<times> bool) option \<Rightarrow> fleet_grant list
     \<Rightarrow> (nat \<times> bool) option" where
  "fleet_best ctx al t host best [] = best"
| "fleet_best ctx al t host best (g # gs) =
     fleet_best ctx al t host
       (case fleet_grant_level ctx al t host g of
          None \<Rightarrow> best
        | Some level \<Rightarrow> resolve_step best level (fg_allow g)) gs"

definition fleet_permits ::
  "fleet_grant list \<Rightarrow> fleet_access_default \<Rightarrow> routing_context \<Rightarrow> alias_id \<Rightarrow> target_id \<Rightarrow> host_id \<Rightarrow> bool" where
  "fleet_permits grants dflt ctx al t host =
     (case fleet_best ctx al t host None grants of
        None \<Rightarrow> fleet_default_allows dflt
      | Some (_, allow) \<Rightarrow> allow)"

interpretation fleet: grant_resolution "fleet_grant_level ctx al t host" fg_allow "fleet_best ctx al t host"
  for ctx al t host
  by unfold_locales simp_all

lemma fleet_scope_le: "fleet_scope_level ctx s = Some n \<Longrightarrow> n \<le> 3"
  by (cases s) (auto split: if_splits)

lemma host_spec_le: "host_specificity h \<le> 4"
  by (cases h) simp_all

lemma fleet_spec_le: "fleet_model_specificity m \<le> 3"
  by (cases m rule: fleet_model_specificity.cases) simp_all

text \<open>The \<open>u8\<close> saturations of the level never bite: scope is the high digit, specificity the low one.\<close>

lemma fleet_grant_level_eq:
  "fleet_grant_level ctx al t host g = Some l \<longleftrightarrow>
     host_matches (fg_host g) host \<and> fleet_model_matches (fg_model g) al t \<and>
     (\<exists>scope. fleet_scope_level ctx (fg_scope g) = Some scope \<and>
        l = 8 * scope + (7 - (host_specificity (fg_host g) + fleet_model_specificity (fg_model g))))"
  using fleet_scope_le [of ctx "fg_scope g"] host_spec_le [of "fg_host g"] fleet_spec_le [of "fg_model g"]
  by (auto simp: fleet_grant_level_def u8_max_def Let_def split: option.splits)

text \<open>
  Scope dominates specificity in fleet access. If a grant scoped to the caller's principal denies
  a target, no collection of grants scoped to groups, tenants or everyone can re-enable it; only
  another grant of the same principal that is at least as specific could.
\<close>

theorem fleet_principal_deny_sticky:
  assumes g: "g \<in> set grants" "fg_scope g = Principal (ctx_principal ctx)" "\<not> fg_allow g"
    and app: "host_matches (fg_host g) host" "fleet_model_matches (fg_model g) al t"
    and others: "\<forall>g' \<in> set grants. fg_allow g' \<longrightarrow> fg_scope g' \<noteq> Principal (ctx_principal ctx)"
  shows "\<not> fleet_permits grants dflt ctx al t host"
proof
  assume p: "fleet_permits grants dflt ctx al t host"
  have lg: "\<exists>l. fleet_grant_level ctx al t host g = Some l \<and> l < 8"
    using g app by (simp add: fleet_grant_level_eq)
  then have "fleet_best ctx al t host None grants \<noteq> None"
    using g(1) by (auto simp: fleet.run_None fleet.applicable_def)
  with p have "is_some_and snd (fleet_best ctx al t host None grants)"
    by (auto simp: fleet_permits_def split: option.splits)
  then obtain r l where r: "r \<in> set grants" "fleet_grant_level ctx al t host r = Some l" "fg_allow r"
    and best: "\<forall>r' \<in> set grants. \<forall>l'. fleet_grant_level ctx al t host r' = Some l' \<longrightarrow>
       l < l' \<or> l = l' \<and> fg_allow r'"
    unfolding fleet.run_allows_iff by blast
  from best lg g(1,3) have "l < 8" by force
  then have "fleet_scope_level ctx (fg_scope r) = Some 0"
    using r(2) by (auto simp: fleet_grant_level_eq)
  then have "fg_scope r = Principal (ctx_principal ctx)"
    by (cases "fg_scope r") (auto split: if_splits)
  with r(1,3) others show False by blast
qed

theorem fleet_principal_deny_sticky_witness:
  "\<not> fleet_permits
      [\<lparr>fg_id = ''a'', fg_scope = Global, fg_host = HostExact ''h'', fg_model = FleetTarget ''t'', fg_allow = True\<rparr>,
       \<lparr>fg_id = ''b'', fg_scope = Principal ''me'', fg_host = HostAny, fg_model = FleetAlias ModelAny, fg_allow = False\<rparr>]
      FleetAllow
      \<lparr>ctx_principal = ''me'', ctx_groups = [], ctx_tenant = ''t'', ctx_attempted = [], ctx_now_millis = 0,
       ctx_key = None\<rparr> ''x'' ''t'' ''h''"
  by (rule fleet_principal_deny_sticky
      [where g = "\<lparr>fg_id = ''b'', fg_scope = Principal ''me'', fg_host = HostAny,
         fg_model = FleetAlias ModelAny, fg_allow = False\<rparr>"]) simp_all

end
