(* ===== verification/Policy.thy ===== *)
theory Policy
  imports Access
begin

text \<open>
  Routing policy (\<open>hypellm-core/src/policy.rs\<close>): bindings and grants, the merged view of every
  applicable binding, the eligibility filters, scoring, and the routing function itself.
\<close>

section \<open>Bindings and grants\<close>

datatype target_selector = SelExact target_id | SelProvider provider_id | SelAny

fun selector_matches :: "target_selector \<Rightarrow> target \<Rightarrow> bool" where
  "selector_matches (SelExact i) t = (i = tgt_id t)"
| "selector_matches (SelProvider p) t = (p = tgt_provider_id t)"
| "selector_matches SelAny t = True"

fun specificity :: "target_selector \<Rightarrow> int" where
  "specificity (SelExact _) = 3"
| "specificity (SelProvider _) = 2"
| "specificity SelAny = 1"

record target_preference =
  pref_selector :: target_selector
  pref_rank :: nat
  pref_weight :: int

record binding =
  bind_id :: binding_id
  bind_scope :: binding_scope
  bind_model :: model_selector
  bind_preferences :: "target_preference list"
  bind_denies :: "target_selector list"
  bind_allows :: "target_selector list"
  bind_pin :: "target_id option"
  bind_emergency_fallback :: "target_id list"
  bind_priority :: int

definition precedence :: "binding \<Rightarrow> routing_context \<Rightarrow> alias_id \<Rightarrow> nat option" where
  "precedence b ctx al =
     (if \<not> model_matches (bind_model b) al then None
      else
        let exact = model_is_exact (bind_model b)
        in case bind_scope b of
             Principal p \<Rightarrow> if p = ctx_principal ctx then Some (if exact then 1 else 2) else None
           | Group g \<Rightarrow> if g \<in> set (ctx_groups ctx) then Some (if exact then 3 else 4) else None
           | Tenant t \<Rightarrow> if t = ctx_tenant ctx then Some (if exact then 5 else 6) else None
           | Global \<Rightarrow> Some 7)"

record alias_grant =
  ag_scope :: binding_scope
  ag_model :: model_selector
  ag_operations :: "operation list"
  ag_allow :: bool

definition grant_precedence :: "alias_grant \<Rightarrow> routing_context \<Rightarrow> alias_id \<Rightarrow> nat option" where
  "grant_precedence g ctx al =
     (if \<not> model_matches (ag_model g) al then None
      else
        let exact = model_is_exact (ag_model g)
        in case ag_scope g of
             Principal p \<Rightarrow> if p = ctx_principal ctx then Some (if exact then 1 else 2) else None
           | Group gr \<Rightarrow> if gr \<in> set (ctx_groups ctx) then Some (if exact then 3 else 4) else None
           | Tenant t \<Rightarrow> if t = ctx_tenant ctx then Some (if exact then 5 else 6) else None
           | Global \<Rightarrow> Some 7)"

definition covers :: "alias_grant \<Rightarrow> operation \<Rightarrow> bool" where
  "covers g op = (ag_operations g = [] \<or> op \<in> set (ag_operations g))"

section \<open>Live state, snapshot and outcome\<close>

text \<open>The trait \<open>LiveState\<close> as a record of its (already sampled) answers.\<close>

record live_state =
  circuit_open :: "target_id \<Rightarrow> bool"
  health_penalty :: "target_id \<Rightarrow> int"
  latency_penalty :: "target_id \<Rightarrow> int"
  queue_penalty :: "target_id \<Rightarrow> int"
  affinity_bonus :: "target_id \<Rightarrow> int"
  has_capacity :: "target_id \<Rightarrow> bool"
  admin_override :: "target_id \<Rightarrow> admin_state option"
  probe_unreachable :: "target_id \<Rightarrow> bool"
  failure_percent :: "target_id \<Rightarrow> nat"
  residency_class_of :: "target_id \<Rightarrow> residency_class"
  activation_eta_ms :: "target_id \<Rightarrow> nat"
  fleet_observation_age_ms :: "nat option"

definition ideal_live_state :: live_state where
  "ideal_live_state =
     \<lparr>circuit_open = (\<lambda>_. False), health_penalty = (\<lambda>_. 0), latency_penalty = (\<lambda>_. 0),
      queue_penalty = (\<lambda>_. 0), affinity_bonus = (\<lambda>_. 0), has_capacity = (\<lambda>_. True),
      admin_override = (\<lambda>_. None), probe_unreachable = (\<lambda>_. False), failure_percent = (\<lambda>_. 0),
      residency_class_of = (\<lambda>_. Unmanaged), activation_eta_ms = (\<lambda>_. 0),
      fleet_observation_age_ms = None\<rparr>"

record route_outcome =
  ro_candidates :: "candidate list"
  ro_exclusions :: "exclusion list"
  ro_pinned :: bool

definition ro_best :: "route_outcome \<Rightarrow> candidate option" where
  "ro_best o' = (case ro_candidates o' of [] \<Rightarrow> None | c # _ \<Rightarrow> Some c)"

record policy_snapshot =
  ps_version :: nat
  ps_digest :: "8 word list"
  ps_providers :: "(provider_id, provider) btree_map"
  ps_targets :: "(target_id, target) btree_map"
  ps_aliases :: "(alias_id, model_alias) btree_map"
  ps_bindings :: "binding list"
  ps_grants :: "alias_grant list"
  ps_global_inheritance :: "tenant_id set"
  ps_allowlisted_targets :: "target_id set"
  ps_weighted_tie_break :: bool
  ps_max_failure_percent :: nat
  ps_default_document_token_estimate :: nat
  ps_activation_effort_headroom_ms :: nat
  ps_fleet_placement :: "(target_id, host_id) btree_map"
  ps_fleet_grants :: "fleet_grant list"
  ps_fleet_access_default :: fleet_access_default

definition snapshot_empty :: policy_snapshot where
  "snapshot_empty =
     \<lparr>ps_version = 0, ps_digest = replicate 32 0, ps_providers = [], ps_targets = [], ps_aliases = [],
      ps_bindings = [], ps_grants = [], ps_global_inheritance = {}, ps_allowlisted_targets = {},
      ps_weighted_tie_break = False, ps_max_failure_percent = 100,
      ps_default_document_token_estimate = DEFAULT_DOCUMENT_TOKEN_ESTIMATE,
      ps_activation_effort_headroom_ms = 5000, ps_fleet_placement = [], ps_fleet_grants = [],
      ps_fleet_access_default = FleetAllow\<rparr>"

definition fleet_access_permits ::
  "policy_snapshot \<Rightarrow> routing_context \<Rightarrow> alias_id \<Rightarrow> target_id \<Rightarrow> bool" where
  "fleet_access_permits ps ctx al t =
     is_none_or
       (\<lambda>host. is_none_or (\<lambda>key. permits_host key host) (ctx_key ctx) \<and>
               fleet_permits (ps_fleet_grants ps) (ps_fleet_access_default ps) ctx al t host)
       (btree_get (ps_fleet_placement ps) t)"

fun authorizes_best ::
  "policy_snapshot \<Rightarrow> routing_context \<Rightarrow> alias_id \<Rightarrow> operation \<Rightarrow> (nat \<times> bool) option \<Rightarrow> alias_grant list
     \<Rightarrow> (nat \<times> bool) option" where
  "authorizes_best ps ctx al op best [] = best"
| "authorizes_best ps ctx al op best (g # gs) =
     authorizes_best ps ctx al op
       (if \<not> covers g op then best
        else if ag_scope g = Global \<and> ctx_tenant ctx \<notin> ps_global_inheritance ps then best
        else case grant_precedence g ctx al of
               None \<Rightarrow> best
             | Some level \<Rightarrow> resolve_step best level (ag_allow g)) gs"

definition authorizes :: "policy_snapshot \<Rightarrow> routing_context \<Rightarrow> alias_id \<Rightarrow> operation \<Rightarrow> bool" where
  "authorizes ps ctx al op =
     (if is_some_and (\<lambda>key. \<not> permits_alias key al) (ctx_key ctx) then False
      else is_some_and snd (authorizes_best ps ctx al op None (ps_grants ps)))"

definition visible_aliases :: "policy_snapshot \<Rightarrow> routing_context \<Rightarrow> operation \<Rightarrow> model_alias list" where
  "visible_aliases ps ctx op = filter (\<lambda>a. authorizes ps ctx (al_id a) op) (btree_values (ps_aliases ps))"

definition servable_aliases :: "policy_snapshot \<Rightarrow> routing_context \<Rightarrow> operation \<Rightarrow> model_alias list" where
  "servable_aliases ps ctx op =
     filter
       (\<lambda>a. list_ex (\<lambda>t. is_none_or (\<lambda>key. permits_target key t) (ctx_key ctx) \<and>
                         fleet_access_permits ps ctx (al_id a) t) (al_permitted_targets a))
       (visible_aliases ps ctx op)"

section \<open>Merged bindings\<close>

record merged_rule =
  mr_level :: nat
  mr_selector :: target_selector
  mr_deny :: bool
  mr_binding :: binding_id

record merged_preference =
  mp_level :: nat
  mp_selector :: target_selector
  mp_rank :: nat
  mp_weight :: int
  mp_priority :: int
  mp_binding :: binding_id

record merged_bindings =
  mb_rules :: "merged_rule list"
  mb_preferences :: "merged_preference list"
  mb_pin :: "target_id option"
  mb_pin_fallback :: "target_id list"
  mb_pin_level :: "nat option"
  mb_top_level :: "nat option"

definition merged_default :: merged_bindings where
  "merged_default =
     \<lparr>mb_rules = [], mb_preferences = [], mb_pin = None, mb_pin_fallback = [], mb_pin_level = None,
      mb_top_level = None\<rparr>"

definition record_rule ::
  "nat \<Rightarrow> bool \<Rightarrow> binding_id \<Rightarrow> target_selector \<Rightarrow> merged_bindings \<Rightarrow> merged_bindings" where
  "record_rule level deny b sel m =
     m\<lparr>mb_rules := mb_rules m @ [\<lparr>mr_level = level, mr_selector = sel, mr_deny = deny, mr_binding = b\<rparr>]\<rparr>"

definition record_preference ::
  "nat \<Rightarrow> int \<Rightarrow> binding_id \<Rightarrow> target_preference \<Rightarrow> merged_bindings \<Rightarrow> merged_bindings" where
  "record_preference level priority b pref m =
     m\<lparr>mb_preferences := mb_preferences m @
        [\<lparr>mp_level = level, mp_selector = pref_selector pref, mp_rank = pref_rank pref,
          mp_weight = pref_weight pref, mp_priority = priority, mp_binding = b\<rparr>]\<rparr>"

definition applicable_bindings :: "policy_snapshot \<Rightarrow> routing_context \<Rightarrow> alias_id \<Rightarrow> (nat \<times> binding) list" where
  "applicable_bindings ps ctx al =
     sort_key (\<lambda>(level, b). (level, - bind_priority b, bind_id b))
       (List.map_filter (\<lambda>b. map_option (\<lambda>level. (level, b)) (precedence b ctx al))
         (filter (\<lambda>b. bind_scope b \<noteq> Global \<or> ctx_tenant ctx \<in> ps_global_inheritance ps) (ps_bindings ps)))"

definition merge_pin :: "nat \<Rightarrow> binding \<Rightarrow> merged_bindings \<Rightarrow> merged_bindings" where
  "merge_pin level b m =
     (case bind_pin b of
        None \<Rightarrow> m
      | Some pin \<Rightarrow>
          if mb_pin m = None
          then m\<lparr>mb_pin := Some pin, mb_pin_level := Some level,
                 mb_pin_fallback := bind_emergency_fallback b\<rparr>
          else m)"

definition merge_binding :: "nat \<times> binding \<Rightarrow> merged_bindings \<Rightarrow> merged_bindings" where
  "merge_binding lb m =
     (let (level, b) = lb;
          m1 = fold (record_rule level True (bind_id b)) (bind_denies b) m;
          m2 = fold (record_rule level False (bind_id b)) (bind_allows b) m1;
          m3 = fold (record_preference level (bind_priority b) (bind_id b)) (bind_preferences b) m2;
          m4 = merge_pin level b m3
      in if mb_top_level m4 = None then m4\<lparr>mb_top_level := Some level\<rparr> else m4)"

definition merge_bindings :: "policy_snapshot \<Rightarrow> routing_context \<Rightarrow> alias_id \<Rightarrow> merged_bindings" where
  "merge_bindings ps ctx al = fold merge_binding (applicable_bindings ps ctx al) merged_default"

definition denied_step :: "(nat \<times> int \<times> bool) option \<Rightarrow> merged_rule \<Rightarrow> (nat \<times> int \<times> bool) option" where
  "denied_step best rule =
     (let key0 = mr_level rule; key1 = specificity (mr_selector rule)
      in Some (case best of
           None \<Rightarrow> (key0, key1, mr_deny rule)
         | Some (level, spec, deny) \<Rightarrow>
             if key0 < level \<or> key0 = level \<and> spec < key1 then (key0, key1, mr_deny rule)
             else if key0 = level \<and> key1 = spec then (level, spec, deny \<or> mr_deny rule)
             else (level, spec, deny)))"

fun denied_best ::
  "target \<Rightarrow> (nat \<times> int \<times> bool) option \<Rightarrow> merged_rule list \<Rightarrow> (nat \<times> int \<times> bool) option" where
  "denied_best t best [] = best"
| "denied_best t best (rule # rules) =
     denied_best t (if \<not> selector_matches (mr_selector rule) t then best else denied_step best rule) rules"

definition is_denied :: "merged_bindings \<Rightarrow> target \<Rightarrow> bool" where
  "is_denied m t = is_some_and (\<lambda>(_, _, deny). deny) (denied_best t None (mb_rules m))"

definition pref_better :: "merged_preference \<Rightarrow> merged_preference \<Rightarrow> bool" where
  "pref_better p c =
     (mp_level p < mp_level c \<or>
      mp_level p = mp_level c \<and> specificity (mp_selector p) > specificity (mp_selector c) \<or>
      mp_level p = mp_level c \<and> specificity (mp_selector p) = specificity (mp_selector c) \<and>
        mp_priority p > mp_priority c \<or>
      mp_level p = mp_level c \<and> specificity (mp_selector p) = specificity (mp_selector c) \<and>
        mp_priority p = mp_priority c \<and> mp_binding p < mp_binding c)"

fun preference_best ::
  "target \<Rightarrow> merged_preference option \<Rightarrow> merged_preference list \<Rightarrow> merged_preference option" where
  "preference_best t best [] = best"
| "preference_best t best (p # ps) =
     preference_best t
       (if \<not> selector_matches (mp_selector p) t then best
        else Some (case best of None \<Rightarrow> p | Some current \<Rightarrow> if pref_better p current then p else current)) ps"

definition preference_for :: "merged_bindings \<Rightarrow> target \<Rightarrow> merged_preference option" where
  "preference_for m t = preference_best t None (mb_preferences m)"

section \<open>Jitter\<close>

text \<open>FNV-1a over the target id, mixed with the request id by SplitMix64, all in 64-bit words.\<close>

definition fnv_hash :: "string \<Rightarrow> 64 word" where
  "fnv_hash s = foldl (\<lambda>h b. (h XOR of_char b) * 0x100000001b3) 0xcbf29ce484222325 s"

definition jitter_mix :: "64 word \<Rightarrow> 64 word" where
  "jitter_mix z0 =
     (let z1 = (z0 XOR drop_bit 30 z0) * 0xbf58476d1ce4e5b9;
          z2 = (z1 XOR drop_bit 27 z1) * 0x94d049bb133111eb
      in z2 XOR drop_bit 31 z2)"

definition deterministic_jitter :: "request_id \<Rightarrow> target_id \<Rightarrow> int" where
  "deterministic_jitter rid t =
     (let low = ucast (rid AND 0xffffffffffffffff) :: 64 word;
          high = ucast (drop_bit 64 rid) :: 64 word
      in uint (jitter_mix (fnv_hash t XOR low XOR word_rotl 32 high) mod 1000))"

section \<open>Scoring\<close>

definition score ::
  "policy_snapshot \<Rightarrow> canonical_request \<Rightarrow> target \<Rightarrow> nat \<Rightarrow> nat \<Rightarrow> int \<Rightarrow> nat \<Rightarrow> residency_class \<Rightarrow> live_state
     \<Rightarrow> candidate" where
  "score ps req t binding_precedence rank weight pin_rank res live =
     (let cost_penalty = - (int (tgt_cost_class t) * 5000);
          locality_bonus = (if tgt_is_local t then 25000 else 0);
          jit = (if ps_weighted_tie_break ps then deterministic_jitter (req_id req) (tgt_id t) else 0);
          warmth = warmth_bonus res;
          hint_bonus = (if prefer_target (req_hints req) = Some (tgt_id t) then HINT_SLICE else 0);
          aff = sat_addi (sat_addi (clamp_i 0 CONVERSATION_SLICE (affinity_bonus live (tgt_id t))) warmth)
                  hint_bonus
      in \<lparr>cand_target = tgt_id t,
          cand_terms = clamped
            \<lparr>priority_rank = rank_term rank, policy_weight = weight,
             health = health_penalty live (tgt_id t), latency = latency_penalty live (tgt_id t),
             queue = queue_penalty live (tgt_id t), cost = cost_penalty, locality = locality_bonus,
             affinity = aff, jitter = jit\<rparr>,
          cand_binding_precedence = binding_precedence, cand_rank = rank, cand_pin_rank = pin_rank,
          cand_residency = res\<rparr>)"

section \<open>Eligibility filters\<close>

text \<open>
  \<open>evaluate\<close> runs its filters in five commented groups; each group here answers the reason of the
  first filter that fails.
\<close>

definition key_refuses :: "policy_snapshot \<Rightarrow> routing_context \<Rightarrow> target \<Rightarrow> bool" where
  "key_refuses ps ctx t =
     is_some_and
       (\<lambda>key. \<not> permits_target key (tgt_id t) \<or>
              is_some_and (\<lambda>host. \<not> permits_host key host) (btree_get (ps_fleet_placement ps) (tgt_id t)))
       (ctx_key ctx)"

definition pin_excludes :: "merged_bindings \<Rightarrow> target \<Rightarrow> bool" where
  "pin_excludes m t =
     is_some_and (\<lambda>pin. pin \<noteq> tgt_id t \<and> tgt_id t \<notin> set (mb_pin_fallback m)) (mb_pin m)"

definition family_failover_refused ::
  "policy_snapshot \<Rightarrow> routing_context \<Rightarrow> model_alias \<Rightarrow> target \<Rightarrow> provider \<Rightarrow> bool" where
  "family_failover_refused ps ctx al t prov =
     (\<not> al_allow_family_failover al \<and> ctx_attempted ctx \<noteq> [] \<and> tgt_id t \<notin> set (ctx_attempted ctx) \<and>
      is_some_and
        (\<lambda>first. is_some_and (\<lambda>p. prov_family p \<noteq> prov_family prov)
                   (btree_get (ps_providers ps) (tgt_provider_id first)))
        (btree_get (ps_targets ps) (hd (ctx_attempted ctx))))"

definition security_filters ::
  "policy_snapshot \<Rightarrow> routing_context \<Rightarrow> canonical_request \<Rightarrow> model_alias \<Rightarrow> target \<Rightarrow> merged_bindings
     \<Rightarrow> exclusion_reason option" where
  "security_filters ps ctx req al t m =
     (if is_denied m t then Some DeniedByPolicy
      else if key_refuses ps ctx t then Some KeyRestricted
      else if \<not> fleet_access_permits ps ctx (al_id al) (tgt_id t) then Some FleetAccessDenied
      else if pin_excludes m t then Some NotPinnedTarget
      else if tgt_id t \<notin> ps_allowlisted_targets ps then Some EndpointNotAllowlisted
      else case btree_get (ps_providers ps) (tgt_provider_id t) of
             None \<Rightarrow> Some ProviderDisabled
           | Some prov \<Rightarrow>
               if \<not> prov_enabled prov then Some ProviderDisabled
               else if prov_credential_ref prov = None \<and> \<not> tgt_is_local t then Some CredentialScopeMismatch
               else if \<not> satisfies_residency t (limit_residency (req_limits req)) then Some ResidencyMismatch
               else if require_local (req_hints req) \<and> \<not> tgt_is_local t then Some LocalRequired
               else if family_failover_refused ps ctx al t prov then Some FamilyFailoverNotAllowed
               else None)"

definition admin_filters :: "routing_context \<Rightarrow> target \<Rightarrow> live_state \<Rightarrow> exclusion_reason option" where
  "admin_filters ctx t live =
     (case unwrap_or (tgt_admin_state t) (admin_override live (tgt_id t)) of
        Draining \<Rightarrow> Some TargetDraining
      | Maintenance \<Rightarrow> Some TargetMaintenance
      | Quarantined \<Rightarrow> Some TargetQuarantined
      | Disabled \<Rightarrow> Some TargetDisabled
      | Enabled \<Rightarrow> if tgt_id t \<in> set (ctx_attempted ctx) then Some AlreadyAttempted else None)"

definition format_unsupported :: "capabilities \<Rightarrow> response_format option \<Rightarrow> bool" where
  "format_unsupported caps fmt =
     (case fmt of
        Some JsonObject \<Rightarrow> \<not> cap_json_mode caps
      | Some (JsonSchema _ _ _) \<Rightarrow> \<not> cap_structured_output caps
      | _ \<Rightarrow> False)"

definition capability_filters ::
  "policy_snapshot \<Rightarrow> canonical_request \<Rightarrow> model_alias \<Rightarrow> target \<Rightarrow> exclusion_reason option" where
  "capability_filters ps req al t =
     (let caps = tgt_capabilities t;
          est = target_token_estimate t (req_reasoning_effort req) (ps_default_document_token_estimate ps)
      in if \<not> supports_operation caps (req_operation req) then Some OperationUnsupported
         else if is_some_and (\<lambda>verb. \<not> supports_capability caps verb) (al_capability al)
           then Some CapabilityUnsupported
         else if \<not> supports_modalities caps (required_modalities req) then Some ModalityUnsupported
         else if \<not> supports_effort caps (req_reasoning_effort req) then Some ReasoningEffortUnsupported
         else if stream_enabled (req_stream req) \<and> \<not> cap_streaming caps then Some StreamingUnsupported
         else if requires_tools req \<and> \<not> cap_tools caps then Some ToolsUnsupported
         else if format_unsupported caps (req_response_format req) then Some StructuredOutputUnsupported
         else if estimated_input_tokens_for req est > cap_max_context_tokens caps
           then Some ContextWindowTooSmall
         else if is_some_and (\<lambda>want. want > cap_max_output_tokens caps) (max_output_tokens (req_limits req))
           then Some OutputLimitTooSmall
         else None)"

definition capacity_filters ::
  "policy_snapshot \<Rightarrow> canonical_request \<Rightarrow> target \<Rightarrow> live_state \<Rightarrow> exclusion_reason option" where
  "capacity_filters ps req t live =
     (if \<not> within_cost_ceiling t (max_cost_class (req_limits req)) then Some CostCeilingExceeded
      else if \<not> meets_quality_floor t (min_quality_class (req_limits req)) then Some QualityFloorNotMet
      else if circuit_open live (tgt_id t) then Some CircuitOpen
      else if probe_unreachable live (tgt_id t) then Some ProbeUnreachable
      else if ps_max_failure_percent ps < 100 \<and> failure_percent live (tgt_id t) > ps_max_failure_percent ps
        then Some Unhealthy
      else if \<not> has_capacity live (tgt_id t) then Some CapacityExhausted
      else None)"

definition residency_filters ::
  "policy_snapshot \<Rightarrow> routing_context \<Rightarrow> canonical_request \<Rightarrow> target \<Rightarrow> live_state \<Rightarrow> exclusion_reason option" where
  "residency_filters ps ctx req t live =
     (let res = residency_class_of live (tgt_id t);
          est = target_token_estimate t (req_reasoning_effort req) (ps_default_document_token_estimate ps)
      in case residency_exclusion res of
           Some reason \<Rightarrow> Some reason
         | None \<Rightarrow>
             if requires_activation res \<and>
                sat_add64 (activation_eta_ms live (tgt_id t))
                  (sat_mul64 (ps_activation_effort_headroom_ms ps) (output_multiplier est))
                > remaining_ms ctx (limit_deadline (req_limits req))
             then Some ActivationExceedsDeadline else None)"

definition or_reason :: "'a option \<Rightarrow> 'a option \<Rightarrow> 'a option" where
  "or_reason a b = (case a of None \<Rightarrow> b | Some r \<Rightarrow> Some r)"

definition all_filters ::
  "policy_snapshot \<Rightarrow> routing_context \<Rightarrow> canonical_request \<Rightarrow> model_alias \<Rightarrow> target \<Rightarrow> merged_bindings
     \<Rightarrow> live_state \<Rightarrow> exclusion_reason option" where
  "all_filters ps ctx req al t m live =
     or_reason (security_filters ps ctx req al t m)
       (or_reason (admin_filters ctx t live)
         (or_reason (capability_filters ps req al t)
           (or_reason (capacity_filters ps req t live)
             (residency_filters ps ctx req t live))))"

definition pin_rank_of :: "merged_bindings \<Rightarrow> target \<Rightarrow> nat" where
  "pin_rank_of m t = (if is_some_and (\<lambda>pin. pin \<noteq> tgt_id t) (mb_pin m) then PIN_FALLBACK else PIN_TARGET)"

definition evaluate ::
  "policy_snapshot \<Rightarrow> routing_context \<Rightarrow> canonical_request \<Rightarrow> model_alias \<Rightarrow> target \<Rightarrow> merged_bindings
     \<Rightarrow> live_state \<Rightarrow> exclusion_reason + candidate" where
  "evaluate ps ctx req al t m live =
     (case all_filters ps ctx req al t m live of
        Some reason \<Rightarrow> Inl reason
      | None \<Rightarrow>
          let res = residency_class_of live (tgt_id t);
              pin_rank = pin_rank_of m t
          in case preference_for m t of
               None \<Rightarrow>
                 if mb_pin m = Some (tgt_id t) \<or> tgt_id t \<in> set (mb_pin_fallback m)
                 then Inr (score ps req t (unwrap_or 0 (mb_pin_level m)) 0 0 pin_rank res live)
                 else Inl NotSelectedByAnyBinding
             | Some pref \<Rightarrow>
                 Inr (score ps req t (mp_level pref) (mp_rank pref) (mp_weight pref) pin_rank res live))"

section \<open>Routing\<close>

definition evaluate_id ::
  "policy_snapshot \<Rightarrow> routing_context \<Rightarrow> canonical_request \<Rightarrow> model_alias \<Rightarrow> merged_bindings \<Rightarrow> live_state
     \<Rightarrow> target_id \<Rightarrow> exclusion + candidate" where
  "evaluate_id ps ctx req al m live tid =
     (case btree_get (ps_targets ps) tid of
        None \<Rightarrow> Inl \<lparr>excl_target = tid, excl_reason = NotPermittedForAlias\<rparr>
      | Some t \<Rightarrow>
          case evaluate ps ctx req al t m live of
            Inl reason \<Rightarrow> Inl \<lparr>excl_target = tid, excl_reason = reason\<rparr>
          | Inr c \<Rightarrow> Inr c)"

fun route_loop ::
  "(target_id \<Rightarrow> exclusion + candidate) \<Rightarrow> target_id list \<Rightarrow> candidate list \<Rightarrow> exclusion list
     \<Rightarrow> candidate list \<times> exclusion list" where
  "route_loop ev [] cs es = (cs, es)"
| "route_loop ev (tid # tids) cs es =
     (case ev tid of
        Inl e \<Rightarrow> route_loop ev tids cs (es @ [e])
      | Inr c \<Rightarrow> route_loop ev tids (cs @ [c]) es)"

definition route :: "policy_snapshot \<Rightarrow> routing_context \<Rightarrow> canonical_request \<Rightarrow> live_state \<Rightarrow> route_outcome" where
  "route ps ctx req live =
     (case btree_get (ps_aliases ps) (requested_model req) of
        None \<Rightarrow> \<lparr>ro_candidates = [], ro_exclusions = [], ro_pinned = False\<rparr>
      | Some al \<Rightarrow>
          if \<not> authorizes ps ctx (requested_model req) (req_operation req)
          then \<lparr>ro_candidates = [],
                ro_exclusions = map (\<lambda>t. \<lparr>excl_target = t, excl_reason = NotAuthorizedForAlias\<rparr>)
                                  (al_permitted_targets al),
                ro_pinned = False\<rparr>
          else
            let m = merge_bindings ps ctx (requested_model req);
                (cs, es) = route_loop (evaluate_id ps ctx req al m live) (al_permitted_targets al) [] []
            in \<lparr>ro_candidates = sort_key ordering_key cs,
                ro_exclusions = sort_key (\<lambda>e. (excl_target e, excl_reason e)) es,
                ro_pinned = mb_pin m \<noteq> None\<rparr>)"

section \<open>Grant resolution\<close>

text \<open>The level at which a grant takes part in the decision, if at all.\<close>

definition grant_level ::
  "policy_snapshot \<Rightarrow> routing_context \<Rightarrow> alias_id \<Rightarrow> operation \<Rightarrow> alias_grant \<Rightarrow> nat option" where
  "grant_level ps ctx al op g =
     (if covers g op \<and> (ag_scope g = Global \<longrightarrow> ctx_tenant ctx \<in> ps_global_inheritance ps)
      then grant_precedence g ctx al else None)"

interpretation alias_auth: grant_resolution "grant_level ps ctx al op" ag_allow "authorizes_best ps ctx al op"
  for ps ctx al op
  by unfold_locales (auto simp: grant_level_def split: option.split)

section \<open>Denies\<close>

text \<open>
  The deny loop keeps (level, specificity, deny); read as (level, negated specificity) with the
  verdict inverted it is the same resolution rule as the grants.
\<close>

definition rule_key :: "target \<Rightarrow> merged_rule \<Rightarrow> (nat \<times> int) option" where
  "rule_key t r =
     (if selector_matches (mr_selector r) t then Some (mr_level r, - specificity (mr_selector r)) else None)"

definition deny_enc :: "nat \<times> int \<times> bool \<Rightarrow> (nat \<times> int) \<times> bool" where
  "deny_enc x = (case x of (l, s, d) \<Rightarrow> ((l, - s), \<not> d))"

definition deny_dec :: "(nat \<times> int) \<times> bool \<Rightarrow> nat \<times> int \<times> bool" where
  "deny_dec x = (case x of ((l, s), a) \<Rightarrow> (l, - s, \<not> a))"

definition deny_run :: "target \<Rightarrow> ((nat \<times> int) \<times> bool) option \<Rightarrow> merged_rule list \<Rightarrow> ((nat \<times> int) \<times> bool) option" where
  "deny_run t best rs = map_option deny_enc (denied_best t (map_option deny_dec best) rs)"

lemma deny_enc_dec [simp]: "deny_enc (deny_dec x) = x" "deny_dec (deny_enc y) = y"
  by (simp_all add: deny_enc_def deny_dec_def split: prod.splits)

lemma denied_step_dec:
  "denied_step (map_option deny_dec best) r =
     map_option deny_dec (resolve_step best (mr_level r, - specificity (mr_selector r)) (\<not> mr_deny r))"
  by (auto simp: denied_step_def resolve_step_def deny_dec_def Let_def split: option.splits)

interpretation deny: grant_resolution "rule_key t" "\<lambda>r. \<not> mr_deny r" "deny_run t"
  for t
proof unfold_locales
  show "deny_run t best [] = best" for best
    by (cases best) (simp_all add: deny_run_def)
  show "deny_run t best (r # rs) =
    deny_run t (case rule_key t r of None \<Rightarrow> best | Some l \<Rightarrow> resolve_step best l (\<not> mr_deny r)) rs" for best r rs
    by (simp add: deny_run_def rule_key_def denied_step_dec)
qed

lemma is_denied_eq: "is_denied m t \<longleftrightarrow> is_some_and (\<lambda>x. \<not> snd x) (deny_run t None (mb_rules m))"
  by (cases "denied_best t None (mb_rules m)")
    (auto simp: is_denied_def deny_run_def deny_enc_def split: prod.splits)

lemma is_denied_sticky:
  assumes "r \<in> set (mb_rules m)" "mr_deny r" "selector_matches (mr_selector r) t"
    and "\<forall>r' \<in> set (mb_rules m). selector_matches (mr_selector r') t \<and> \<not> mr_deny r' \<longrightarrow> mr_level r < mr_level r'"
  shows "is_denied m t"
proof -
  let ?app = "deny.applicable t (mb_rules m)"
  define k where "k = Min ?app"
  have rk: "rule_key t r = Some (mr_level r, - specificity (mr_selector r))"
    using assms(3) by (simp add: rule_key_def)
  then have mem: "(mr_level r, - specificity (mr_selector r)) \<in> ?app"
    using assms(1) by (auto simp: deny.applicable_def)
  then have "k \<le> (mr_level r, - specificity (mr_selector r))"
    by (simp add: k_def deny.finite_applicable)
  then have kl: "fst k \<le> mr_level r" by (cases k) (auto simp: less_eq_prod_def)
  have "k \<in> ?app" using mem deny.finite_applicable unfolding k_def by (intro Min_in) auto
  then obtain r' where r': "r' \<in> set (mb_rules m)" "rule_key t r' = Some k"
    by (auto simp: deny.applicable_def)
  then have "mr_level r' = fst k" "selector_matches (mr_selector r') t"
    by (auto simp: rule_key_def split: if_splits)
  with kl r' assms(4) have "mr_deny r'" by (metis not_le)
  with r' have "\<not> deny.unanimous t k (mb_rules m)" by (auto simp: deny.unanimous_def)
  moreover have "?app \<noteq> {}" using mem by auto
  ultimately show ?thesis by (simp add: is_denied_eq deny.run_None k_def)
qed

section \<open>The merged view\<close>

lemma fold_record_rule:
  "fold (record_rule l d b) sels m =
     m\<lparr>mb_rules := mb_rules m @ map (\<lambda>sel. \<lparr>mr_level = l, mr_selector = sel, mr_deny = d, mr_binding = b\<rparr>) sels\<rparr>"
  by (induction sels arbitrary: m) (simp_all add: record_rule_def)

lemma fold_record_preference:
  "fold (record_preference l p b) prefs m =
     m\<lparr>mb_preferences := mb_preferences m @
       map (\<lambda>pref. \<lparr>mp_level = l, mp_selector = pref_selector pref, mp_rank = pref_rank pref,
             mp_weight = pref_weight pref, mp_priority = p, mp_binding = b\<rparr>) prefs\<rparr>"
  by (induction prefs arbitrary: m) (simp_all add: record_preference_def)

definition binding_rules :: "nat \<times> binding \<Rightarrow> merged_rule list" where
  "binding_rules lb =
     map (\<lambda>sel. \<lparr>mr_level = fst lb, mr_selector = sel, mr_deny = True, mr_binding = bind_id (snd lb)\<rparr>)
       (bind_denies (snd lb)) @
     map (\<lambda>sel. \<lparr>mr_level = fst lb, mr_selector = sel, mr_deny = False, mr_binding = bind_id (snd lb)\<rparr>)
       (bind_allows (snd lb))"

lemma merge_pin_other [simp]:
  "mb_rules (merge_pin l b m) = mb_rules m" "mb_preferences (merge_pin l b m) = mb_preferences m"
  "mb_top_level (merge_pin l b m) = mb_top_level m"
  by (auto simp: merge_pin_def split: option.splits)

lemma merge_binding_rules: "mb_rules (merge_binding lb m) = mb_rules m @ binding_rules lb"
  by (cases lb) (simp add: merge_binding_def fold_record_rule fold_record_preference Let_def binding_rules_def)

lemma fold_merge_rules: "mb_rules (fold merge_binding lbs m) = mb_rules m @ concat (map binding_rules lbs)"
  by (induction lbs arbitrary: m) (simp_all add: merge_binding_rules)

lemma merge_bindings_rules:
  "mb_rules (merge_bindings ps ctx al) = concat (map binding_rules (applicable_bindings ps ctx al))"
  by (simp add: merge_bindings_def fold_merge_rules merged_default_def)

definition binding_applies :: "policy_snapshot \<Rightarrow> routing_context \<Rightarrow> alias_id \<Rightarrow> nat \<Rightarrow> binding \<Rightarrow> bool" where
  "binding_applies ps ctx al l b \<longleftrightarrow>
     b \<in> set (ps_bindings ps) \<and> precedence b ctx al = Some l \<and>
     (bind_scope b = Global \<longrightarrow> ctx_tenant ctx \<in> ps_global_inheritance ps)"

lemma map_filter_set: "set (List.map_filter f xs) = {y. \<exists>x \<in> set xs. f x = Some y}"
  by (force simp: List.map_filter_def)

lemma applicable_bindings_set:
  "(l, b) \<in> set (applicable_bindings ps ctx al) \<longleftrightarrow> binding_applies ps ctx al l b"
  by (auto simp: applicable_bindings_def binding_applies_def map_filter_set)

lemma merged_rule_iff:
  "r \<in> set (mb_rules (merge_bindings ps ctx al)) \<longleftrightarrow>
     (\<exists>b. binding_applies ps ctx al (mr_level r) b \<and> mr_binding r = bind_id b \<and>
        mr_selector r \<in> set (if mr_deny r then bind_denies b else bind_allows b))"
proof -
  have "r \<in> set (mb_rules (merge_bindings ps ctx al)) \<longleftrightarrow>
      (\<exists>l b. binding_applies ps ctx al l b \<and> r \<in> set (binding_rules (l, b)))"
    by (auto simp: merge_bindings_rules simp flip: applicable_bindings_set)
  also have "\<dots> \<longleftrightarrow> (\<exists>b. binding_applies ps ctx al (mr_level r) b \<and> mr_binding r = bind_id b \<and>
        mr_selector r \<in> set (if mr_deny r then bind_denies b else bind_allows b))"
    by (cases r) (auto simp: binding_rules_def)
  finally show ?thesis .
qed

lemma merged_denied:
  assumes "binding_applies ps ctx al l b" "sel \<in> set (bind_denies b)" "selector_matches sel t"
    and "\<forall>l' b'. binding_applies ps ctx al l' b' \<and> (\<exists>sel' \<in> set (bind_allows b'). selector_matches sel' t) \<longrightarrow> l < l'"
  shows "is_denied (merge_bindings ps ctx al) t"
proof (rule is_denied_sticky)
  let ?r = "\<lparr>mr_level = l, mr_selector = sel, mr_deny = True, mr_binding = bind_id b\<rparr>"
  show "?r \<in> set (mb_rules (merge_bindings ps ctx al))"
    using assms(1,2) by (auto simp: merged_rule_iff)
  show "mr_deny ?r" "selector_matches (mr_selector ?r) t" using assms(3) by simp_all
  show "\<forall>r' \<in> set (mb_rules (merge_bindings ps ctx al)).
      selector_matches (mr_selector r') t \<and> \<not> mr_deny r' \<longrightarrow> mr_level ?r < mr_level r'"
    using assms(4) by (auto simp: merged_rule_iff) blast
qed

section \<open>Eligibility\<close>

lemma or_reason_None [simp]: "or_reason a b = None \<longleftrightarrow> a = None \<and> b = None"
  by (cases a) (simp_all add: or_reason_def)

lemma if_reason_None [simp]: "(if c then Some r else x) = None \<longleftrightarrow> \<not> c \<and> x = None"
  by simp

lemma security_filters_None:
  "security_filters ps ctx req al t m = None \<longleftrightarrow>
     \<not> is_denied m t \<and> \<not> key_refuses ps ctx t \<and> fleet_access_permits ps ctx (al_id al) (tgt_id t) \<and>
     \<not> pin_excludes m t \<and> tgt_id t \<in> ps_allowlisted_targets ps \<and>
     (\<exists>prov. btree_get (ps_providers ps) (tgt_provider_id t) = Some prov \<and> prov_enabled prov \<and>
        (prov_credential_ref prov \<noteq> None \<or> tgt_is_local t) \<and>
        \<not> family_failover_refused ps ctx al t prov) \<and>
     satisfies_residency t (limit_residency (req_limits req)) \<and>
     (require_local (req_hints req) \<longrightarrow> tgt_is_local t)"
  by (simp add: security_filters_def split: option.split) blast

lemma admin_filters_None:
  "admin_filters ctx t live = None \<longleftrightarrow>
     unwrap_or (tgt_admin_state t) (admin_override live (tgt_id t)) = Enabled \<and>
     tgt_id t \<notin> set (ctx_attempted ctx)"
  by (simp add: admin_filters_def split: admin_state.split)

lemma capability_filters_None:
  "capability_filters ps req al t = None \<longleftrightarrow>
     (let caps = tgt_capabilities t in
      supports_operation caps (req_operation req) \<and>
      is_none_or (supports_capability caps) (al_capability al) \<and>
      supports_modalities caps (required_modalities req) \<and>
      supports_effort caps (req_reasoning_effort req) \<and>
      (stream_enabled (req_stream req) \<longrightarrow> cap_streaming caps) \<and>
      (requires_tools req \<longrightarrow> cap_tools caps) \<and>
      \<not> format_unsupported caps (req_response_format req) \<and>
      estimated_input_tokens_for req
        (target_token_estimate t (req_reasoning_effort req) (ps_default_document_token_estimate ps))
        \<le> cap_max_context_tokens caps \<and>
      is_none_or (\<lambda>want. want \<le> cap_max_output_tokens caps) (max_output_tokens (req_limits req)))"
  unfolding capability_filters_def
  by (cases "al_capability al"; cases "max_output_tokens (req_limits req)")
    (simp_all add: Let_def not_less)

lemma capacity_filters_None:
  "capacity_filters ps req t live = None \<longleftrightarrow>
     within_cost_ceiling t (max_cost_class (req_limits req)) \<and>
     meets_quality_floor t (min_quality_class (req_limits req)) \<and>
     \<not> circuit_open live (tgt_id t) \<and> \<not> probe_unreachable live (tgt_id t) \<and>
     (100 \<le> ps_max_failure_percent ps \<or> failure_percent live (tgt_id t) \<le> ps_max_failure_percent ps) \<and>
     has_capacity live (tgt_id t)"
  by (auto simp: capacity_filters_def)

lemma residency_filters_None:
  "residency_filters ps ctx req t live = None \<longleftrightarrow>
     residency_exclusion (residency_class_of live (tgt_id t)) = None \<and>
     (requires_activation (residency_class_of live (tgt_id t)) \<longrightarrow>
        sat_add64 (activation_eta_ms live (tgt_id t))
          (sat_mul64 (ps_activation_effort_headroom_ms ps)
            (multiplier_for_effort (cap_effort_multipliers (tgt_capabilities t)) (req_reasoning_effort req)))
        \<le> remaining_ms ctx (limit_deadline (req_limits req)))"
  by (auto simp: residency_filters_def target_token_estimate_def Let_def split: option.split)

lemmas filters_None = security_filters_None admin_filters_None capability_filters_None
  capacity_filters_None residency_filters_None

lemma evaluate_InrD:
  assumes "evaluate ps ctx req al t m live = Inr c"
  shows "all_filters ps ctx req al t m live = None" "cand_target c = tgt_id t"
    "cand_pin_rank c = pin_rank_of m t"
    "\<exists>l w. c = score ps req t l (cand_rank c) w (pin_rank_of m t) (residency_class_of live (tgt_id t)) live"
  using assms
  by (auto simp: evaluate_def Let_def score_def split: option.splits if_splits)

lemma evaluate_id_target:
  assumes "\<And>k t. btree_get (ps_targets ps) k = Some t \<Longrightarrow> tgt_id t = k"
  shows "evaluate_id ps ctx req al m live tid = Inr c \<Longrightarrow> cand_target c = tid"
    and "evaluate_id ps ctx req al m live tid = Inl e \<Longrightarrow> excl_target e = tid"
  using assms
  by (auto simp: evaluate_id_def dest: evaluate_InrD(2) split: option.splits sum.splits)

section \<open>Properties of routing\<close>

lemma route_loop_eq:
  "route_loop ev tids cs es =
     (cs @ List.map_filter (\<lambda>t. case ev t of Inr c \<Rightarrow> Some c | Inl _ \<Rightarrow> None) tids,
      es @ List.map_filter (\<lambda>t. case ev t of Inl e \<Rightarrow> Some e | Inr _ \<Rightarrow> None) tids)"
  by (induction tids arbitrary: cs es) (simp_all add: map_filter_simps split: sum.split)

text \<open>Every map of a validated snapshot is keyed by the identifier its entries carry.\<close>

definition snapshot_keyed :: "policy_snapshot \<Rightarrow> bool" where
  "snapshot_keyed ps \<longleftrightarrow>
     list_all (\<lambda>(k, t). tgt_id t = k) (ps_targets ps) \<and>
     list_all (\<lambda>(k, a). al_id a = k) (ps_aliases ps)"

lemma snapshot_keyed_get:
  assumes "snapshot_keyed ps"
  shows "btree_get (ps_targets ps) k = Some t \<Longrightarrow> tgt_id t = k"
    and "btree_get (ps_aliases ps) k = Some a \<Longrightarrow> al_id a = k"
  using assms by (auto simp: snapshot_keyed_def btree_get_def list_all_iff dest: map_of_SomeD)

lemma sum_case_Some [simp]:
  "(case x of Inr c \<Rightarrow> Some c | Inl _ \<Rightarrow> None) = Some c \<longleftrightarrow> x = Inr c"
  "(case x of Inl e \<Rightarrow> Some e | Inr _ \<Rightarrow> None) = Some e \<longleftrightarrow> x = Inl e"
  by (cases x; simp)+

lemma evaluate_id_Inr:
  "evaluate_id ps ctx req al m live tid = Inr c \<longleftrightarrow>
     (\<exists>t. btree_get (ps_targets ps) tid = Some t \<and> evaluate ps ctx req al t m live = Inr c)"
  by (auto simp: evaluate_id_def split: option.split sum.split)

lemma route_candidate:
  assumes "c \<in> set (ro_candidates (route ps ctx req live))"
  obtains al tid t where
    "btree_get (ps_aliases ps) (requested_model req) = Some al"
    "authorizes ps ctx (requested_model req) (req_operation req)"
    "tid \<in> set (al_permitted_targets al)" "btree_get (ps_targets ps) tid = Some t"
    "evaluate ps ctx req al t (merge_bindings ps ctx (requested_model req)) live = Inr c"
  using assms
  by (auto simp: route_def route_loop_eq evaluate_id_Inr map_filter_set Let_def
      split: option.splits if_splits)

lemma route_candidate_iff:
  assumes "btree_get (ps_aliases ps) (requested_model req) = Some al"
    and "authorizes ps ctx (requested_model req) (req_operation req)"
  shows "c \<in> set (ro_candidates (route ps ctx req live)) \<longleftrightarrow>
    (\<exists>tid \<in> set (al_permitted_targets al). \<exists>t. btree_get (ps_targets ps) tid = Some t \<and>
       evaluate ps ctx req al t (merge_bindings ps ctx (requested_model req)) live = Inr c)"
  using assms
  by (simp add: route_def route_loop_eq evaluate_id_Inr map_filter_set Let_def)

end
