(* ===== verification/Routing.thy ===== *)
theory Routing
  imports Policy
begin

text \<open>
  What \<open>PolicySnapshot::route\<close> guarantees: soundness of the candidate list, that every permitted
  target is accounted for, sticky denies, pins, determinism under configuration order, the
  narrowing effect of API keys, and the ordering of candidates.
\<close>

section \<open>A concrete snapshot\<close>

definition ex_caps :: capabilities where
  "ex_caps = capabilities_default\<lparr>cap_operations := [Chat], cap_max_context_tokens := 100\<rparr>"

definition ex_target :: "target_id \<Rightarrow> bool \<Rightarrow> target" where
  "ex_target i loc =
     \<lparr>tgt_id = i, tgt_provider_id = ''p'', tgt_native_model = ''m'', tgt_aliases = [],
      tgt_capabilities = ex_caps, tgt_cost_class = 1, tgt_quality_class = 1,
      tgt_document_token_estimate = None, tgt_bytes_per_token_hundredths = None, tgt_residency = None,
      tgt_is_local = loc, tgt_admin_state = Enabled, tgt_endpoint_index = 0, tgt_max_concurrency = 1,
      tgt_max_requests_per_second = 1\<rparr>"

definition ex_provider :: provider where
  "ex_provider =
     \<lparr>prov_id = ''p'', prov_family = LlamaCpp, prov_endpoints = [], prov_credential_ref = Some ''c'',
      prov_enabled = True, prov_egress_profile = '''', prov_recovery_wait_ms = 0\<rparr>"

definition ex_alias :: "target_id list \<Rightarrow> model_alias" where
  "ex_alias ts =
     \<lparr>al_id = ''x'', al_capability = None, al_permitted_targets = ts, al_allow_family_failover = False,
      al_description = None,
      al_llamacpp_sampling = \<lparr>als_dry_multiplier = None, als_repeat_penalty = None\<rparr>\<rparr>"

definition ex_binding :: binding where
  "ex_binding =
     \<lparr>bind_id = ''b'', bind_scope = Tenant ''t'', bind_model = ModelAny,
      bind_preferences =
        [\<lparr>pref_selector = SelExact ''u'', pref_rank = 0, pref_weight = 0\<rparr>,
         \<lparr>pref_selector = SelAny, pref_rank = 1, pref_weight = 0\<rparr>],
      bind_denies = [], bind_allows = [], bind_pin = None, bind_emergency_fallback = [], bind_priority = 0\<rparr>"

definition ex_deny :: binding where
  "ex_deny =
     \<lparr>bind_id = ''d'', bind_scope = Principal ''me'', bind_model = ModelAny, bind_preferences = [],
      bind_denies = [SelExact ''u''], bind_allows = [], bind_pin = None, bind_emergency_fallback = [],
      bind_priority = 0\<rparr>"

definition ex_pin :: binding where
  "ex_pin =
     \<lparr>bind_id = ''q'', bind_scope = Principal ''me'', bind_model = ModelAny, bind_preferences = [],
      bind_denies = [], bind_allows = [], bind_pin = Some ''u'', bind_emergency_fallback = [''v''],
      bind_priority = 0\<rparr>"

definition ex_policy :: "binding list \<Rightarrow> policy_snapshot" where
  "ex_policy bs = snapshot_empty
     \<lparr>ps_providers := [(''p'', ex_provider)],
      ps_targets := [(''u'', ex_target ''u'' False), (''v'', ex_target ''v'' True)],
      ps_aliases := [(''x'', ex_alias [''v'', ''u''])],
      ps_bindings := bs,
      ps_grants := [\<lparr>ag_scope = Tenant ''t'', ag_model = ModelAny, ag_operations = [], ag_allow = True\<rparr>],
      ps_allowlisted_targets := {''u'', ''v''}\<rparr>"

definition ex_ctx :: routing_context where
  "ex_ctx =
     \<lparr>ctx_principal = ''me'', ctx_groups = [], ctx_tenant = ''t'', ctx_attempted = [], ctx_now_millis = 0,
      ctx_key = None\<rparr>"

definition ex_request :: canonical_request where
  "ex_request =
     \<lparr>req_id = 0, req_tenant = ''t'', req_principal = ''me'', req_protocol = OpenAiChat,
      req_operation = Chat, requested_model = ''x'', req_messages = [message_text RUser ''hi''],
      req_inputs = [], req_tools = [], req_tool_choice = None, req_response_format = None,
      req_sampling = sampling_default, req_reasoning_effort = Unset,
      req_limits = \<lparr>max_output_tokens = None, limit_deadline = 1000, max_cost_class = None,
        min_quality_class = None, limit_residency = None\<rparr>,
      req_stream = \<lparr>stream_enabled = False, include_usage = False\<rparr>,
      req_hints = \<lparr>prefer_target = None, conversation_id = None, require_local = False,
        idempotency_key = None\<rparr>\<rparr>"

text \<open>The equations that evaluate a route on such a snapshot.\<close>

lemmas route_eval =
  route_def evaluate_id_def evaluate_def all_filters_def or_reason_def security_filters_def
  admin_filters_def capability_filters_def capacity_filters_def residency_filters_def
  authorizes_def covers_def grant_precedence_def resolve_step_def merge_bindings_def
  applicable_bindings_def precedence_def merge_binding_def merge_pin_def record_rule_def
  record_preference_def merged_default_def is_denied_def denied_step_def preference_for_def
  pref_better_def key_refuses_def pin_excludes_def family_failover_refused_def
  fleet_access_permits_def snapshot_empty_def btree_get_def ideal_live_state_def
  capabilities_default_def supports_operation_def supports_modalities_def supports_effort_def
  required_modalities_def all_parts_def message_text_def requires_tools_def format_unsupported_def
  target_token_estimate_def estimated_input_tokens_for_def satisfies_residency_def
  within_cost_ceiling_def meets_quality_floor_def pin_rank_of_def requires_activation_def
  map_filter_simps Let_def score_def ordering_key_def cand_score_def terms_total_def clamped_def
  clamp_i_def clamp_n_def rank_term_def sat_addi_def sat_i64_def sat_u64_def sat_add64_def sat_mul64_def
  div_ceil_def warmth_bonus_def score_limits WARMTH_LADDER_STEP_def HINT_SLICE_def CONVERSATION_SLICE_def
  PIN_TARGET_def PIN_FALLBACK_def MIN_BYTES_PER_TOKEN_HUNDREDTHS_def MAX_BYTES_PER_TOKEN_HUNDREDTHS_def
  DEFAULT_BYTES_PER_TOKEN_HUNDREDTHS_def DEFAULT_DOCUMENT_TOKEN_ESTIMATE_def
  non_document_input_byte_len_def input_byte_len_def message_byte_len_def document_parts_def

lemmas ex_defs = ex_caps_def ex_target_def ex_provider_def ex_alias_def ex_binding_def ex_deny_def ex_pin_def ex_policy_def ex_ctx_def ex_request_def

lemma ex_keyed: "snapshot_keyed (ex_policy bs)"
  by (simp add: ex_defs snapshot_keyed_def snapshot_empty_def)

abbreviation targets_of :: "route_outcome \<Rightarrow> target_id list" where
  "targets_of o' \<equiv> map cand_target (ro_candidates o')"

lemma targets_of_mem: "x \<in> set (targets_of r) \<Longrightarrow> \<exists>c \<in> set (ro_candidates r). cand_target c = x"
  by auto

lemma ex_route:
  "targets_of (route (ex_policy [ex_binding]) ex_ctx ex_request ideal_live_state) = [''u'', ''v'']"
  by (simp add: ex_defs route_eval)

section \<open>Authorization\<close>

text \<open>
  Authorization is default deny, the most specific applicable scope decides, and a deny wins a tie.
  A caller may use an alias exactly when its key permits the alias and some applicable grant allows it
  at a level that no other applicable grant beats and at which no applicable grant denies. The result
  does not depend on the order in which the grants are configured.
\<close>

theorem authorizes_iff:
  "authorizes ps ctx al op \<longleftrightarrow>
     is_none_or (\<lambda>key. permits_alias key al) (ctx_key ctx) \<and>
     (\<exists>g \<in> set (ps_grants ps). \<exists>l. grant_level ps ctx al op g = Some l \<and> ag_allow g \<and>
        (\<forall>g' \<in> set (ps_grants ps). \<forall>l'. grant_level ps ctx al op g' = Some l' \<longrightarrow>
           l < l' \<or> l = l' \<and> ag_allow g'))"
  unfolding authorizes_def alias_auth.run_allows_iff
  by (cases "ctx_key ctx") auto

theorem authorizes_iff_witness:
  "authorizes (ex_policy []) ex_ctx ''x'' Chat"
proof -
  have "grant_level (ex_policy []) ex_ctx ''x'' Chat
      \<lparr>ag_scope = Tenant ''t'', ag_model = ModelAny, ag_operations = [], ag_allow = True\<rparr> = Some 6"
    by (simp add: ex_ctx_def grant_level_def covers_def grant_precedence_def)
  moreover have "ps_grants (ex_policy []) =
      [\<lparr>ag_scope = Tenant ''t'', ag_model = ModelAny, ag_operations = [], ag_allow = True\<rparr>]"
    by (simp add: ex_policy_def)
  moreover have "ctx_key ex_ctx = None" by (simp add: ex_ctx_def)
  ultimately show ?thesis unfolding authorizes_iff by simp
qed

section \<open>Soundness of the candidate list\<close>

lemma route_target_iff:
  assumes "snapshot_keyed ps"
  shows "tid \<in> set (targets_of (route ps ctx req live)) \<longleftrightarrow>
    (\<exists>al t. btree_get (ps_aliases ps) (requested_model req) = Some al \<and> tid \<in> set (al_permitted_targets al) \<and>
       authorizes ps ctx (requested_model req) (req_operation req) \<and> btree_get (ps_targets ps) tid = Some t \<and>
       (\<exists>c. evaluate ps ctx req al t (merge_bindings ps ctx (requested_model req)) live = Inr c))"
proof
  assume "tid \<in> set (targets_of (route ps ctx req live))"
  then obtain c where c: "c \<in> set (ro_candidates (route ps ctx req live))" "cand_target c = tid" by auto
  then show "\<exists>al t. btree_get (ps_aliases ps) (requested_model req) = Some al \<and> tid \<in> set (al_permitted_targets al) \<and>
      authorizes ps ctx (requested_model req) (req_operation req) \<and> btree_get (ps_targets ps) tid = Some t \<and>
      (\<exists>c. evaluate ps ctx req al t (merge_bindings ps ctx (requested_model req)) live = Inr c)"
    by (elim route_candidate) (metis evaluate_InrD(2) snapshot_keyed_get(1) [OF assms])
next
  assume "\<exists>al t. btree_get (ps_aliases ps) (requested_model req) = Some al \<and> tid \<in> set (al_permitted_targets al) \<and>
      authorizes ps ctx (requested_model req) (req_operation req) \<and> btree_get (ps_targets ps) tid = Some t \<and>
      (\<exists>c. evaluate ps ctx req al t (merge_bindings ps ctx (requested_model req)) live = Inr c)"
  then obtain al t c where al: "btree_get (ps_aliases ps) (requested_model req) = Some al"
    "authorizes ps ctx (requested_model req) (req_operation req)" "tid \<in> set (al_permitted_targets al)"
    and t: "btree_get (ps_targets ps) tid = Some t"
    and ev: "evaluate ps ctx req al t (merge_bindings ps ctx (requested_model req)) live = Inr c" by blast
  then have "c \<in> set (ro_candidates (route ps ctx req live))" using route_candidate_iff [OF al(1,2)] by blast
  moreover have "cand_target c = tid" using evaluate_InrD(2) [OF ev] snapshot_keyed_get(1) [OF assms t] by simp
  ultimately show "tid \<in> set (targets_of (route ps ctx req live))" by (metis image_eqI set_map)
qed

lemma evaluate_granted:
  "(\<exists>c. evaluate ps ctx req al t m live = Inr c) \<longleftrightarrow> all_filters ps ctx req al t m live = None \<and>
     (preference_for m t \<noteq> None \<or> mb_pin m = Some (tgt_id t) \<or> tgt_id t \<in> set (mb_pin_fallback m))"
  by (auto simp: evaluate_def Let_def split: option.splits)

text \<open>The conditions of the filters, in plain terms.\<close>

lemma key_admits_iff:
  "\<not> key_refuses ps ctx t \<longleftrightarrow> (\<forall>key. ctx_key ctx = Some key \<longrightarrow> permits_target key (tgt_id t) \<and>
     (\<forall>host. btree_get (ps_fleet_placement ps) (tgt_id t) = Some host \<longrightarrow> permits_host key host))"
  by (auto simp: key_refuses_def is_some_and_iff)

lemma pin_admits_iff:
  "\<not> pin_excludes m t \<longleftrightarrow> (\<forall>pin. mb_pin m = Some pin \<longrightarrow> pin = tgt_id t \<or> tgt_id t \<in> set (mb_pin_fallback m))"
  by (auto simp: pin_excludes_def is_some_and_iff)

lemma family_admits_iff:
  "tgt_id t \<notin> set (ctx_attempted ctx) \<Longrightarrow> \<not> family_failover_refused ps ctx al t prov \<longleftrightarrow>
     (\<forall>first rest ft fp. ctx_attempted ctx = first # rest \<and> btree_get (ps_targets ps) first = Some ft \<and>
        btree_get (ps_providers ps) (tgt_provider_id ft) = Some fp \<and> prov_family fp \<noteq> prov_family prov \<longrightarrow>
        al_allow_family_failover al)"
  by (cases "ctx_attempted ctx") (auto simp: family_failover_refused_def is_some_and_iff)

lemma format_admits_iff:
  "\<not> format_unsupported caps fmt \<longleftrightarrow> (fmt = Some JsonObject \<longrightarrow> cap_json_mode caps) \<and>
     (\<forall>n sch strict. fmt = Some (JsonSchema n sch strict) \<longrightarrow> cap_structured_output caps)"
  by (auto simp: format_unsupported_def split: option.splits response_format.splits)

lemma residency_admits_iff: "residency_exclusion c = None \<longleftrightarrow> (\<forall>reason. c \<noteq> Infeasible reason)"
  by (cases c) auto

lemma activation_iff: "requires_activation c \<longleftrightarrow> c \<in> {ColdFits, ColdRequiresEviction, ColdRequiresFetch}"
  by (simp add: requires_activation_def)

text \<open>
  What a target must satisfy to serve a request, written independently of the order and the reasons of the filters:
  who may use it, whether it is in service, whether it can do what is asked, whether it is affordable, healthy and has
  room, and whether it can be ready before the deadline.
\<close>

definition usable_by :: "policy_snapshot \<Rightarrow> routing_context \<Rightarrow> canonical_request \<Rightarrow> model_alias \<Rightarrow> merged_bindings \<Rightarrow> target \<Rightarrow> bool" where
  "usable_by ps ctx req al m t \<longleftrightarrow>
     \<not> is_denied m t \<and>
     (\<forall>key. ctx_key ctx = Some key \<longrightarrow> permits_target key (tgt_id t) \<and>
        (\<forall>host. btree_get (ps_fleet_placement ps) (tgt_id t) = Some host \<longrightarrow> permits_host key host)) \<and>
     fleet_access_permits ps ctx (al_id al) (tgt_id t) \<and>
     (\<forall>pin. mb_pin m = Some pin \<longrightarrow> pin = tgt_id t \<or> tgt_id t \<in> set (mb_pin_fallback m)) \<and>
     tgt_id t \<in> ps_allowlisted_targets ps \<and>
     (\<exists>prov. btree_get (ps_providers ps) (tgt_provider_id t) = Some prov \<and> prov_enabled prov \<and>
        (prov_credential_ref prov \<noteq> None \<or> tgt_is_local t) \<and>
        (\<forall>first rest ft fp. ctx_attempted ctx = first # rest \<and> btree_get (ps_targets ps) first = Some ft \<and>
           btree_get (ps_providers ps) (tgt_provider_id ft) = Some fp \<and> prov_family fp \<noteq> prov_family prov \<longrightarrow>
           al_allow_family_failover al)) \<and>
     satisfies_residency t (limit_residency (req_limits req)) \<and>
     (require_local (req_hints req) \<longrightarrow> tgt_is_local t)"

definition in_service :: "routing_context \<Rightarrow> live_state \<Rightarrow> target \<Rightarrow> bool" where
  "in_service ctx live t \<longleftrightarrow>
     (case admin_override live (tgt_id t) of Some st \<Rightarrow> st = Enabled | None \<Rightarrow> tgt_admin_state t = Enabled) \<and>
     tgt_id t \<notin> set (ctx_attempted ctx)"

definition capable_of :: "policy_snapshot \<Rightarrow> canonical_request \<Rightarrow> model_alias \<Rightarrow> target \<Rightarrow> bool" where
  "capable_of ps req al t \<longleftrightarrow>
     supports_operation (tgt_capabilities t) (req_operation req) \<and>
     (\<forall>verb. al_capability al = Some verb \<longrightarrow> supports_capability (tgt_capabilities t) verb) \<and>
     supports_modalities (tgt_capabilities t) (required_modalities req) \<and>
     supports_effort (tgt_capabilities t) (req_reasoning_effort req) \<and>
     (stream_enabled (req_stream req) \<longrightarrow> cap_streaming (tgt_capabilities t)) \<and>
     (requires_tools req \<longrightarrow> cap_tools (tgt_capabilities t)) \<and>
     (req_response_format req = Some JsonObject \<longrightarrow> cap_json_mode (tgt_capabilities t)) \<and>
     (\<forall>n sch strict. req_response_format req = Some (JsonSchema n sch strict) \<longrightarrow>
        cap_structured_output (tgt_capabilities t)) \<and>
     estimated_input_tokens_for req
       (target_token_estimate t (req_reasoning_effort req) (ps_default_document_token_estimate ps))
       \<le> cap_max_context_tokens (tgt_capabilities t) \<and>
     (\<forall>want. max_output_tokens (req_limits req) = Some want \<longrightarrow> want \<le> cap_max_output_tokens (tgt_capabilities t))"

definition healthy_for :: "policy_snapshot \<Rightarrow> canonical_request \<Rightarrow> live_state \<Rightarrow> target \<Rightarrow> bool" where
  "healthy_for ps req live t \<longleftrightarrow>
     within_cost_ceiling t (max_cost_class (req_limits req)) \<and>
     meets_quality_floor t (min_quality_class (req_limits req)) \<and>
     \<not> circuit_open live (tgt_id t) \<and> \<not> probe_unreachable live (tgt_id t) \<and>
     (ps_max_failure_percent ps < 100 \<longrightarrow> failure_percent live (tgt_id t) \<le> ps_max_failure_percent ps) \<and>
     has_capacity live (tgt_id t)"

definition ready_in_time :: "policy_snapshot \<Rightarrow> routing_context \<Rightarrow> canonical_request \<Rightarrow> live_state \<Rightarrow> target \<Rightarrow> bool" where
  "ready_in_time ps ctx req live t \<longleftrightarrow>
     (\<forall>reason. residency_class_of live (tgt_id t) \<noteq> Infeasible reason) \<and>
     (residency_class_of live (tgt_id t) \<in> {ColdFits, ColdRequiresEviction, ColdRequiresFetch} \<longrightarrow>
        sat_add64 (activation_eta_ms live (tgt_id t))
          (sat_mul64 (ps_activation_effort_headroom_ms ps)
            (multiplier_for_effort (cap_effort_multipliers (tgt_capabilities t)) (req_reasoning_effort req)))
          \<le> remaining_ms ctx (limit_deadline (req_limits req)))"

text \<open>The filters let exactly these targets through.\<close>

lemma security_spec:
  assumes "tgt_id t \<notin> set (ctx_attempted ctx)"
  shows "security_filters ps ctx req al t m = None \<longleftrightarrow> usable_by ps ctx req al m t"
  unfolding security_filters_None usable_by_def key_admits_iff pin_admits_iff family_admits_iff [OF assms] ..

lemma admin_spec: "admin_filters ctx t live = None \<longleftrightarrow> in_service ctx live t"
  by (simp add: admin_filters_None in_service_def split: option.split)

lemma capability_spec: "capability_filters ps req al t = None \<longleftrightarrow> capable_of ps req al t"
  unfolding capability_filters_None capable_of_def Let_def is_none_or_iff format_admits_iff by blast

lemma capacity_spec: "capacity_filters ps req t live = None \<longleftrightarrow> healthy_for ps req live t"
  unfolding capacity_filters_None healthy_for_def by auto

lemma residency_spec: "residency_filters ps ctx req t live = None \<longleftrightarrow> ready_in_time ps ctx req live t"
  unfolding residency_filters_None ready_in_time_def residency_admits_iff activation_iff ..

lemma filters_spec:
  "all_filters ps ctx req al t m live = None \<longleftrightarrow>
     usable_by ps ctx req al m t \<and> in_service ctx live t \<and> capable_of ps req al t \<and> healthy_for ps req live t \<and>
     ready_in_time ps ctx req live t"
proof (cases "tgt_id t \<in> set (ctx_attempted ctx)")
  case True
  then have "\<not> in_service ctx live t" by (simp add: in_service_def)
  then show ?thesis by (simp add: all_filters_def or_reason_None admin_spec)
next
  case False
  show ?thesis
    by (simp only: all_filters_def or_reason_None security_spec [OF False] admin_spec capability_spec capacity_spec residency_spec)
qed

text \<open>
  C1: no filter can be bypassed, and none rejects anything else. A target is among the candidates of a route exactly
  when it is a permitted target of an existing alias the caller is authorized for, a binding prefers it, pins it or
  lists it as fallback of the pin, and it passes every filter. It is usable by this caller: not denied, within the key's
  targets and hosts, permitted by the fleet grants, consistent with the pin, allowlisted, of an enabled provider that has
  a credential unless the target is local, in the required region, local where that is required, and of the family of
  the first attempt unless the alias allows failover. It is in service and not already attempted. It is capable of the
  operation, the alias's capability, the modalities, the effort, streaming, tools, the response format, the input and
  the output length. It is within the cost ceiling and the quality floor, with no open circuit, not probed
  unreachable, within the failure limit, and with capacity. And it is feasible and, when it must be activated first,
  ready before the deadline.
\<close>

theorem route_candidate_eligible:
  assumes "snapshot_keyed ps" "m = merge_bindings ps ctx (requested_model req)"
  shows "tid \<in> set (targets_of (route ps ctx req live)) \<longleftrightarrow>
    (\<exists>al t. btree_get (ps_aliases ps) (requested_model req) = Some al \<and> tid \<in> set (al_permitted_targets al) \<and>
       authorizes ps ctx (requested_model req) (req_operation req) \<and> btree_get (ps_targets ps) tid = Some t \<and>
       usable_by ps ctx req al m t \<and> in_service ctx live t \<and> capable_of ps req al t \<and> healthy_for ps req live t \<and>
       ready_in_time ps ctx req live t \<and>
       (preference_for m t \<noteq> None \<or> mb_pin m = Some tid \<or> tid \<in> set (mb_pin_fallback m)))"
  unfolding route_target_iff [OF assms(1)] evaluate_granted filters_spec assms(2) conj_assoc
  by (intro ex_cong1 conj_cong refl) (simp_all add: snapshot_keyed_get(1) [OF assms(1)])

theorem route_candidate_eligible_witness:
  "''u'' \<in> set (targets_of (route (ex_policy [ex_binding]) ex_ctx ex_request ideal_live_state)) \<and>
   healthy_for (ex_policy [ex_binding]) ex_request ideal_live_state (ex_target ''u'' False) \<and>
   capable_of (ex_policy [ex_binding]) ex_request (ex_alias [''v'', ''u'']) (ex_target ''u'' False) \<and>
   usable_by (ex_policy [ex_binding]) ex_ctx ex_request (ex_alias [''v'', ''u''])
     (merge_bindings (ex_policy [ex_binding]) ex_ctx ''x'') (ex_target ''u'' False) \<and>
   \<not> (''u'' \<in> set (targets_of (route (ex_policy [ex_binding]) ex_ctx ex_request
        (ideal_live_state\<lparr>probe_unreachable := \<lambda>t. t = ''u''\<rparr>))))"
proof -
  let ?ps = "ex_policy [ex_binding]"
  note elig = route_candidate_eligible [OF ex_keyed refl, of "''u''" _ ex_ctx ex_request]
  have x: "btree_get (ps_aliases ?ps) (requested_model ex_request) = Some (ex_alias [''v'', ''u''])"
    "btree_get (ps_targets ?ps) ''u'' = Some (ex_target ''u'' False)" "requested_model ex_request = ''x''"
    by (simp_all add: ex_policy_def ex_request_def btree_get_def)
  have "''u'' \<in> set (targets_of (route ?ps ex_ctx ex_request ideal_live_state))" by (simp add: ex_route)
  moreover from this [unfolded elig] have "healthy_for ?ps ex_request ideal_live_state (ex_target ''u'' False)"
    "capable_of ?ps ex_request (ex_alias [''v'', ''u'']) (ex_target ''u'' False)"
    "usable_by ?ps ex_ctx ex_request (ex_alias [''v'', ''u'']) (merge_bindings ?ps ex_ctx ''x'') (ex_target ''u'' False)"
    using x by auto
  moreover have "\<not> healthy_for ?ps ex_request (ideal_live_state\<lparr>probe_unreachable := \<lambda>t. t = ''u''\<rparr>) (ex_target ''u'' False)"
    by (simp add: healthy_for_def ex_target_def)
  then have "''u'' \<notin> set (targets_of (route ?ps ex_ctx ex_request (ideal_live_state\<lparr>probe_unreachable := \<lambda>t. t = ''u''\<rparr>)))"
    unfolding elig using x by auto
  ultimately show ?thesis by blast
qed
section \<open>Every permitted target is accounted for\<close>

lemma mset_map_filter_sum:
  assumes "\<And>t c. ev t = Inr c \<Longrightarrow> f c = t" "\<And>t e. ev t = Inl e \<Longrightarrow> g e = t"
  shows "mset (map f (List.map_filter (\<lambda>t. case ev t of Inr c \<Rightarrow> Some c | Inl _ \<Rightarrow> None) ts)) +
    mset (map g (List.map_filter (\<lambda>t. case ev t of Inl e \<Rightarrow> Some e | Inr _ \<Rightarrow> None) ts)) = mset ts"
  using assms by (induction ts) (auto simp: map_filter_simps split: sum.split)

text \<open>
  C28: routing loses nothing and invents nothing. For an existing alias, each permitted target appears
  exactly once, either as a candidate or as an exclusion carrying its reason; an unauthorized caller
  gets no candidate and the same uninformative reason for every target.
\<close>

theorem route_partition:
  assumes "snapshot_keyed ps" "btree_get (ps_aliases ps) (requested_model req) = Some al"
  shows "mset (targets_of (route ps ctx req live)) +
      mset (map excl_target (ro_exclusions (route ps ctx req live))) = mset (al_permitted_targets al) \<and>
    (\<not> authorizes ps ctx (requested_model req) (req_operation req) \<longrightarrow>
       ro_candidates (route ps ctx req live) = [] \<and>
       list_all (\<lambda>e. excl_reason e = NotAuthorizedForAlias) (ro_exclusions (route ps ctx req live)))"
proof (cases "authorizes ps ctx (requested_model req) (req_operation req)")
  case False
  with assms show ?thesis by (simp add: route_def list_all_iff comp_def)
next
  case True
  note [simp] = mset_map
  have "mset (map cand_target (List.map_filter (\<lambda>t. case ev t of Inr c \<Rightarrow> Some c | Inl _ \<Rightarrow> None) ts)) +
      mset (map excl_target (List.map_filter (\<lambda>t. case ev t of Inl e \<Rightarrow> Some e | Inr _ \<Rightarrow> None) ts)) = mset ts"
    if "ev = evaluate_id ps ctx req al m live" for ev m ts
    using evaluate_id_target [OF snapshot_keyed_get(1) [OF assms(1)]]
    unfolding that by (intro mset_map_filter_sum)
  with True assms(2) show ?thesis
    by (simp add: route_def route_loop_eq Let_def)
qed

theorem route_partition_witness:
  "mset (targets_of (route (ex_policy [ex_binding]) ex_ctx ex_request ideal_live_state)) +
     mset (map excl_target (ro_exclusions (route (ex_policy [ex_binding]) ex_ctx ex_request ideal_live_state)))
   = mset [''v'', ''u'']"
proof -
  have "btree_get (ps_aliases (ex_policy [ex_binding])) (requested_model ex_request) = Some (ex_alias [''v'', ''u''])"
    by (simp add: ex_policy_def ex_request_def btree_get_def)
  from route_partition [OF ex_keyed this, of ex_ctx ideal_live_state] show ?thesis
    by (simp add: ex_alias_def)
qed

section \<open>Sticky denies and pins\<close>

text \<open>
  C2: a deny is sticky. If an applicable binding denies a target, and every applicable binding that
  allows it sits at a strictly lower precedence level, then no binding, preference, pin, hint or
  live condition makes that target a candidate.
\<close>

theorem route_sticky_deny:
  assumes keyed: "snapshot_keyed ps"
    and b: "binding_applies ps ctx (requested_model req) l b" "sel \<in> set (bind_denies b)" "selector_matches sel t"
    and t: "btree_get (ps_targets ps) (tgt_id t) = Some t"
    and allows: "\<forall>l' b'. binding_applies ps ctx (requested_model req) l' b' \<and>
      (\<exists>sel' \<in> set (bind_allows b'). selector_matches sel' t) \<longrightarrow> l < l'"
  shows "tgt_id t \<notin> set (targets_of (route ps ctx req live))"
proof
  assume "tgt_id t \<in> set (targets_of (route ps ctx req live))"
  then obtain c where c: "c \<in> set (ro_candidates (route ps ctx req live))" "cand_target c = tgt_id t" by auto
  from c(1) obtain al tid t' where
    t': "btree_get (ps_targets ps) tid = Some t'"
    and ev: "evaluate ps ctx req al t' (merge_bindings ps ctx (requested_model req)) live = Inr c"
    by (rule route_candidate)
  have "t' = t"
    using t t' evaluate_InrD(2) [OF ev] c(2) snapshot_keyed_get(1) [OF keyed t'] by simp
  moreover have "\<not> is_denied (merge_bindings ps ctx (requested_model req)) t'"
    using evaluate_InrD(1) [OF ev] by (simp add: all_filters_def security_filters_None)
  ultimately show False using merged_denied [OF b allows] by simp
qed

theorem route_sticky_deny_witness:
  "''u'' \<notin> set (targets_of (route (ex_policy [ex_binding, ex_deny]) ex_ctx ex_request ideal_live_state))"
proof -
  let ?ps = "ex_policy [ex_binding, ex_deny]"
  have "binding_applies ?ps ex_ctx (requested_model ex_request) 2 ex_deny"
    by (simp add: ex_defs binding_applies_def precedence_def Let_def)
  moreover have "\<forall>l' b'. binding_applies ?ps ex_ctx (requested_model ex_request) l' b' \<and>
      (\<exists>sel' \<in> set (bind_allows b'). selector_matches sel' (ex_target ''u'' False)) \<longrightarrow> 2 < l'"
    by (auto simp: ex_policy_def ex_binding_def ex_deny_def binding_applies_def)
  ultimately show ?thesis
    using route_sticky_deny [of ?ps ex_ctx ex_request 2 ex_deny "SelExact ''u''" "ex_target ''u'' False",
        OF ex_keyed]
    by (simp add: ex_deny_def ex_target_def ex_policy_def btree_get_def)
qed

definition binding_key :: "nat \<times> binding \<Rightarrow> nat \<times> int \<times> binding_id" where
  "binding_key lb = (fst lb, - bind_priority (snd lb), bind_id (snd lb))"

lemma applicable_bindings_key:
  "applicable_bindings ps ctx al =
     sort_key binding_key
       (List.map_filter (\<lambda>b. map_option (\<lambda>level. (level, b)) (precedence b ctx al))
         (filter (\<lambda>b. bind_scope b \<noteq> Global \<or> ctx_tenant ctx \<in> ps_global_inheritance ps) (ps_bindings ps)))"
proof -
  have "(\<lambda>(level, b). (level, - bind_priority b, bind_id b)) = binding_key"
    by (auto simp: binding_key_def)
  then show ?thesis by (simp add: applicable_bindings_def)
qed

text \<open>The pin comes from the first binding, in precedence order, that declares one.\<close>

lemma fold_merge_pin_kept: "mb_pin m \<noteq> None \<Longrightarrow>
    mb_pin (fold merge_binding lbs m) = mb_pin m \<and> mb_pin_fallback (fold merge_binding lbs m) = mb_pin_fallback m"
proof (induction lbs arbitrary: m)
  case (Cons lb lbs)
  have "mb_pin (merge_binding lb m) = mb_pin m \<and> mb_pin_fallback (merge_binding lb m) = mb_pin_fallback m"
    using Cons.prems
    by (cases lb)
      (auto simp: merge_binding_def merge_pin_def fold_record_rule fold_record_preference Let_def split: option.splits)
  then show ?case using Cons by simp
qed simp

lemma fold_merge_pin:
  assumes "mb_pin m = None" "mb_pin (fold merge_binding lbs m) = Some pin"
  shows "\<exists>pre lb post. lbs = pre @ lb # post \<and> (\<forall>x \<in> set pre. bind_pin (snd x) = None) \<and>
    bind_pin (snd lb) = Some pin \<and>
    mb_pin_fallback (fold merge_binding lbs m) = bind_emergency_fallback (snd lb)"
  using assms
proof (induction lbs arbitrary: m)
  case (Cons lb lbs)
  obtain l b where lb: "lb = (l, b)" by (cases lb)
  let ?m = "merge_binding lb m"
  show ?case
  proof (cases "bind_pin b")
    case None
    then have m: "mb_pin ?m = None" using Cons.prems(1)
      by (simp add: lb merge_binding_def merge_pin_def fold_record_rule fold_record_preference Let_def)
    from Cons.IH [OF m] Cons.prems(2) obtain pre lb' post where
      "lbs = pre @ lb' # post" "\<forall>x \<in> set pre. bind_pin (snd x) = None" "bind_pin (snd lb') = Some pin"
      "mb_pin_fallback (fold merge_binding lbs ?m) = bind_emergency_fallback (snd lb')" by auto
    with None show ?thesis
      by (intro exI [of _ "lb # pre"] exI [of _ lb'] exI [of _ post]) (simp add: lb)
  next
    case (Some q)
    then have m: "mb_pin ?m = Some q" "mb_pin_fallback ?m = bind_emergency_fallback b" using Cons.prems(1)
      by (simp_all add: lb merge_binding_def merge_pin_def fold_record_rule fold_record_preference Let_def)
    with fold_merge_pin_kept [of ?m lbs] Cons.prems(2) Some show ?thesis
      by (intro exI [of _ "[]"] exI [of _ lb] exI [of _ lbs]) (simp add: lb)
  qed
qed simp

lemma merged_pin_binding:
  assumes "mb_pin (merge_bindings ps ctx al) = Some pin"
  obtains l b where "binding_applies ps ctx al l b" "bind_pin b = Some pin"
    "mb_pin_fallback (merge_bindings ps ctx al) = bind_emergency_fallback b"
    "\<And>l' b'. binding_applies ps ctx al l' b' \<Longrightarrow> bind_pin b' \<noteq> None \<Longrightarrow> binding_key (l, b) \<le> binding_key (l', b')"
proof -
  let ?bs = "applicable_bindings ps ctx al"
  from fold_merge_pin [of merged_default ?bs pin] assms obtain pre lb post where
    split: "?bs = pre @ lb # post" and pre: "\<forall>x \<in> set pre. bind_pin (snd x) = None"
    and pin: "bind_pin (snd lb) = Some pin"
    and fb: "mb_pin_fallback (merge_bindings ps ctx al) = bind_emergency_fallback (snd lb)"
    by (auto simp: merge_bindings_def merged_default_def)
  obtain l b where lb: "lb = (l, b)" by (cases lb)
  have srt: "sorted (map binding_key ?bs)" by (simp add: applicable_bindings_key)
  have "binding_key (l, b) \<le> binding_key (l', b')"
    if "binding_applies ps ctx al l' b'" "bind_pin b' \<noteq> None" for l' b'
  proof -
    have "(l', b') \<in> set (lb # post)"
      using that pre by (auto simp: split simp flip: applicable_bindings_set)
    then show ?thesis using srt by (auto simp: split lb sorted_append)
  qed
  moreover have "binding_applies ps ctx al l b"
    by (simp add: split lb flip: applicable_bindings_set)
  ultimately show thesis using that pin fb lb by simp
qed

text \<open>
  C7: a hard pin governs. When a route is pinned, there is one governing binding, first in precedence
  order (level, then priority, then identifier) among the applicable bindings that declare a pin; every
  candidate is its pinned target or one of its own emergency fallbacks, and a fallback is tried only
  after the pinned target: if the pinned target is a candidate at all, it comes first. Without a
  declared fallback an unavailable pin leaves no candidate.
\<close>

theorem route_pin_governs:
  assumes pinned: "ro_pinned (route ps ctx req live)"
    and c: "c \<in> set (ro_candidates (route ps ctx req live))"
  shows "\<exists>l b pin. binding_applies ps ctx (requested_model req) l b \<and> bind_pin b = Some pin \<and>
    (\<forall>l' b'. binding_applies ps ctx (requested_model req) l' b' \<and> bind_pin b' \<noteq> None \<longrightarrow>
       binding_key (l, b) \<le> binding_key (l', b')) \<and>
    (cand_target c = pin \<or> cand_target c \<in> set (bind_emergency_fallback b)) \<and>
    (\<forall>i j. i < j \<and> j < length (ro_candidates (route ps ctx req live)) \<and>
       cand_target (ro_candidates (route ps ctx req live) ! j) = pin \<longrightarrow>
       cand_target (ro_candidates (route ps ctx req live) ! i) = pin)"
proof -
  let ?m = "merge_bindings ps ctx (requested_model req)"
  let ?cs = "ro_candidates (route ps ctx req live)"
  have "mb_pin ?m \<noteq> None"
    using pinned by (auto simp: route_def Let_def split: option.splits if_splits prod.splits)
  then obtain pin where pin: "mb_pin ?m = Some pin" by auto
  have rank: "cand_pin_rank d = (if cand_target d = pin then PIN_TARGET else PIN_FALLBACK)"
    and ok: "cand_target d = pin \<or> cand_target d \<in> set (mb_pin_fallback ?m)" if d: "d \<in> set ?cs" for d
  proof -
    from d obtain al tid t where ev: "evaluate ps ctx req al t ?m live = Inr d" by (rule route_candidate)
    show "cand_pin_rank d = (if cand_target d = pin then PIN_TARGET else PIN_FALLBACK)"
      using evaluate_InrD(2,3) [OF ev] pin by (auto simp: pin_rank_of_def)
    have "\<not> pin_excludes ?m t"
      using evaluate_InrD(1) [OF ev] by (simp add: all_filters_def security_filters_None)
    then show "cand_target d = pin \<or> cand_target d \<in> set (mb_pin_fallback ?m)"
      using evaluate_InrD(2) [OF ev] pin by (auto simp: pin_excludes_def)
  qed
  have "sorted (map ordering_key ?cs)"
    by (auto simp: route_def Let_def split: option.split prod.split)
  then have ord: "cand_pin_rank (?cs ! i) \<le> cand_pin_rank (?cs ! j)" if "i < j" "j < length ?cs" for i j
    using that sorted_nth_mono [of "map ordering_key ?cs" i j] by (auto simp: ordering_key_def less_eq_prod_def)
  have "cand_target (?cs ! i) = pin" if "i < j" "j < length ?cs" "cand_target (?cs ! j) = pin" for i j
    using ord [OF that(1,2)] that rank [of "?cs ! i"] rank [of "?cs ! j"]
    by (auto simp: PIN_TARGET_def PIN_FALLBACK_def split: if_splits)
  moreover obtain l b where "binding_applies ps ctx (requested_model req) l b" "bind_pin b = Some pin"
    "mb_pin_fallback ?m = bind_emergency_fallback b"
    "\<And>l' b'. binding_applies ps ctx (requested_model req) l' b' \<Longrightarrow> bind_pin b' \<noteq> None \<Longrightarrow>
       binding_key (l, b) \<le> binding_key (l', b')"
    using merged_pin_binding [OF pin] by metis
  ultimately show ?thesis using ok [OF c]
    by (intro exI [of _ l] exI [of _ b] exI [of _ pin]) auto
qed

lemma ex_route_pinned:
  "targets_of (route (ex_policy [ex_binding, ex_pin]) ex_ctx ex_request ideal_live_state) = [''u'', ''v''] \<and>
   ro_pinned (route (ex_policy [ex_binding, ex_pin]) ex_ctx ex_request ideal_live_state)"
  by (simp add: ex_defs route_eval)

theorem route_pin_governs_witness:
  "\<exists>l b. binding_applies (ex_policy [ex_binding, ex_pin]) ex_ctx ''x'' l b \<and> bind_pin b \<noteq> None"
proof -
  let ?ps = "ex_policy [ex_binding, ex_pin]"
  obtain c where c: "c \<in> set (ro_candidates (route ?ps ex_ctx ex_request ideal_live_state))"
    using targets_of_mem [of "''u''"] ex_route_pinned by (metis list.set_intros(1))
  from route_pin_governs [OF _ this] ex_route_pinned
  obtain l and b :: binding and pin where "binding_applies ?ps ex_ctx (requested_model ex_request) l b" "bind_pin b = Some pin"
    by blast
  then show ?thesis by (auto simp: ex_request_def)
qed

section \<open>Configuration order does not matter\<close>

lemma distinct_map_via: "(\<And>x. g (f x) = h x) \<Longrightarrow> distinct (map h xs) \<Longrightarrow> distinct (map f xs)"
  by (induction xs) (auto, metis rev_image_eqI)

lemma mset_map_filter: "mset xs = mset ys \<Longrightarrow> mset (List.map_filter f xs) = mset (List.map_filter f ys)"
  by (simp add: List.map_filter_def)

lemma map_filter_tag:
  "map (h \<circ> snd) (List.map_filter (\<lambda>b. map_option (\<lambda>l. (l, b)) (f b)) bs) = map h (filter (\<lambda>b. f b \<noteq> None) bs)"
  by (induction bs) (auto simp: map_filter_simps)

lemma applicable_bindings_perm:
  assumes "mset bs = mset (ps_bindings ps)" "distinct (map bind_id (ps_bindings ps))"
    and "ps_bindings ps' = bs" "ps_global_inheritance ps' = ps_global_inheritance ps"
  shows "applicable_bindings ps' ctx al = applicable_bindings ps ctx al"
  unfolding applicable_bindings_key assms(3,4)
proof (rule sort_key_perm_unique)
  let ?P = "\<lambda>b. bind_scope b \<noteq> Global \<or> ctx_tenant ctx \<in> ps_global_inheritance ps"
  let ?f = "\<lambda>b. map_option (\<lambda>level. (level, b)) (precedence b ctx al)"
  show "mset (List.map_filter ?f (filter ?P bs)) = mset (List.map_filter ?f (filter ?P (ps_bindings ps)))"
    using assms(1) by (intro mset_map_filter) simp
  have "distinct (map bind_id bs)" using assms(1,2) by (metis mset_eq_imp_distinct_iff mset_map)
  then have "distinct (map (bind_id \<circ> snd) (List.map_filter ?f (filter ?P bs)))"
    unfolding map_filter_tag filter_filter by (rule distinct_map_filter)
  then show "distinct (map binding_key (List.map_filter ?f (filter ?P bs)))"
    by (rule distinct_map_via [where g = "\<lambda>(_, _, i). i", rotated]) (simp add: binding_key_def)
qed

lemma authorizes_cong:
  assumes "set (ps_grants ps') = set (ps_grants ps)" "ps_global_inheritance ps' = ps_global_inheritance ps"
  shows "authorizes ps' ctx al op = authorizes ps ctx al op"
proof -
  have "authorizes_best ps' ctx al op best gs = authorizes_best ps ctx al op best gs" for best gs
    using assms(2) by (induction gs arbitrary: best) simp_all
  then show ?thesis
    using alias_auth.run_perm [OF assms(1), of ps ctx al op] by (simp add: authorizes_def)
qed

lemma fleet_access_permits_cong:
  assumes "set (ps_fleet_grants ps') = set (ps_fleet_grants ps)"
    "ps_fleet_placement ps' = ps_fleet_placement ps" "ps_fleet_access_default ps' = ps_fleet_access_default ps"
  shows "fleet_access_permits ps' ctx al t = fleet_access_permits ps ctx al t"
  using fleet.run_perm [OF assms(1)] assms(2,3)
  by (simp add: fleet_access_permits_def fleet_permits_def)

text \<open>A reordered snapshot: same content, other configuration order.\<close>

definition reordered ::
  "binding list \<Rightarrow> alias_grant list \<Rightarrow> fleet_grant list \<Rightarrow> model_alias \<Rightarrow> target_id list \<Rightarrow> policy_snapshot
     \<Rightarrow> policy_snapshot" where
  "reordered bs gs fs al ts ps =
     ps\<lparr>ps_bindings := bs, ps_grants := gs, ps_fleet_grants := fs,
        ps_aliases := btree_insert (al_id al) (al\<lparr>al_permitted_targets := ts\<rparr>) (ps_aliases ps)\<rparr>"

lemma reordered_sel [simp]:
  "ps_providers (reordered bs gs fs al ts ps) = ps_providers ps"
  "ps_targets (reordered bs gs fs al ts ps) = ps_targets ps"
  "ps_allowlisted_targets (reordered bs gs fs al ts ps) = ps_allowlisted_targets ps"
  "ps_weighted_tie_break (reordered bs gs fs al ts ps) = ps_weighted_tie_break ps"
  "ps_max_failure_percent (reordered bs gs fs al ts ps) = ps_max_failure_percent ps"
  "ps_default_document_token_estimate (reordered bs gs fs al ts ps) = ps_default_document_token_estimate ps"
  "ps_activation_effort_headroom_ms (reordered bs gs fs al ts ps) = ps_activation_effort_headroom_ms ps"
  "ps_fleet_placement (reordered bs gs fs al ts ps) = ps_fleet_placement ps"
  by (simp_all add: reordered_def)

lemma evaluate_id_reordered:
  assumes "set fs = set (ps_fleet_grants ps)"
  shows "evaluate_id (reordered bs gs fs al ts ps) ctx req (al\<lparr>al_permitted_targets := ts\<rparr>) m live =
    evaluate_id ps ctx req al m live"
proof -
  let ?ps = "reordered bs gs fs al ts ps"
  have fa: "fleet_access_permits ?ps ctx a t = fleet_access_permits ps ctx a t" for a t
    using assms by (intro fleet_access_permits_cong) (simp_all add: reordered_def)
  have al: "al_id (al\<lparr>al_permitted_targets := ts\<rparr>) = al_id al"
    "al_capability (al\<lparr>al_permitted_targets := ts\<rparr>) = al_capability al"
    "al_allow_family_failover (al\<lparr>al_permitted_targets := ts\<rparr>) = al_allow_family_failover al"
    by simp_all
  have sec: "security_filters ?ps ctx req (al\<lparr>al_permitted_targets := ts\<rparr>) t m = security_filters ps ctx req al t m"
    and cap: "capability_filters ?ps req (al\<lparr>al_permitted_targets := ts\<rparr>) t = capability_filters ps req al t"
    and cpy: "capacity_filters ?ps req t live = capacity_filters ps req t live"
    and res: "residency_filters ?ps ctx req t live = residency_filters ps ctx req t live"
    and sco: "score ?ps req t l r w p c live = score ps req t l r w p c live" for t l r w p c
    by (simp_all only: security_filters_def fa key_refuses_def family_failover_refused_def
        capability_filters_def capacity_filters_def residency_filters_def score_def reordered_sel
        al)
  have "evaluate ?ps ctx req (al\<lparr>al_permitted_targets := ts\<rparr>) t m live = evaluate ps ctx req al t m live" for t
    by (simp only: evaluate_def all_filters_def sec cap cpy res sco)
  then show ?thesis by (intro ext) (simp only: evaluate_id_def reordered_sel)
qed

lemma map_filter_distinct_key:
  assumes "distinct ts" "\<And>t c. f t = Some c \<Longrightarrow> g (h c) = t"
  shows "distinct (map h (List.map_filter f ts))"
  using assms(1)
proof (induction ts)
  case (Cons t ts)
  have "h c \<notin> h ` set (List.map_filter f ts)" if "f t = Some c" for c
    using Cons.prems assms(2) that by (auto simp: map_filter_set) metis
  with Cons show ?case by (auto simp: map_filter_simps split: option.split)
qed (simp add: map_filter_simps)

text \<open>
  C5: routing is deterministic and never infers order from configuration order. Permuting the bindings
  (with distinct identifiers), the alias grants, the fleet grants or the alias's target list leaves the
  candidates, their order and the pin flag unchanged, and for an authorized caller the exclusions too.
\<close>

theorem route_order_independent:
  assumes keyed: "snapshot_keyed ps"
    and al: "btree_get (ps_aliases ps) (requested_model req) = Some al"
    and bs: "mset bs = mset (ps_bindings ps)" "distinct (map bind_id (ps_bindings ps))"
    and gs: "set gs = set (ps_grants ps)" and fs: "set fs = set (ps_fleet_grants ps)"
    and ts: "mset ts = mset (al_permitted_targets al)" "distinct ts"
  shows "ro_candidates (route (reordered bs gs fs al ts ps) ctx req live) = ro_candidates (route ps ctx req live) \<and>
    ro_pinned (route (reordered bs gs fs al ts ps) ctx req live) = ro_pinned (route ps ctx req live) \<and>
    (authorizes ps ctx (requested_model req) (req_operation req) \<longrightarrow>
       route (reordered bs gs fs al ts ps) ctx req live = route ps ctx req live)"
proof -
  let ?ps = "reordered bs gs fs al ts ps" and ?ts = "al_permitted_targets al"
  let ?m = "merge_bindings ps ctx (requested_model req)"
  let ?ev = "evaluate_id ps ctx req al ?m live"
  let ?fc = "\<lambda>t. case ?ev t of Inr c \<Rightarrow> Some c | Inl _ \<Rightarrow> None"
  let ?fe = "\<lambda>t. case ?ev t of Inl e \<Rightarrow> Some e | Inr _ \<Rightarrow> None"
  have id: "al_id al = requested_model req" using snapshot_keyed_get(2) [OF keyed al] .
  have al': "btree_get (ps_aliases ?ps) (requested_model req) = Some (al\<lparr>al_permitted_targets := ts\<rparr>)"
    by (simp add: reordered_def btree_get_insert id)
  have au: "authorizes ?ps ctx a op = authorizes ps ctx a op" for a op
    using gs by (intro authorizes_cong) (simp_all add: reordered_def)
  have m: "merge_bindings ?ps ctx a = merge_bindings ps ctx a" for a
    using applicable_bindings_perm [OF bs, of ?ps] by (simp add: merge_bindings_def reordered_def)
  have cs: "sort_key ordering_key (List.map_filter ?fc ts) = sort_key ordering_key (List.map_filter ?fc ?ts)"
    using ts evaluate_id_target(1) [OF snapshot_keyed_get(1) [OF keyed]]
    by (intro sort_key_perm_unique mset_map_filter map_filter_distinct_key [where g = "\<lambda>(_, _, t). t"])
      (auto simp: ordering_key_def)
  have es: "sort_key (\<lambda>e. (excl_target e, excl_reason e)) (List.map_filter ?fe ts) =
      sort_key (\<lambda>e. (excl_target e, excl_reason e)) (List.map_filter ?fe ?ts)"
    using ts evaluate_id_target(2) [OF snapshot_keyed_get(1) [OF keyed]]
    by (intro sort_key_perm_unique mset_map_filter map_filter_distinct_key [where g = fst]) auto
  show ?thesis
  proof (cases "authorizes ps ctx (requested_model req) (req_operation req)")
    case True
    have "route ?ps ctx req live = route ps ctx req live"
      using True by (simp add: route_def al al' au m evaluate_id_reordered [OF fs] route_loop_eq cs es Let_def)
    then show ?thesis by simp
  next
    case False
    then show ?thesis by (simp add: route_def al al' au)
  qed
qed

theorem route_order_independent_witness:
  "route (reordered [ex_deny, ex_binding] (ps_grants (ex_policy [])) [] (ex_alias [''v'', ''u'']) [''u'', ''v'']
       (ex_policy [ex_binding, ex_deny])) ex_ctx ex_request ideal_live_state =
   route (ex_policy [ex_binding, ex_deny]) ex_ctx ex_request ideal_live_state"
proof -
  let ?ps = "ex_policy [ex_binding, ex_deny]"
  have "btree_get (ps_aliases ?ps) (requested_model ex_request) = Some (ex_alias [''v'', ''u''])"
    "mset [ex_deny, ex_binding] = mset (ps_bindings ?ps)" "distinct (map bind_id (ps_bindings ?ps))"
    "set (ps_grants (ex_policy [])) = set (ps_grants ?ps)" "set [] = set (ps_fleet_grants ?ps)"
    "mset [''u'', ''v''] = mset (al_permitted_targets (ex_alias [''v'', ''u'']))" "distinct [''u'', ''v'']"
    by (simp_all add: ex_policy_def ex_request_def ex_alias_def ex_deny_def ex_binding_def btree_get_def
        snapshot_empty_def add_mset_commute)
  moreover have "authorizes ?ps ex_ctx (requested_model ex_request) (req_operation ex_request)"
    by (simp add: ex_policy_def ex_request_def ex_ctx_def authorizes_def covers_def grant_precedence_def
        resolve_step_def)
  ultimately show ?thesis using route_order_independent [OF ex_keyed] by metis
qed

section \<open>A key only narrows\<close>

abbreviation without_key :: "routing_context \<Rightarrow> routing_context" where
  "without_key ctx \<equiv> ctx\<lparr>ctx_key := None\<rparr>"

lemma precedence_without_key [simp]:
  "precedence b (without_key ctx) al = precedence b ctx al"
  "grant_precedence g (without_key ctx) al = grant_precedence g ctx al"
  by (simp_all add: precedence_def grant_precedence_def Let_def split: binding_scope.split)

lemma authorizes_without_key:
  "authorizes ps ctx al op \<Longrightarrow> authorizes ps (without_key ctx) al op"
proof -
  have "authorizes_best ps (without_key ctx) al op best gs = authorizes_best ps ctx al op best gs" for best gs
    by (induction gs arbitrary: best) simp_all
  then show "authorizes ps ctx al op \<Longrightarrow> authorizes ps (without_key ctx) al op"
    by (simp add: authorizes_def split: if_splits)
qed

lemma fleet_permits_without_key: "fleet_permits gs d (without_key ctx) al t h = fleet_permits gs d ctx al t h"
proof -
  have scope: "fleet_scope_level (without_key ctx) s = fleet_scope_level ctx s" for s by (cases s) simp_all
  have lvl: "fleet_grant_level (without_key ctx) al t h g = fleet_grant_level ctx al t h g" for g
    by (simp only: fleet_grant_level_def scope)
  have "fleet_best (without_key ctx) al t h best gs = fleet_best ctx al t h best gs" for best
    by (induction gs arbitrary: best) (simp_all add: lvl)
  then show ?thesis by (simp add: fleet_permits_def)
qed

lemma fleet_access_without_key:
  "fleet_access_permits ps ctx al t \<Longrightarrow> fleet_access_permits ps (without_key ctx) al t"
  by (cases "btree_get (ps_fleet_placement ps) t")
    (simp_all add: fleet_access_permits_def fleet_permits_without_key)

lemma merge_without_key: "merge_bindings ps (without_key ctx) al = merge_bindings ps ctx al"
  by (simp add: merge_bindings_def applicable_bindings_def)

lemma evaluate_without_key:
  assumes "evaluate ps ctx req al t m live = Inr c"
  shows "evaluate ps (without_key ctx) req al t m live = Inr c"
proof -
  have f: "all_filters ps ctx req al t m live = None" by (rule evaluate_InrD(1) [OF assms])
  have fam: "family_failover_refused ps (without_key ctx) al t prov = family_failover_refused ps ctx al t prov" for prov
    by (simp add: family_failover_refused_def)
  have "security_filters ps (without_key ctx) req al t m = None"
    using f fleet_access_without_key [of ps ctx "al_id al" "tgt_id t"]
    by (auto simp: all_filters_def security_filters_None fam key_refuses_def)
  moreover have "admin_filters (without_key ctx) t live = None"
    "residency_filters ps (without_key ctx) req t live = None"
    using f by (simp_all add: all_filters_def admin_filters_None residency_filters_None remaining_ms_def)
  ultimately have "all_filters ps (without_key ctx) req al t m live = None"
    using f by (simp add: all_filters_def)
  with f assms show ?thesis by (simp add: evaluate_def)
qed

text \<open>
  C29: an API key restriction can only narrow. Every candidate, with its score and rank, that a caller
  using a restricted key obtains is also a candidate of the same caller without the restriction, and
  the effective priority class is never better than the principal's own.
\<close>

theorem key_only_narrows:
  "set (ro_candidates (route ps ctx req live)) \<subseteq> set (ro_candidates (route ps (without_key ctx) req live)) \<and>
   cls \<le> cap_priority key cls"
proof -
  have "c \<in> set (ro_candidates (route ps (without_key ctx) req live))"
    if c: "c \<in> set (ro_candidates (route ps ctx req live))" for c
  proof -
    from c obtain al tid t where
      al: "btree_get (ps_aliases ps) (requested_model req) = Some al"
      and au: "authorizes ps ctx (requested_model req) (req_operation req)"
      and t: "tid \<in> set (al_permitted_targets al)" "btree_get (ps_targets ps) tid = Some t"
      and ev: "evaluate ps ctx req al t (merge_bindings ps ctx (requested_model req)) live = Inr c"
      by (rule route_candidate)
    show ?thesis
      unfolding route_candidate_iff [OF al authorizes_without_key [OF au]] merge_without_key
      using t evaluate_without_key [OF ev] by blast
  qed
  then show ?thesis by (auto simp: cap_priority_def split: option.split)
qed

section \<open>Ranking\<close>

text \<open>
  C40: administrator rank decides before any live condition. In the ordered candidate list, pinned candidates precede
  fallbacks, and among candidates of equal pin standing a candidate with a better preference rank always precedes one
  with a worse rank, whatever their health, latency, queue, cost, locality, affinity and jitter terms. Ranks count up to
  the cap of 64: ranks of 64 and more are equal. Candidates of equal rank come in the order of their scores, and equal
  scores in the order of target identifiers.
\<close>

theorem route_rank_order:
  assumes "i < j" "j < length (ro_candidates (route ps ctx req live))"
    and "a = ro_candidates (route ps ctx req live) ! i" "b = ro_candidates (route ps ctx req live) ! j"
  shows "cand_pin_rank a \<le> cand_pin_rank b \<and>
    (cand_pin_rank a = cand_pin_rank b \<longrightarrow>
       min (cand_rank a) 64 \<le> min (cand_rank b) 64 \<and>
       cand_score b \<le> cand_score a \<and>
       (cand_score a = cand_score b \<longrightarrow> cand_target a \<le> cand_target b))"
proof -
  let ?cs = "ro_candidates (route ps ctx req live)"
  have "sorted (map ordering_key ?cs)"
    by (auto simp: route_def Let_def split: option.split prod.split)
  then have le: "ordering_key a \<le> ordering_key b"
    using assms sorted_nth_mono [of "map ordering_key ?cs" i j] by simp
  have terms: "\<exists>ts. cand_terms c = clamped ts \<and> priority_rank ts = rank_term (cand_rank c)"
    if "c \<in> set ?cs" for c
  proof -
    from that obtain al tid t where
      "evaluate ps ctx req al t (merge_bindings ps ctx (requested_model req)) live = Inr c"
      by (rule route_candidate)
    from evaluate_InrD(4) [OF this] obtain l w p res where c: "c = score ps req t l (cand_rank c) w p res live"
      by metis
    show ?thesis by (subst c, subst (2) c) (auto simp: score_def Let_def)
  qed
  have mem: "a \<in> set ?cs" "b \<in> set ?cs" using assms by auto
  from terms [OF mem(1)] terms [OF mem(2)] obtain ta tb where
    t: "cand_terms a = clamped ta" "priority_rank ta = rank_term (cand_rank a)"
       "cand_terms b = clamped tb" "priority_rank tb = rank_term (cand_rank b)" by blast
  have "cand_score a < cand_score b" if "cand_rank b < cand_rank a" "int (cand_rank b) < MAX_RANK"
    using rank_beats_total [OF t(4,2) that] t(1,3) by (simp add: cand_score_def)
  then have "min (cand_rank a) 64 \<le> min (cand_rank b) 64" if "cand_score b \<le> cand_score a"
    using that by (cases "cand_rank b < cand_rank a \<and> cand_rank b < 64") (auto simp: MAX_RANK_def)
  with le show ?thesis by (force simp: ordering_key_def less_eq_prod_def)
qed

theorem route_rank_order_witness:
  "length (ro_candidates (route (ex_policy [ex_binding]) ex_ctx ex_request ideal_live_state)) = 2 \<and>
   cand_pin_rank (ro_candidates (route (ex_policy [ex_binding]) ex_ctx ex_request ideal_live_state) ! 0) \<le>
   cand_pin_rank (ro_candidates (route (ex_policy [ex_binding]) ex_ctx ex_request ideal_live_state) ! 1)"
proof -
  have len: "length (ro_candidates (route (ex_policy [ex_binding]) ex_ctx ex_request ideal_live_state)) = 2"
    using arg_cong [OF ex_route, of length] by simp
  then show ?thesis using route_rank_order [OF _ _ refl refl, of 0 1] by simp
qed

section \<open>The models list\<close>

text \<open>
  The models list agrees with routing. An alias that routes to at least one candidate is listed for
  the caller, everything listed is authorized for the caller, and each listed alias has a permitted
  target that the caller's key and fleet grants admit.
\<close>

theorem models_list_agrees:
  assumes "snapshot_keyed ps"
  shows "(ro_candidates (route ps ctx req live) \<noteq> [] \<longrightarrow>
      (\<exists>al \<in> set (servable_aliases ps ctx (req_operation req)). al_id al = requested_model req)) \<and>
    (\<forall>al \<in> set (servable_aliases ps ctx op). authorizes ps ctx (al_id al) op \<and>
      (\<exists>t \<in> set (al_permitted_targets al). is_none_or (\<lambda>key. permits_target key t) (ctx_key ctx) \<and>
         fleet_access_permits ps ctx (al_id al) t))"
proof (intro conjI impI ballI)
  assume "ro_candidates (route ps ctx req live) \<noteq> []"
  then obtain c where "c \<in> set (ro_candidates (route ps ctx req live))"
    using hd_in_set by blast
  then obtain al tid t where
    al: "btree_get (ps_aliases ps) (requested_model req) = Some al"
    and au: "authorizes ps ctx (requested_model req) (req_operation req)"
    and t: "tid \<in> set (al_permitted_targets al)" "btree_get (ps_targets ps) tid = Some t"
    and ev: "evaluate ps ctx req al t (merge_bindings ps ctx (requested_model req)) live = Inr c"
    by (rule route_candidate)
  have id: "al_id al = requested_model req" "tgt_id t = tid"
    using snapshot_keyed_get [OF assms] al t(2) by auto
  have "fleet_access_permits ps ctx (al_id al) tid" "\<not> key_refuses ps ctx t"
    using evaluate_InrD(1) [OF ev] id by (auto simp: all_filters_def security_filters_None)
  moreover from this(2) have "is_none_or (\<lambda>key. permits_target key tid) (ctx_key ctx)"
    using id by (cases "ctx_key ctx") (auto simp: key_refuses_def)
  ultimately have "al \<in> set (servable_aliases ps ctx (req_operation req))"
    using au id t(1) btree_get_values [OF al]
    by (auto simp: servable_aliases_def visible_aliases_def list_ex_iff)
  with id show "\<exists>al \<in> set (servable_aliases ps ctx (req_operation req)). al_id al = requested_model req" by blast
qed (auto simp: servable_aliases_def visible_aliases_def list_ex_iff)

theorem models_list_agrees_witness:
  "\<exists>al \<in> set (servable_aliases (ex_policy [ex_binding]) ex_ctx (req_operation ex_request)). al_id al = ''x''"
proof -
  have "ro_candidates (route (ex_policy [ex_binding]) ex_ctx ex_request ideal_live_state) \<noteq> []"
    using ex_route by force
  with models_list_agrees [OF ex_keyed] have
    "\<exists>al \<in> set (servable_aliases (ex_policy [ex_binding]) ex_ctx (req_operation ex_request)).
       al_id al = requested_model ex_request" by blast
  then show ?thesis by (simp add: ex_request_def)
qed

end
