(* ===== verification/Budget.thy ===== *)
theory Budget
  imports Errors Ids
begin

text \<open>
  The per-key token budget ledger (\<open>hypellm-core/src/budget.rs\<close>).

  The journal is a trait the router implements over its store. Whether a commit succeeds is an
  argument of every operation that commits (\<open>ok\<close>, per key for \<open>flush\<close>), and the records that were
  committed are kept in \<open>lg_journal\<close>, in order, so that a crash is the replay of that list into an
  empty ledger. The ledger's mutex makes each operation one atomic step; a poisoned mutex (a panic
  while it is held) is not modelled.
\<close>

section \<open>Payment instructions\<close>

definition MAX_TOKENS :: nat where "MAX_TOKENS = u64_max div 2"
definition DEFAULT_DRAW_TOKENS :: nat where "DEFAULT_DRAW_TOKENS = 1048576"
definition MAX_PAYMENT_MESSAGE_BYTES :: nat where "MAX_PAYMENT_MESSAGE_BYTES = 512"
definition MAX_PAYMENT_URL_BYTES :: nat where "MAX_PAYMENT_URL_BYTES = 512"

datatype payment_error = PaymentMessage | PaymentUrl

text \<open>
  \<open>char::is_control\<close> over the UTF-8 bytes: the C0 controls and DEL are single bytes, the C1 controls
  are the two-byte sequences C2 80 to C2 9F.
\<close>

fun has_control :: "string \<Rightarrow> bool" where
  "has_control [] = False"
| "has_control [b] = (of_char b < (32::nat) \<or> of_char b = (127::nat))"
| "has_control (b # b' # bs) =
     (of_char b < (32::nat) \<or> of_char b = (127::nat) \<or>
      of_char b = (194::nat) \<and> 128 \<le> (of_char b' :: nat) \<and> (of_char b' :: nat) \<le> 159 \<or>
      has_control (b' # bs))"

definition strip_prefix :: "string \<Rightarrow> string \<Rightarrow> string option" where
  "strip_prefix p s = (if take (length p) s = p then Some (drop (length p) s) else None)"

definition is_ascii_graphic :: "char \<Rightarrow> bool" where
  "is_ascii_graphic c = (let n = of_char c :: nat in 33 \<le> n \<and> n \<le> 126)"

definition url_forbidden :: "char list" where
  "url_forbidden = [CHR 0x22, CHR ''<'', CHR ''>'', CHR 0x5C, CHR 0x60]"

definition url_ends_authority :: "char \<Rightarrow> bool" where
  "url_ends_authority c = (c = CHR ''/'' \<or> c = CHR ''?'' \<or> c = CHR ''#'')"

definition url_authority :: "string \<Rightarrow> string" where
  "url_authority rest = takeWhile (\<lambda>c. \<not> url_ends_authority c) rest"

definition host_byte_ok :: "char \<Rightarrow> bool" where
  "host_byte_ok b = (is_ascii_alphanumeric b \<or> b = CHR ''.'' \<or> b = CHR ''-'')"

text \<open>\<open>host.split('.').all(|label| !label.is_empty())\<close>.\<close>

fun split_on :: "char \<Rightarrow> string \<Rightarrow> string list" where
  "split_on d [] = [[]]"
| "split_on d (c # cs) =
     (if c = d then [] # split_on d cs
      else case split_on d cs of [] \<Rightarrow> [[c]] | w # ws \<Rightarrow> (c # w) # ws)"

definition split_once :: "char \<Rightarrow> string \<Rightarrow> (string \<times> string) option" where
  "split_once d s =
     (case dropWhile (\<lambda>c. c \<noteq> d) s of [] \<Rightarrow> None | _ # rest \<Rightarrow> Some (takeWhile (\<lambda>c. c \<noteq> d) s, rest))"

definition port_ok :: "string \<Rightarrow> bool" where
  "port_ok port = (port \<noteq> [] \<and> length port \<le> 5 \<and> list_all is_ascii_digit port)"

definition is_https_url :: "string \<Rightarrow> bool" where
  "is_https_url url =
     (if length url > MAX_PAYMENT_URL_BYTES then False
      else case strip_prefix ''https://'' url of
             None \<Rightarrow> False
           | Some rest \<Rightarrow>
               if \<not> list_all (\<lambda>b. is_ascii_graphic b \<and> b \<notin> set url_forbidden) rest then False
               else
                 let authority = url_authority rest;
                     (host, port) = (case split_once (CHR '':'') authority of
                        Some (h, p) \<Rightarrow> (h, Some p) | None \<Rightarrow> (authority, None))
                 in is_none_or port_ok port \<and> host \<noteq> [] \<and> list_all host_byte_ok host \<and>
                    list_all (\<lambda>label. label \<noteq> []) (split_on (CHR ''.'') host))"

definition payment_new ::
  "string option \<Rightarrow> string option \<Rightarrow> payment_error + payment_instructions option" where
  "payment_new msg url =
     (if is_some_and (\<lambda>m. m = [] \<or> length m > MAX_PAYMENT_MESSAGE_BYTES \<or> has_control m) msg
      then Inl PaymentMessage
      else if is_some_and (\<lambda>u. \<not> is_https_url u) url then Inl PaymentUrl
      else if msg = None \<and> url = None then Inr None
      else Inr (Some \<lparr>pay_message = msg, pay_url = url\<rparr>))"

section \<open>Records, views and results\<close>

record credit_receipt =
  rc_idempotency_key :: string
  rc_request_digest :: string
  rc_tokens :: nat
  rc_limit_after :: nat
  rc_revision_after :: nat
  rc_at_millis :: nat
  rc_actor :: string
  rc_reason :: "string option"

record budget_record =
  br_key :: key_id
  br_tenant :: tenant_id
  br_limit :: "nat option"
  br_drawn :: nat
  br_revision :: nat
  br_payment :: "payment_instructions option"
  br_receipt :: "credit_receipt option"

record budget_view =
  bv_limit :: "nat option"
  bv_consumed :: nat
  bv_reserved :: nat
  bv_revision :: nat
  bv_payment :: "payment_instructions option"

definition remaining :: "budget_view \<Rightarrow> nat option" where
  "remaining v = map_option (\<lambda>l. l - bv_consumed v - bv_reserved v) (bv_limit v)"

datatype budget_refusal = Exhausted "payment_instructions option" | RefusalUnavailable

datatype budget_mutation_error =
  RevisionChanged | Unlimited | InvalidAmount | Overflow | IdempotencyConflict | MutationUnavailable

record credit_outcome =
  co_receipt :: credit_receipt
  co_view :: budget_view
  co_replayed :: bool

record settlement =
  st_charged :: nat
  st_overrun :: nat
  st_durable :: bool

section \<open>The ledger\<close>

record budget_entry =
  en_tenant :: tenant_id
  en_limit :: "nat option"
  en_drawn :: nat
  en_revision :: nat
  en_payment :: "payment_instructions option"
  en_consumed :: nat
  en_reserved :: nat
  en_undurable :: bool
  en_receipts :: "(string, credit_receipt) btree_map"

definition entry_new :: "tenant_id \<Rightarrow> budget_entry" where
  "entry_new tenant =
     \<lparr>en_tenant = tenant, en_limit = None, en_drawn = 0, en_revision = 0, en_payment = None,
      en_consumed = 0, en_reserved = 0, en_undurable = False, en_receipts = []\<rparr>"

definition held :: "budget_entry \<Rightarrow> nat" where
  "held e = min (sat_add64 (en_consumed e) (en_reserved e)) MAX_TOKENS"

definition entry_view :: "budget_entry \<Rightarrow> budget_view" where
  "entry_view e =
     \<lparr>bv_limit = en_limit e, bv_consumed = en_consumed e, bv_reserved = en_reserved e,
      bv_revision = en_revision e, bv_payment = en_payment e\<rparr>"

definition entry_record :: "budget_entry \<Rightarrow> key_id \<Rightarrow> nat \<Rightarrow> budget_record" where
  "entry_record e key drawn =
     \<lparr>br_key = key, br_tenant = en_tenant e, br_limit = en_limit e, br_drawn = drawn,
      br_revision = en_revision e, br_payment = en_payment e, br_receipt = None\<rparr>"

record budget_ledger =
  lg_draw_tokens :: nat
  lg_entries :: "(key_id, budget_entry) btree_map"
  lg_journal :: "budget_record list"

definition ledger_new :: "nat \<Rightarrow> budget_ledger" where
  "ledger_new draw_tokens = \<lparr>lg_draw_tokens = min draw_tokens MAX_TOKENS, lg_entries = [], lg_journal = []\<rparr>"

text \<open>\<open>entries.entry(key).or_insert_with(..)\<close>: the entry, and the write-back of an updated one.\<close>

definition entry_or_new :: "budget_ledger \<Rightarrow> key_id \<Rightarrow> tenant_id \<Rightarrow> budget_entry" where
  "entry_or_new lg key tenant = unwrap_or (entry_new tenant) (btree_get (lg_entries lg) key)"

definition put_entry :: "key_id \<Rightarrow> budget_entry \<Rightarrow> budget_ledger \<Rightarrow> budget_ledger" where
  "put_entry key e lg = lg\<lparr>lg_entries := btree_insert key e (lg_entries lg)\<rparr>"

definition commit :: "budget_record \<Rightarrow> budget_ledger \<Rightarrow> budget_ledger" where
  "commit r lg = lg\<lparr>lg_journal := lg_journal lg @ [r]\<rparr>"

definition restored :: "budget_entry \<Rightarrow> budget_record \<Rightarrow> budget_entry" where
  "restored e r =
     (let drawn = min (br_drawn r) MAX_TOKENS
      in e\<lparr>en_tenant := br_tenant r,
           en_limit := map_option (\<lambda>l. min l MAX_TOKENS) (br_limit r),
           en_drawn := drawn, en_revision := br_revision r, en_payment := br_payment r,
           en_consumed := drawn, en_reserved := 0, en_undurable := False,
           en_receipts := (case br_receipt r of
              None \<Rightarrow> en_receipts e
            | Some rc \<Rightarrow> btree_insert (rc_idempotency_key rc) rc (en_receipts e))\<rparr>)"

definition restore :: "budget_record \<Rightarrow> budget_ledger \<Rightarrow> budget_ledger" where
  "restore r lg = put_entry (br_key r) (restored (entry_or_new lg (br_key r) (br_tenant r)) r) lg"

text \<open>A restart: every committed record, in order, into an empty ledger.\<close>

definition replay :: "budget_record list \<Rightarrow> budget_ledger \<Rightarrow> budget_ledger" where
  "replay rs lg = fold restore rs lg"

record budget_reservation =
  rv_key :: key_id
  rv_tokens :: nat

definition reserve ::
  "budget_ledger \<Rightarrow> key_id \<Rightarrow> tenant_id \<Rightarrow> nat \<Rightarrow> bool \<Rightarrow> (budget_refusal + budget_reservation) \<times> budget_ledger" where
  "reserve lg key tenant tokens ok =
     (let e = entry_or_new lg key tenant;
          lg0 = put_entry key e lg;
          hd = held e;
          needed = hd + tokens
      in if needed > u64_max \<or> needed > MAX_TOKENS then (Inl (Exhausted (en_payment e)), lg0)
         else if is_some_and (\<lambda>l. hd \<ge> l \<or> needed > l) (en_limit e)
           then (Inl (Exhausted (en_payment e)), lg0)
         else if needed > en_drawn e \<or> en_undurable e then
           let headroom = (case en_limit e of
                  Some l \<Rightarrow> min (lg_draw_tokens lg) ((l - needed) div 8)
                | None \<Rightarrow> lg_draw_tokens lg);
               drawn = max (min (sat_add64 needed headroom) MAX_TOKENS) (en_drawn e)
           in if \<not> ok then (Inl RefusalUnavailable, lg0)
              else (Inr \<lparr>rv_key = key, rv_tokens = tokens\<rparr>,
                    commit (entry_record e key drawn)
                      (put_entry key (e\<lparr>en_drawn := drawn, en_undurable := False,
                         en_reserved := sat_add64 (en_reserved e) tokens\<rparr>) lg))
         else (Inr \<lparr>rv_key = key, rv_tokens = tokens\<rparr>,
               put_entry key (e\<lparr>en_reserved := sat_add64 (en_reserved e) tokens\<rparr>) lg))"

definition finish :: "budget_ledger \<Rightarrow> key_id \<Rightarrow> nat \<Rightarrow> nat \<Rightarrow> bool \<Rightarrow> settlement \<times> budget_ledger" where
  "finish lg key reserved charged ok =
     (let overrun = charged - reserved
      in case btree_get (lg_entries lg) key of
           None \<Rightarrow> (\<lparr>st_charged = charged, st_overrun = overrun, st_durable = False\<rparr>, lg)
         | Some e \<Rightarrow>
             let e1 = e\<lparr>en_reserved := en_reserved e - reserved,
                        en_consumed := min (sat_add64 (en_consumed e) charged) MAX_TOKENS\<rparr>;
                 hd = held e1
             in if hd > en_drawn e1 then
                  let e2 = e1\<lparr>en_drawn := hd, en_undurable := \<not> ok\<rparr>;
                      lg1 = put_entry key e2 lg
                  in (\<lparr>st_charged = charged, st_overrun = overrun, st_durable = ok\<rparr>,
                      if ok then commit (entry_record e2 key hd) lg1 else lg1)
                else (\<lparr>st_charged = charged, st_overrun = overrun, st_durable = \<not> en_undurable e1\<rparr>,
                      put_entry key e1 lg))"

definition settle :: "budget_ledger \<Rightarrow> budget_reservation \<Rightarrow> nat \<Rightarrow> bool \<Rightarrow> settlement \<times> budget_ledger" where
  "settle lg r actual ok = finish lg (rv_key r) (rv_tokens r) actual ok"

text \<open>Also what \<open>Drop\<close> does for a reservation no path finished.\<close>

definition retain :: "budget_ledger \<Rightarrow> budget_reservation \<Rightarrow> bool \<Rightarrow> settlement \<times> budget_ledger" where
  "retain lg r ok = finish lg (rv_key r) (rv_tokens r) (rv_tokens r) ok"

definition release :: "budget_ledger \<Rightarrow> budget_reservation \<Rightarrow> bool \<Rightarrow> budget_ledger" where
  "release lg r ok = snd (finish lg (rv_key r) (rv_tokens r) 0 ok)"

definition ledger_view :: "budget_ledger \<Rightarrow> key_id \<Rightarrow> budget_view" where
  "ledger_view lg key =
     (case btree_get (lg_entries lg) key of
        None \<Rightarrow> \<lparr>bv_limit = None, bv_consumed = 0, bv_reserved = 0, bv_revision = 0, bv_payment = None\<rparr>
      | Some e \<Rightarrow> entry_view e)"

definition ledger_set ::
  "budget_ledger \<Rightarrow> key_id \<Rightarrow> tenant_id \<Rightarrow> nat option \<Rightarrow> nat option \<Rightarrow> payment_instructions option \<Rightarrow> bool
     \<Rightarrow> (budget_mutation_error + budget_view) \<times> budget_ledger" where
  "ledger_set lg key tenant expected lim payment ok =
     (if is_some_and (\<lambda>l. l > MAX_TOKENS) lim then (Inl InvalidAmount, lg)
      else
        let e = entry_or_new lg key tenant;
            lg0 = put_entry key e lg
        in if is_some_and (\<lambda>x. x \<noteq> en_revision e) expected then (Inl RevisionChanged, lg0)
           else if en_revision e + 1 > u64_max then (Inl Overflow, lg0)
           else
             let revision = en_revision e + 1;
                 drawn = held e;
                 r = \<lparr>br_key = key, br_tenant = en_tenant e, br_limit = lim, br_drawn = drawn,
                      br_revision = revision, br_payment = payment, br_receipt = None\<rparr>
             in if \<not> ok then (Inl MutationUnavailable, lg0)
                else
                  let e1 = e\<lparr>en_limit := lim, en_payment := payment, en_revision := revision,
                             en_drawn := drawn, en_undurable := False\<rparr>
                  in (Inr (entry_view e1), commit r (put_entry key e1 lg)))"

definition receipt :: "budget_ledger \<Rightarrow> key_id \<Rightarrow> string \<Rightarrow> credit_receipt option" where
  "receipt lg key ik =
     (case btree_get (lg_entries lg) key of None \<Rightarrow> None | Some e \<Rightarrow> btree_get (en_receipts e) ik)"

record credit_request =
  cr_key :: key_id
  cr_tenant :: tenant_id
  cr_expected_revision :: "nat option"
  cr_tokens :: nat
  cr_idempotency_key :: string
  cr_request_digest :: string
  cr_reason :: "string option"
  cr_actor :: string
  cr_at_millis :: nat

definition credit ::
  "budget_ledger \<Rightarrow> credit_request \<Rightarrow> bool \<Rightarrow> (budget_mutation_error + credit_outcome) \<times> budget_ledger" where
  "credit lg c ok =
     (let key = cr_key c;
          e = entry_or_new lg key (cr_tenant c);
          lg0 = put_entry key e lg
      in case btree_get (en_receipts e) (cr_idempotency_key c) of
           Some rc \<Rightarrow>
             if rc_request_digest rc \<noteq> cr_request_digest c then (Inl IdempotencyConflict, lg0)
             else (Inr \<lparr>co_receipt = rc, co_view = entry_view e, co_replayed = True\<rparr>, lg0)
         | None \<Rightarrow>
             if is_some_and (\<lambda>x. x \<noteq> en_revision e) (cr_expected_revision c) then (Inl RevisionChanged, lg0)
             else if cr_tokens c = 0 \<or> cr_tokens c > MAX_TOKENS then (Inl InvalidAmount, lg0)
             else case en_limit e of
               None \<Rightarrow> (Inl Unlimited, lg0)
             | Some l \<Rightarrow>
                 if l + cr_tokens c > u64_max \<or> l + cr_tokens c > MAX_TOKENS then (Inl Overflow, lg0)
                 else if en_revision e + 1 > u64_max then (Inl Overflow, lg0)
                 else
                   let limit_after = l + cr_tokens c;
                       revision = en_revision e + 1;
                       rc = \<lparr>rc_idempotency_key = cr_idempotency_key c, rc_request_digest = cr_request_digest c,
                             rc_tokens = cr_tokens c, rc_limit_after = limit_after,
                             rc_revision_after = revision, rc_at_millis = cr_at_millis c,
                             rc_actor = cr_actor c, rc_reason = cr_reason c\<rparr>;
                       drawn = held e;
                       r = \<lparr>br_key = key, br_tenant = en_tenant e, br_limit = Some limit_after,
                            br_drawn = drawn, br_revision = revision, br_payment = en_payment e,
                            br_receipt = Some rc\<rparr>
                   in if \<not> ok then (Inl MutationUnavailable, lg0)
                      else
                        let e1 = e\<lparr>en_limit := Some limit_after, en_revision := revision, en_drawn := drawn,
                                   en_undurable := False,
                                   en_receipts := btree_insert (rc_idempotency_key rc) rc (en_receipts e)\<rparr>
                        in (Inr \<lparr>co_receipt = rc, co_view = entry_view e1, co_replayed = False\<rparr>,
                            commit r (put_entry key e1 lg)))"

text \<open>\<open>iter_mut\<close> visits the keys in order; \<open>ok\<close> answers for each key's commit.\<close>

fun flush_loop ::
  "(key_id \<Rightarrow> bool) \<Rightarrow> (key_id \<times> budget_entry) list \<Rightarrow> budget_ledger \<Rightarrow> nat \<Rightarrow> nat \<times> budget_ledger" where
  "flush_loop ok [] lg failed = (failed, lg)"
| "flush_loop ok ((key, e) # rest) lg failed =
     (let hd = held e
      in if en_drawn e = hd \<and> \<not> en_undurable e then flush_loop ok rest lg failed
         else if ok key then
           flush_loop ok rest
             (commit (entry_record e key hd)
               (put_entry key (e\<lparr>en_drawn := hd, en_undurable := False\<rparr>) lg)) failed
         else flush_loop ok rest lg (failed + 1))"

definition flush :: "budget_ledger \<Rightarrow> (key_id \<Rightarrow> bool) \<Rightarrow> nat \<times> budget_ledger" where
  "flush lg ok = flush_loop ok (lg_entries lg) lg 0"

section \<open>Entries and the durable image\<close>

lemma max_tokens_le: "MAX_TOKENS \<le> u64_max"
  by (simp add: MAX_TOKENS_def u64_max_def)

lemma held_le [simp]: "held e \<le> MAX_TOKENS"
  by (simp add: held_def)

lemma held_eq: "held e = min (en_consumed e + en_reserved e) MAX_TOKENS"
  using max_tokens_le by (simp add: held_def sat_add64_def sat_u64_def min_def)

lemma consumed_sat: "min (sat_add64 a b) MAX_TOKENS = min (a + b) MAX_TOKENS"
  using max_tokens_le by (simp add: sat_add64_def sat_u64_def min_def)

text \<open>What every entry satisfies: quantities in range, and the mark above everything held.\<close>

definition entry_ok :: "budget_entry \<Rightarrow> bool" where
  "entry_ok e \<longleftrightarrow>
     en_consumed e \<le> MAX_TOKENS \<and> en_reserved e \<le> MAX_TOKENS \<and> held e \<le> en_drawn e \<and>
     en_drawn e \<le> MAX_TOKENS \<and> is_none_or (\<lambda>l. l \<le> MAX_TOKENS) (en_limit e)"

text \<open>An entry agrees with its image on disk: editable state is equal, and the mark is exact unless flagged.\<close>

definition agrees :: "budget_entry \<Rightarrow> budget_entry \<Rightarrow> bool" where
  "agrees e d \<longleftrightarrow>
     en_limit d = en_limit e \<and> en_revision d = en_revision e \<and> en_payment d = en_payment e \<and>
     en_receipts d = en_receipts e \<and> en_consumed d = en_drawn d \<and> en_reserved d = 0 \<and>
     en_drawn d \<le> en_drawn e \<and> (\<not> en_undurable e \<longrightarrow> en_drawn d = en_drawn e)"

definition durable_entry :: "budget_record list \<Rightarrow> key_id \<Rightarrow> budget_entry" where
  "durable_entry js key = entry_or_new (replay js (ledger_new 0)) key []"

lemma lookup_put [simp]:
  "btree_get (lg_entries (put_entry key e lg)) key' = (if key' = key then Some e else btree_get (lg_entries lg) key')"
  "lg_entries (commit r lg) = lg_entries lg" "lg_journal (put_entry key e lg) = lg_journal lg"
  "lg_journal (commit r lg) = lg_journal lg @ [r]" "lg_draw_tokens (put_entry key e lg) = lg_draw_tokens lg"
  "lg_draw_tokens (commit r lg) = lg_draw_tokens lg"
  by (simp_all add: put_entry_def commit_def btree_get_insert)

lemma entry_or_new_put [simp]:
  "entry_or_new (put_entry key e lg) key' t = (if key' = key then e else entry_or_new lg key' t)"
  "entry_or_new (commit r lg) key' t = entry_or_new lg key' t"
  by (simp_all add: entry_or_new_def)

text \<open>The tenant of a fresh entry is the only thing the default depends on.\<close>

lemma tenant_free:
  "entry_ok (e\<lparr>en_tenant := t\<rparr>) = entry_ok e"
  "agrees (e\<lparr>en_tenant := t\<rparr>) d = agrees e d" "agrees e (d\<lparr>en_tenant := t\<rparr>) = agrees e d"
  "restored (e\<lparr>en_tenant := t\<rparr>) r = restored e r"
  by (simp_all add: entry_ok_def agrees_def held_def restored_def Let_def split: option.split)

lemma entry_or_new_tenant:
  "\<exists>t''. entry_or_new lg key t = (entry_or_new lg key t')\<lparr>en_tenant := t''\<rparr>"
proof (cases "btree_get (lg_entries lg) key")
  case None
  then show ?thesis by (auto simp: entry_or_new_def entry_new_def)
next
  case (Some e)
  then show ?thesis by (intro exI [of _ "en_tenant e"]) (simp add: entry_or_new_def)
qed

lemma durable_nil: "durable_entry [] key = entry_new []"
  by (simp add: durable_entry_def replay_def ledger_new_def entry_or_new_def btree_get_def)

lemma durable_snoc:
  "agrees e (durable_entry (js @ [r]) key) =
     agrees e (if key = br_key r then restored (durable_entry js key) r else durable_entry js key)"
  using entry_or_new_tenant [of "fold restore js (ledger_new 0)" "br_key r" "br_tenant r" "[]"]
  by (auto simp: durable_entry_def replay_def restore_def tenant_free)

definition ledger_inv :: "budget_ledger \<Rightarrow> bool" where
  "ledger_inv lg \<longleftrightarrow>
     btree_wf (lg_entries lg) \<and>
     (\<forall>key. entry_ok (entry_or_new lg key []) \<and>
            agrees (entry_or_new lg key []) (durable_entry (lg_journal lg) key))"

lemma ledger_inv_entry:
  assumes "ledger_inv lg"
  shows "entry_ok (entry_or_new lg key t)" "agrees (entry_or_new lg key t) (durable_entry (lg_journal lg) key)"
  using assms entry_or_new_tenant [of lg key t "[]"] by (auto simp: ledger_inv_def tenant_free)

lemma btree_wf_put [simp]: "btree_wf (lg_entries lg) \<Longrightarrow> btree_wf (lg_entries (put_entry key e lg))"
  by (simp add: put_entry_def btree_wf_insert)

lemma ledger_inv_put:
  assumes "ledger_inv lg" "entry_ok e" "agrees e (durable_entry (lg_journal lg) key)"
  shows "ledger_inv (put_entry key e lg)"
  using assms by (simp add: ledger_inv_def)

lemma ledger_inv_commit:
  assumes "ledger_inv lg" "entry_ok e" "br_key r = key"
    and "agrees e (restored (durable_entry (lg_journal lg) key) r)"
  shows "ledger_inv (commit r (put_entry key e lg))"
  using assms by (simp add: ledger_inv_def durable_snoc)

lemma ledger_inv_new: "ledger_inv (ledger_new d)"
  by (auto simp: ledger_inv_def durable_nil ledger_new_def entry_or_new_def btree_get_def btree_wf_def
      entry_new_def entry_ok_def agrees_def held_eq)

lemma restored_record:
  "agrees e d \<Longrightarrow> drawn \<le> MAX_TOKENS \<Longrightarrow> entry_ok e \<Longrightarrow>
     agrees (e\<lparr>en_drawn := drawn, en_undurable := False\<rparr>) (restored d (entry_record e key drawn))"
  by (cases "en_limit e") (auto simp: agrees_def restored_def entry_record_def entry_ok_def Let_def)

section \<open>Each operation keeps the invariant\<close>

text \<open>What a granted reservation does, in one of two ways: under the mark, or raising it durably first.\<close>

lemma reserve_cases:
  assumes "reserve lg key tenant tokens ok = (res, lg')" "e = entry_or_new lg key tenant"
  obtains
    (refused) x where "res = Inl x" "lg' = put_entry key e lg"
      "case x of Exhausted _ \<Rightarrow> \<not> (held e + tokens \<le> MAX_TOKENS \<and>
           is_none_or (\<lambda>l. held e < l \<and> held e + tokens \<le> l) (en_limit e))
       | RefusalUnavailable \<Rightarrow> \<not> ok \<and> held e + tokens \<le> MAX_TOKENS \<and>
           is_none_or (\<lambda>l. held e < l \<and> held e + tokens \<le> l) (en_limit e) \<and>
           (en_drawn e < held e + tokens \<or> en_undurable e)"
  | (under) "res = Inr \<lparr>rv_key = key, rv_tokens = tokens\<rparr>" "held e + tokens \<le> MAX_TOKENS"
      "is_none_or (\<lambda>l. held e < l \<and> held e + tokens \<le> l) (en_limit e)"
      "held e + tokens \<le> en_drawn e" "\<not> en_undurable e"
      "lg' = put_entry key (e\<lparr>en_reserved := sat_add64 (en_reserved e) tokens\<rparr>) lg"
  | (draw) drawn where "res = Inr \<lparr>rv_key = key, rv_tokens = tokens\<rparr>" "held e + tokens \<le> MAX_TOKENS"
      "is_none_or (\<lambda>l. held e < l \<and> held e + tokens \<le> l) (en_limit e)"
      "drawn = max (min (sat_add64 (held e + tokens)
         (case en_limit e of Some l \<Rightarrow> min (lg_draw_tokens lg) ((l - (held e + tokens)) div 8)
          | None \<Rightarrow> lg_draw_tokens lg)) MAX_TOKENS) (en_drawn e)" "ok"
      "lg' = commit (entry_record e key drawn)
         (put_entry key (e\<lparr>en_drawn := drawn, en_undurable := False,
            en_reserved := sat_add64 (en_reserved e) tokens\<rparr>) lg)"
proof -
  have lim: "is_some_and (\<lambda>l. l \<le> held e \<or> l < held e + tokens) (en_limit e) \<longleftrightarrow>
      \<not> is_none_or (\<lambda>l. held e < l \<and> held e + tokens \<le> l) (en_limit e)"
    by (cases "en_limit e") auto
  show thesis
    using assms(1) refused under draw max_tokens_le unfolding reserve_def assms(2) [symmetric] Let_def lim
    by (auto split: if_splits simp: not_less)
qed

lemma reserved_add:
  assumes "entry_ok e" "held e + tokens \<le> MAX_TOKENS"
  shows "sat_add64 (en_reserved e) tokens = en_reserved e + tokens"
    "held (e\<lparr>en_reserved := en_reserved e + tokens\<rparr>) = held e + tokens"
    "en_reserved e + tokens \<le> MAX_TOKENS"
  using assms max_tokens_le by (auto simp: entry_ok_def held_eq sat_add64_def sat_u64_def min_def split: if_splits)

lemma reserve_inv:
  assumes inv: "ledger_inv lg" and r: "reserve lg key tenant tokens ok = (res, lg')"
  shows "ledger_inv lg'"
proof -
  define e where "e = entry_or_new lg key tenant"
  note ok = ledger_inv_entry [OF inv, of key tenant, folded e_def]
  from r e_def show ?thesis
  proof (cases rule: reserve_cases)
    case (refused x)
    then show ?thesis using inv ok by (simp add: ledger_inv_put)
  next
    case under
    note a = reserved_add [OF ok(1) under(2)]
    have "entry_ok (e\<lparr>en_reserved := en_reserved e + tokens\<rparr>)"
      using ok(1) under(4) a by (auto simp: entry_ok_def)
    with inv ok(2) show ?thesis
      unfolding under(6) a(1) by (intro ledger_inv_put) (auto simp: agrees_def)
  next
    case (draw drawn)
    note a = reserved_add [OF ok(1) draw(2)]
    have d: "drawn \<le> MAX_TOKENS" "held e + tokens \<le> drawn"
      using ok(1) draw(2) max_tokens_le unfolding draw(4) by (auto simp: entry_ok_def sat_add64_def sat_u64_def)
    let ?e = "e\<lparr>en_drawn := drawn, en_undurable := False, en_reserved := en_reserved e + tokens\<rparr>"
    have "held ?e = held e + tokens" using a(2) by (simp add: held_def)
    then have "entry_ok ?e" using ok(1) d a(3) by (auto simp: entry_ok_def)
    moreover have "agrees ?e (restored (durable_entry (lg_journal lg) key) (entry_record e key drawn))"
      using restored_record [OF ok(2) d(1) ok(1), of key] by (simp add: agrees_def)
    ultimately show ?thesis
      unfolding draw(6) a(1) using inv by (intro ledger_inv_commit) (simp_all add: entry_record_def)
  qed
qed

lemma finish_inv:
  assumes inv: "ledger_inv lg" and f: "finish lg key reserved charged ok = (st, lg')"
  shows "ledger_inv lg'"
proof (cases "btree_get (lg_entries lg) key")
  case None
  with f inv show ?thesis by (simp add: finish_def)
next
  case (Some e)
  then have e: "entry_or_new lg key t = e" for t by (simp add: entry_or_new_def)
  note ok = ledger_inv_entry [OF inv, of key, unfolded e]
  let ?e = "e\<lparr>en_reserved := en_reserved e - reserved,
    en_consumed := min (sat_add64 (en_consumed e) charged) MAX_TOKENS\<rparr>"
  show ?thesis
  proof (cases "held ?e > en_drawn e")
    case False
    then have "entry_ok ?e" using ok(1) by (auto simp: entry_ok_def)
    moreover have "agrees ?e (durable_entry (lg_journal lg) key)" using ok(2) by (auto simp: agrees_def)
    moreover have "lg' = put_entry key ?e lg" using f False by (auto simp: finish_def Some Let_def)
    ultimately show ?thesis using inv by (simp add: ledger_inv_put)
  next
    case True
    let ?e2 = "?e\<lparr>en_drawn := held ?e, en_undurable := \<not> ok\<rparr>"
    have h: "held ?e2 = held ?e" by (simp add: held_def)
    have ok1: "entry_ok ?e2" using ok(1) unfolding entry_ok_def h by auto
    show ?thesis
    proof (cases ok)
      case True
      have "lg' = commit (entry_record ?e2 key (held ?e)) (put_entry key ?e2 lg)"
        using f \<open>held ?e > en_drawn e\<close> True by (auto simp: finish_def Some Let_def)
      moreover have "agrees ?e2 (restored (durable_entry (lg_journal lg) key) (entry_record ?e2 key (held ?e)))"
        using ok True by (cases "en_limit e") (auto simp: agrees_def restored_def entry_record_def entry_ok_def Let_def)
      ultimately show ?thesis using inv ok1 by (simp add: ledger_inv_commit entry_record_def)
    next
      case False
      have "lg' = put_entry key ?e2 lg"
        using f \<open>held ?e > en_drawn e\<close> False by (auto simp: finish_def Some Let_def)
      moreover have "agrees ?e2 (durable_entry (lg_journal lg) key)"
        using ok(2) False \<open>held ?e > en_drawn e\<close> by (auto simp: agrees_def)
      ultimately show ?thesis using inv ok1 by (simp add: ledger_inv_put)
    qed
  qed
qed

lemma set_inv:
  assumes inv: "ledger_inv lg" and f: "ledger_set lg key tenant expected lim payment ok = (res, lg')"
  shows "ledger_inv lg'"
proof (cases "is_some_and (\<lambda>l. l > MAX_TOKENS) lim")
  case True
  with f inv show ?thesis by (simp add: ledger_set_def)
next
  case False
  define e where "e = entry_or_new lg key tenant"
  note ok = ledger_inv_entry [OF inv, of key tenant, folded e_def]
  let ?e = "e\<lparr>en_limit := lim, en_payment := payment, en_revision := en_revision e + 1,
    en_drawn := held e, en_undurable := False\<rparr>"
  let ?r = "\<lparr>br_key = key, br_tenant = en_tenant e, br_limit = lim, br_drawn = held e,
    br_revision = en_revision e + 1, br_payment = payment, br_receipt = None\<rparr>"
  have "lg' = put_entry key e lg \<or> lg' = commit ?r (put_entry key ?e lg)"
    using f False unfolding ledger_set_def e_def [symmetric] by (auto simp: Let_def split: if_splits)
  moreover have "ledger_inv (put_entry key e lg)" using inv ok by (simp add: ledger_inv_put)
  moreover have "ledger_inv (commit ?r (put_entry key ?e lg))"
  proof (rule ledger_inv_commit [OF inv])
    have "held ?e = held e" by (simp add: held_def)
    then show "entry_ok ?e" using ok(1) False by (cases lim) (auto simp: entry_ok_def)
    show "agrees ?e (restored (durable_entry (lg_journal lg) key) ?r)"
      using ok(2) False by (cases lim) (auto simp: agrees_def restored_def Let_def)
  qed simp
  ultimately show ?thesis by auto
qed

text \<open>A credit either only looks the entry up, or commits one record that raises the limit.\<close>

definition credited :: "budget_entry \<Rightarrow> credit_receipt \<Rightarrow> budget_entry" where
  "credited e rc =
     e\<lparr>en_limit := Some (rc_limit_after rc), en_revision := rc_revision_after rc, en_drawn := held e,
       en_undurable := False, en_receipts := btree_insert (rc_idempotency_key rc) rc (en_receipts e)\<rparr>"

lemma credit_cases:
  assumes "credit lg c ok = (res, lg')" "e = entry_or_new lg (cr_key c) (cr_tenant c)"
  obtains
    (failed) x where "res = Inl x" "lg' = put_entry (cr_key c) e lg"
  | (replayed) rc where "btree_get (en_receipts e) (cr_idempotency_key c) = Some rc"
      "rc_request_digest rc = cr_request_digest c"
      "res = Inr \<lparr>co_receipt = rc, co_view = entry_view e, co_replayed = True\<rparr>"
      "lg' = put_entry (cr_key c) e lg"
  | (applied) l rc where "btree_get (en_receipts e) (cr_idempotency_key c) = None" "en_limit e = Some l"
      "rc = \<lparr>rc_idempotency_key = cr_idempotency_key c, rc_request_digest = cr_request_digest c,
         rc_tokens = cr_tokens c, rc_limit_after = l + cr_tokens c,
         rc_revision_after = en_revision e + 1, rc_at_millis = cr_at_millis c,
         rc_actor = cr_actor c, rc_reason = cr_reason c\<rparr>"
      "l + cr_tokens c \<le> MAX_TOKENS" "0 < cr_tokens c"
      "res = Inr \<lparr>co_receipt = rc, co_view = entry_view (credited e rc), co_replayed = False\<rparr>"
      "lg' = commit \<lparr>br_key = cr_key c, br_tenant = en_tenant e, br_limit = Some (l + cr_tokens c),
           br_drawn = held e, br_revision = en_revision e + 1, br_payment = en_payment e,
           br_receipt = Some rc\<rparr> (put_entry (cr_key c) (credited e rc) lg)"
proof (cases "btree_get (en_receipts e) (cr_idempotency_key c)")
  case (Some rc)
  with assms(1) failed replayed show thesis
    unfolding credit_def assms(2) [symmetric] Let_def by (auto split: if_splits)
next
  case None
  show thesis
  proof (cases "en_limit e")
    case (Some l)
    with None assms(1) failed applied show thesis
      unfolding credit_def assms(2) [symmetric] Let_def credited_def by (auto split: if_splits)
  next
    case no_limit: None
    have "lg' = put_entry (cr_key c) e lg \<and> (\<exists>x. res = Inl x)"
      using assms(1) unfolding credit_def assms(2) [symmetric] Let_def None no_limit by (auto split: if_splits)
    with failed show thesis by blast
  qed
qed

lemma credit_inv:
  assumes inv: "ledger_inv lg" and f: "credit lg c ok = (res, lg')"
  shows "ledger_inv lg'"
proof -
  define e where "e = entry_or_new lg (cr_key c) (cr_tenant c)"
  note ok = ledger_inv_entry [OF inv, of "cr_key c" "cr_tenant c", folded e_def]
  from f e_def show ?thesis
  proof (cases rule: credit_cases)
    case (applied l rc)
    have "held (credited e rc) = held e" by (simp add: credited_def held_def)
    then have "entry_ok (credited e rc)"
      using ok(1) applied(4) by (auto simp: entry_ok_def credited_def applied(3))
    moreover have "agrees (credited e rc) (restored (durable_entry (lg_journal lg) (cr_key c))
       \<lparr>br_key = cr_key c, br_tenant = en_tenant e, br_limit = Some (l + cr_tokens c),
        br_drawn = held e, br_revision = en_revision e + 1, br_payment = en_payment e, br_receipt = Some rc\<rparr>)"
      using ok(2) applied(4) by (auto simp: agrees_def restored_def credited_def applied(3) Let_def)
    ultimately show ?thesis unfolding applied(7) using inv by (intro ledger_inv_commit) simp_all
  qed (use inv ok in \<open>simp_all add: ledger_inv_put\<close>)
qed

lemma btree_get_mem:
  "btree_wf m \<Longrightarrow> (k, v) \<in> set m \<Longrightarrow> btree_get m k = Some v"
  by (auto simp: btree_wf_def btree_get_def strict_sorted_iff intro: map_of_is_SomeI)

lemma flush_step_inv:
  assumes inv: "ledger_inv lg" and e: "btree_get (lg_entries lg) key = Some e"
  shows "ledger_inv (commit (entry_record e key (held e))
    (put_entry key (e\<lparr>en_drawn := held e, en_undurable := False\<rparr>) lg))"
proof (rule ledger_inv_commit [OF inv])
  note ok = ledger_inv_entry [OF inv, of key "[]"]
  have e': "entry_or_new lg key [] = e" using e by (simp add: entry_or_new_def)
  have "held (e\<lparr>en_drawn := held e, en_undurable := False\<rparr>) = held e" by (simp add: held_def)
  then show "entry_ok (e\<lparr>en_drawn := held e, en_undurable := False\<rparr>)"
    using ok(1) unfolding e' by (auto simp: entry_ok_def)
  show "agrees (e\<lparr>en_drawn := held e, en_undurable := False\<rparr>)
      (restored (durable_entry (lg_journal lg) key) (entry_record e key (held e)))"
    using restored_record [of e _ "held e"] ok unfolding e' by simp
qed (simp add: entry_record_def)

text \<open>The flush loop: the entries still to visit are the ledger's own, and their keys are distinct.\<close>

definition needs_flush :: "budget_entry \<Rightarrow> bool" where
  "needs_flush e \<longleftrightarrow> en_drawn e \<noteq> held e \<or> en_undurable e"

definition flush_entry :: "(key_id \<Rightarrow> bool) \<Rightarrow> key_id \<Rightarrow> budget_entry \<Rightarrow> budget_entry" where
  "flush_entry ok key e =
     (if needs_flush e \<and> ok key then e\<lparr>en_drawn := held e, en_undurable := False\<rparr> else e)"

definition pending :: "(key_id \<times> budget_entry) list \<Rightarrow> budget_ledger \<Rightarrow> bool" where
  "pending es lg \<longleftrightarrow> distinct (map fst es) \<and> (\<forall>(k, e) \<in> set es. btree_get (lg_entries lg) k = Some e)"

lemma pending_step:
  assumes "pending ((key, e) # rest) lg"
  shows "pending rest lg" "pending rest (commit r (put_entry key e' lg))" "btree_get (lg_entries lg) key = Some e"
    "key \<notin> fst ` set rest"
  using assms by (force simp: pending_def)+

lemma flush_loop_count:
  "fst (flush_loop ok es lg n) = n + length (filter (\<lambda>(k, e). needs_flush e \<and> \<not> ok k) es)"
  by (induction ok es lg n rule: flush_loop.induct) (simp_all add: needs_flush_def Let_def)

lemma flush_loop_inv: "ledger_inv lg \<Longrightarrow> pending es lg \<Longrightarrow> ledger_inv (snd (flush_loop ok es lg n))"
proof (induction ok es lg n rule: flush_loop.induct)
  case (2 ok key e rest lg failed)
  note p = pending_step [OF "2.prems"(2)]
  show ?case using "2.IH" p(1,2) "2.prems"(1) flush_step_inv [OF "2.prems"(1) p(3)] by (simp add: Let_def)
qed simp

lemma flush_loop_entry:
  "pending es lg \<Longrightarrow> entry_or_new (snd (flush_loop ok es lg n)) key t =
     (if key \<in> fst ` set es then flush_entry ok key (entry_or_new lg key t) else entry_or_new lg key t)"
proof (induction ok es lg n rule: flush_loop.induct)
  case (2 ok k e rest lg failed)
  note p = pending_step [OF "2.prems"(1)]
  have e: "entry_or_new lg k t = e" using p(3) by (simp add: entry_or_new_def)
  consider (skip) "\<not> needs_flush e" | (stored) "needs_flush e" "ok k" | (refuse) "needs_flush e" "\<not> ok k" by blast
  then show ?case
  proof cases
    case skip
    then have "flush_loop ok ((k, e) # rest) lg failed = flush_loop ok rest lg failed"
      by (simp add: needs_flush_def Let_def)
    moreover note "2.IH"(1) [OF refl _ p(1)]
    ultimately show ?thesis using skip p(4) e by (auto simp: needs_flush_def flush_entry_def)
  next
    case stored
    let ?lg = "commit (entry_record e k (held e)) (put_entry k (e\<lparr>en_drawn := held e, en_undurable := False\<rparr>) lg)"
    have "flush_loop ok ((k, e) # rest) lg failed = flush_loop ok rest ?lg failed"
      using stored by (auto simp: needs_flush_def Let_def)
    moreover have "entry_or_new (snd (flush_loop ok rest ?lg failed)) key t =
       (if key \<in> fst ` set rest then flush_entry ok key (entry_or_new ?lg key t) else entry_or_new ?lg key t)"
      using "2.IH"(2) [OF refl _ _ p(2)] stored by (auto simp: needs_flush_def)
    ultimately show ?thesis using stored p(4) e by (auto simp: flush_entry_def)
  next
    case refuse
    then have "flush_loop ok ((k, e) # rest) lg failed = flush_loop ok rest lg (failed + 1)"
      by (auto simp: needs_flush_def Let_def)
    moreover note "2.IH"(3) [OF refl _ _ p(1)]
    ultimately show ?thesis using refuse p(4) e by (auto simp: needs_flush_def flush_entry_def)
  qed
qed simp

lemma pending_all: "ledger_inv lg \<Longrightarrow> pending (lg_entries lg) lg"
  by (auto simp: pending_def ledger_inv_def btree_wf_def strict_sorted_iff intro: btree_get_mem [unfolded btree_wf_def])

lemma flush_inv: "ledger_inv lg \<Longrightarrow> ledger_inv (snd (flush lg ok))"
  by (simp add: flush_def flush_loop_inv pending_all)

lemma flush_entry_or_new:
  assumes "ledger_inv lg"
  shows "entry_or_new (snd (flush lg ok)) key t = flush_entry ok key (entry_or_new lg key t)"
proof (cases "key \<in> fst ` set (lg_entries lg)")
  case True
  with assms show ?thesis by (simp add: flush_def flush_loop_entry pending_all)
next
  case False
  then have "btree_get (lg_entries lg) key = None" by (auto simp: btree_get_def map_of_eq_None_iff)
  then have "\<not> needs_flush (entry_or_new lg key t)"
    by (simp add: entry_or_new_def entry_new_def needs_flush_def held_def sat_add64_def sat_u64_def)
  with assms False show ?thesis by (simp add: flush_def flush_loop_entry pending_all flush_entry_def)
qed

section \<open>Payment URLs\<close>

lemma split_once_Some: "split_once d s = Some (h, p) \<Longrightarrow> s = h @ d # p"
proof -
  assume a: "split_once d s = Some (h, p)"
  then obtain x where x: "dropWhile (\<lambda>c. c \<noteq> d) s = x # p" "h = takeWhile (\<lambda>c. c \<noteq> d) s"
    by (auto simp: split_once_def split: list.splits)
  then have "x = d" using hd_dropWhile [of "\<lambda>c. c \<noteq> d" s] by auto
  with x show "s = h @ d # p" by (metis takeWhile_dropWhile_id)
qed

lemma strip_prefix_Some: "strip_prefix p s = Some rest \<Longrightarrow> s = p @ rest"
  by (auto simp: strip_prefix_def split: if_splits) (metis append_take_drop_id)

definition authority_byte_ok :: "char \<Rightarrow> bool" where
  "authority_byte_ok c \<longleftrightarrow> host_byte_ok c \<or> c = CHR '':''"

lemma digit_host_byte: "is_ascii_digit c \<Longrightarrow> host_byte_ok c"
  by (simp add: is_ascii_digit_def host_byte_ok_def is_ascii_alphanumeric_def Let_def)

text \<open>
  A payment URL can be read in only one way. An accepted URL is at most 512 printable ASCII bytes
  after the literal \<open>https://\<close>, and its authority is a non-empty host name with an optional port: it
  holds only letters, digits, dots, hyphens and the port separator, so no user information can make it
  display one host and name another.
\<close>

theorem payment_url_single_reading:
  assumes "payment_new msg (Some url) = Inr (Some p)"
  shows "pay_url p = Some url \<and> length url \<le> 512 \<and>
    (\<exists>rest. url = ''https://'' @ rest \<and> list_all is_ascii_graphic rest \<and>
       url_authority rest \<noteq> [] \<and> list_all authority_byte_ok (url_authority rest) \<and>
       \<not> authority_byte_ok (CHR ''@''))"
proof -
  have url: "is_https_url url" and p: "pay_url p = Some url"
    using assms by (auto simp: payment_new_def split: if_splits)
  then obtain rest where rest: "strip_prefix ''https://'' url = Some rest"
    by (auto simp: is_https_url_def split: if_splits option.splits)
  let ?a = "url_authority rest"
  define hp where "hp = (case split_once (CHR '':'') ?a of Some (h, p) \<Rightarrow> (h, Some p) | None \<Rightarrow> (?a, None))"
  have ok: "list_all is_ascii_graphic rest" "is_none_or port_ok (snd hp)" "fst hp \<noteq> []" "list_all host_byte_ok (fst hp)"
    and len: "length url \<le> 512"
    using url rest unfolding is_https_url_def hp_def
    by (auto simp: Let_def MAX_PAYMENT_URL_BYTES_def list_all_iff split: if_splits prod.splits)
  have "?a \<noteq> [] \<and> list_all authority_byte_ok ?a"
  proof (cases "split_once (CHR '':'') ?a")
    case None
    with ok(3,4) show ?thesis by (auto simp: hp_def list_all_iff authority_byte_ok_def)
  next
    case (Some x)
    obtain h q where x: "x = (h, q)" by (cases x)
    then have "?a = h @ CHR '':'' # q" using Some split_once_Some by simp
    moreover have "list_all host_byte_ok q"
      using ok(2) Some x by (auto simp: hp_def port_ok_def list_all_iff digit_host_byte)
    ultimately show ?thesis
      using ok(4) Some x by (auto simp: hp_def list_all_iff authority_byte_ok_def)
  qed
  moreover have "\<not> authority_byte_ok (CHR ''@'')"
    by (simp add: authority_byte_ok_def host_byte_ok_def is_ascii_alphanumeric_def)
  ultimately show ?thesis using p len ok(1) strip_prefix_Some [OF rest] by blast
qed

theorem payment_url_single_reading_witness:
  "\<exists>rest. ''https://pay.example:8443/x'' = ''https://'' @ rest \<and> list_all authority_byte_ok (url_authority rest)"
proof -
  have "payment_new None (Some ''https://pay.example:8443/x'') =
      Inr (Some \<lparr>pay_message = None, pay_url = Some ''https://pay.example:8443/x''\<rparr>)"
    by code_simp
  from payment_url_single_reading [OF this] show ?thesis by blast
qed

end
