(* ===== verification/Budget_System.thy ===== *)
theory Budget_System
  imports Budget
begin

text \<open>
  The ledger in operation: reservations are linear values a request holds until it settles, retains
  or releases them, administrators set limits and apply credits, and the process may stop at any
  point and start again from its journal. The step relation lists every interleaving of these
  operations, each with either journal outcome; the properties are invariants of the reachable states.
\<close>

definition restart :: "budget_ledger \<Rightarrow> budget_ledger" where
  "restart lg = (replay (lg_journal lg) (ledger_new (lg_draw_tokens lg)))\<lparr>lg_journal := lg_journal lg\<rparr>"

record budget_system =
  sys_ledger :: budget_ledger
  sys_open :: "budget_reservation multiset"

inductive budget_step :: "budget_system \<Rightarrow> budget_system \<Rightarrow> bool" where
  step_reserve: "reserve lg key tenant tokens ok = (Inr r, lg') \<Longrightarrow>
    budget_step \<lparr>sys_ledger = lg, sys_open = m\<rparr> \<lparr>sys_ledger = lg', sys_open = add_mset r m\<rparr>"
| step_refused: "reserve lg key tenant tokens ok = (Inl x, lg') \<Longrightarrow>
    budget_step \<lparr>sys_ledger = lg, sys_open = m\<rparr> \<lparr>sys_ledger = lg', sys_open = m\<rparr>"
| step_settle: "settle lg r actual ok = (st, lg') \<Longrightarrow>
    budget_step \<lparr>sys_ledger = lg, sys_open = add_mset r m\<rparr> \<lparr>sys_ledger = lg', sys_open = m\<rparr>"
| step_retain: "retain lg r ok = (st, lg') \<Longrightarrow>
    budget_step \<lparr>sys_ledger = lg, sys_open = add_mset r m\<rparr> \<lparr>sys_ledger = lg', sys_open = m\<rparr>"
| step_release: "release lg r ok = lg' \<Longrightarrow>
    budget_step \<lparr>sys_ledger = lg, sys_open = add_mset r m\<rparr> \<lparr>sys_ledger = lg', sys_open = m\<rparr>"
| step_set: "ledger_set lg key tenant expected lim payment ok = (res, lg') \<Longrightarrow>
    budget_step \<lparr>sys_ledger = lg, sys_open = m\<rparr> \<lparr>sys_ledger = lg', sys_open = m\<rparr>"
| step_credit: "credit lg c ok = (out, lg') \<Longrightarrow>
    budget_step \<lparr>sys_ledger = lg, sys_open = m\<rparr> \<lparr>sys_ledger = lg', sys_open = m\<rparr>"
| step_flush: "flush lg oks = (n, lg') \<Longrightarrow>
    budget_step \<lparr>sys_ledger = lg, sys_open = m\<rparr> \<lparr>sys_ledger = lg', sys_open = m\<rparr>"
| step_crash: "budget_step \<lparr>sys_ledger = lg, sys_open = m\<rparr> \<lparr>sys_ledger = restart lg, sys_open = {#}\<rparr>"

definition budget_start :: "nat \<Rightarrow> budget_system" where
  "budget_start draw = \<lparr>sys_ledger = ledger_new draw, sys_open = {#}\<rparr>"

definition budget_reachable :: "budget_system \<Rightarrow> bool" where
  "budget_reachable s \<longleftrightarrow> (\<exists>draw. budget_step\<^sup>*\<^sup>* (budget_start draw) s)"

section \<open>Restart\<close>

lemma replay_draw: "lg_entries (replay js (ledger_new d)) = lg_entries (replay js (ledger_new d'))"
  by (induction js rule: rev_induct)
    (simp_all add: replay_def ledger_new_def restore_def put_entry_def entry_or_new_def)

lemma replay_wf: "btree_wf (lg_entries (replay js (ledger_new d)))"
  by (induction js rule: rev_induct) (simp_all add: replay_def restore_def, simp add: ledger_new_def btree_wf_def)

lemma restart_entry:
  "entry_or_new (restart lg) key [] = durable_entry (lg_journal lg) key" "lg_journal (restart lg) = lg_journal lg"
  by (simp_all add: restart_def entry_or_new_def durable_entry_def replay_draw [of _ "lg_draw_tokens lg" 0])

lemma agrees_entry_ok: "entry_ok e \<Longrightarrow> agrees e d \<Longrightarrow> entry_ok d \<and> agrees d d"
  by (auto simp: entry_ok_def agrees_def held_eq)

lemma restart_inv:
  assumes "ledger_inv lg"
  shows "ledger_inv (restart lg)"
  unfolding ledger_inv_def restart_entry
proof (intro conjI allI)
  show "btree_wf (lg_entries (restart lg))" by (simp add: restart_def replay_wf)
  fix key show "entry_ok (durable_entry (lg_journal lg) key)"
    "agrees (durable_entry (lg_journal lg) key) (durable_entry (lg_journal lg) key)"
    using agrees_entry_ok ledger_inv_entry [OF assms] by blast+
qed

section \<open>What each operation does to the reservations and receipts\<close>

abbreviation reserved_of :: "budget_ledger \<Rightarrow> key_id \<Rightarrow> nat" where
  "reserved_of lg key \<equiv> en_reserved (entry_or_new lg key [])"

abbreviation receipts_of :: "budget_ledger \<Rightarrow> key_id \<Rightarrow> (string, credit_receipt) btree_map" where
  "receipts_of lg key \<equiv> en_receipts (entry_or_new lg key [])"

lemma entry_or_new_irrelevant:
  "en_reserved (entry_or_new lg key t) = reserved_of lg key"
  "en_receipts (entry_or_new lg key t) = receipts_of lg key"
  by (cases "btree_get (lg_entries lg) key"; simp add: entry_or_new_def entry_new_def)+

definition open_tokens :: "budget_reservation multiset \<Rightarrow> key_id \<Rightarrow> nat" where
  "open_tokens m key = sum_mset (image_mset rv_tokens (filter_mset (\<lambda>r. rv_key r = key) m))"

lemma open_tokens_simps [simp]:
  "open_tokens {#} key = 0"
  "open_tokens (add_mset r m) key = (if rv_key r = key then rv_tokens r else 0) + open_tokens m key"
  by (simp_all add: open_tokens_def)

lemma reserve_effect:
  assumes inv: "ledger_inv lg" and r: "reserve lg key tenant tokens ok = (res, lg')"
  shows "reserved_of lg' k = reserved_of lg k + (case res of Inr r \<Rightarrow> open_tokens {#r#} k | Inl _ \<Rightarrow> 0)"
    "receipts_of lg' k = receipts_of lg k"
proof -
  define e where "e = entry_or_new lg key tenant"
  have e: "en_reserved e = reserved_of lg key" "en_receipts e = receipts_of lg key"
    unfolding e_def by (rule entry_or_new_irrelevant)+
  note ok = ledger_inv_entry [OF inv, of key tenant, folded e_def]
  from r e_def have "reserved_of lg' k = reserved_of lg k + (case res of Inr r \<Rightarrow> open_tokens {#r#} k | Inl _ \<Rightarrow> 0) \<and>
    receipts_of lg' k = receipts_of lg k"
  proof (cases rule: reserve_cases)
    case (refused x)
    then show ?thesis using e by simp
  next
    case under
    then show ?thesis using e reserved_add [OF ok(1) under(2)] by simp
  next
    case (draw drawn)
    then show ?thesis using e reserved_add [OF ok(1) draw(2)] by simp
  qed
  then show "reserved_of lg' k = reserved_of lg k + (case res of Inr r \<Rightarrow> open_tokens {#r#} k | Inl _ \<Rightarrow> 0)"
    "receipts_of lg' k = receipts_of lg k" by simp_all
qed

lemma finish_effect:
  assumes "finish lg key reserved charged ok = (st, lg')"
  shows "reserved_of lg' k = reserved_of lg k - (if k = key then reserved else 0)"
    "receipts_of lg' k = receipts_of lg k"
proof (atomize(full), cases "btree_get (lg_entries lg) key")
  case None
  with assms show "reserved_of lg' k = reserved_of lg k - (if k = key then reserved else 0) \<and>
    receipts_of lg' k = receipts_of lg k"
    by (simp add: finish_def entry_or_new_def entry_new_def)
next
  case (Some e)
  with assms show "reserved_of lg' k = reserved_of lg k - (if k = key then reserved else 0) \<and>
    receipts_of lg' k = receipts_of lg k"
    by (auto simp: finish_def Let_def entry_or_new_def split: if_splits)
qed

lemma set_effect:
  assumes "ledger_set lg key tenant expected lim payment ok = (res, lg')"
  shows "reserved_of lg' k = reserved_of lg k" "receipts_of lg' k = receipts_of lg k"
  using assms entry_or_new_irrelevant [of lg key tenant]
  by (auto simp: ledger_set_def Let_def split: if_splits)

lemma credit_effect:
  assumes "credit lg c ok = (out, lg')"
  shows "reserved_of lg' k = reserved_of lg k"
    "btree_get (receipts_of lg k) ik = Some rc \<Longrightarrow> btree_get (receipts_of lg' k) ik = Some rc"
proof -
  define e where "e = entry_or_new lg (cr_key c) (cr_tenant c)"
  have e: "en_reserved e = reserved_of lg (cr_key c)" "en_receipts e = receipts_of lg (cr_key c)"
    unfolding e_def by (rule entry_or_new_irrelevant)+
  from assms e_def have "reserved_of lg' k = reserved_of lg k \<and>
    (btree_get (receipts_of lg k) ik = Some rc \<longrightarrow> btree_get (receipts_of lg' k) ik = Some rc)"
    by (cases rule: credit_cases) (use e in \<open>auto simp: credited_def btree_get_insert\<close>)
  then show "reserved_of lg' k = reserved_of lg k"
    "btree_get (receipts_of lg k) ik = Some rc \<Longrightarrow> btree_get (receipts_of lg' k) ik = Some rc" by simp_all
qed

lemma flush_effect:
  assumes "ledger_inv lg" "flush lg oks = (n, lg')"
  shows "reserved_of lg' k = reserved_of lg k" "receipts_of lg' k = receipts_of lg k"
  using flush_entry_or_new [OF assms(1), of oks k "[]"] assms(2) by (auto simp: flush_entry_def)

lemma restart_effect:
  assumes "ledger_inv lg"
  shows "reserved_of (restart lg) k = 0" "receipts_of (restart lg) k = receipts_of lg k"
  using ledger_inv_entry(2) [OF assms, of k "[]"] by (simp_all add: restart_entry agrees_def)

section \<open>The system invariant\<close>

definition system_inv :: "budget_system \<Rightarrow> bool" where
  "system_inv s \<longleftrightarrow>
     ledger_inv (sys_ledger s) \<and> (\<forall>key. reserved_of (sys_ledger s) key = open_tokens (sys_open s) key)"

lemma system_inv_finish:
  assumes "system_inv \<lparr>sys_ledger = lg, sys_open = add_mset r m\<rparr>"
    and "finish lg (rv_key r) (rv_tokens r) charged ok = (st, lg')"
  shows "system_inv \<lparr>sys_ledger = lg', sys_open = m\<rparr>"
  using assms finish_inv finish_effect(1) [OF assms(2)] by (auto simp: system_inv_def)

lemma system_inv_step: "budget_step s s' \<Longrightarrow> system_inv s \<Longrightarrow> system_inv s'"
proof (induction rule: budget_step.induct)
  case (step_reserve lg key tenant tokens ok r lg' m)
  then show ?case
    using reserve_inv reserve_effect(1) [OF _ step_reserve.hyps] by (auto simp: system_inv_def)
next
  case (step_refused lg key tenant tokens ok x lg' m)
  then show ?case
    using reserve_inv reserve_effect(1) [OF _ step_refused.hyps] by (auto simp: system_inv_def)
next
  case (step_release lg r ok lg' m)
  then show ?case
    using system_inv_finish [of lg r m 0 ok] by (metis release_def prod.collapse)
next
  case (step_set lg key tenant expected lim payment ok res lg' m)
  then show ?case using set_inv set_effect(1) [OF step_set.hyps] by (auto simp: system_inv_def)
next
  case (step_credit lg c ok out lg' m)
  then show ?case using credit_inv credit_effect(1) [OF step_credit.hyps] by (auto simp: system_inv_def)
next
  case (step_flush lg oks n lg' m)
  then show ?case using flush_inv [of lg oks] flush_effect(1) [OF _ step_flush.hyps] by (auto simp: system_inv_def)
next
  case (step_crash lg m)
  then show ?case by (auto simp: system_inv_def restart_inv restart_effect)
qed (auto simp: settle_def retain_def intro: system_inv_finish)

lemma system_inv_steps: "budget_step\<^sup>*\<^sup>* s s' \<Longrightarrow> system_inv s \<Longrightarrow> system_inv s'"
  by (induction rule: rtranclp_induct) (auto intro: system_inv_step)

lemma reachable_inv: "budget_reachable s \<Longrightarrow> system_inv s"
proof -
  assume "budget_reachable s"
  moreover have "system_inv (budget_start draw)" for draw
    by (auto simp: system_inv_def budget_start_def ledger_inv_new)
      (simp add: ledger_new_def entry_or_new_def entry_new_def btree_get_def)
  ultimately show ?thesis unfolding budget_reachable_def using system_inv_steps by blast
qed

lemma receipt_eq: "receipt lg key ik = btree_get (receipts_of lg key) ik"
  by (simp add: receipt_def entry_or_new_def entry_new_def btree_get_def split: option.split)

lemma receipt_kept:
  "budget_step s s' \<Longrightarrow> system_inv s \<Longrightarrow> receipt (sys_ledger s) key ik = Some rc \<Longrightarrow>
     receipt (sys_ledger s') key ik = Some rc"
proof (induction rule: budget_step.induct)
  case (step_release lg r ok lg' m)
  then show ?case
    using finish_effect(2) [of lg "rv_key r" "rv_tokens r" 0 ok _ lg' key]
    by (simp add: receipt_eq release_def) (metis prod.collapse)
qed (auto simp: receipt_eq system_inv_def settle_def retain_def reserve_effect(2) finish_effect(2) set_effect(2)
    credit_effect(2) flush_effect(2) restart_effect(2))

lemma receipt_kept_steps:
  "budget_step\<^sup>*\<^sup>* s s' \<Longrightarrow> system_inv s \<Longrightarrow> receipt (sys_ledger s) key ik = Some rc \<Longrightarrow>
     receipt (sys_ledger s') key ik = Some rc"
  by (induction rule: rtranclp_induct) (auto intro: receipt_kept system_inv_steps)

section \<open>A concrete history\<close>

text \<open>A limit of 1000 tokens is set, 100 are reserved, and the limit is credited with 500.\<close>

definition ex_credit :: credit_request where
  "ex_credit =
     \<lparr>cr_key = ''k'', cr_tenant = ''t'', cr_expected_revision = None, cr_tokens = 500,
      cr_idempotency_key = ''pay-1'', cr_request_digest = ''d'', cr_reason = None, cr_actor = ''a'',
      cr_at_millis = 7\<rparr>"

definition ex_limited :: budget_ledger where
  "ex_limited = snd (ledger_set (ledger_new 8) ''k'' ''t'' None (Some 1000) None True)"

definition ex_reserved :: budget_ledger where
  "ex_reserved = snd (reserve ex_limited ''k'' ''t'' 100 True)"

definition ex_credited :: budget_ledger where
  "ex_credited = snd (credit ex_reserved ex_credit True)"

lemmas budget_eval =
  ex_limited_def ex_reserved_def ex_credited_def ex_credit_def ledger_set_def reserve_def credit_def
  ledger_new_def entry_or_new_def entry_new_def held_def put_entry_def commit_def btree_get_def
  MAX_TOKENS_def sat_add64_def sat_u64_def u64_max_def entry_record_def entry_view_def Let_def

lemma ex_limited_step: "budget_step\<^sup>*\<^sup>* (budget_start 8) \<lparr>sys_ledger = ex_limited, sys_open = {#}\<rparr>"
  unfolding budget_start_def ex_limited_def
  by (rule r_into_rtranclp, rule step_set, rule prod.collapse [symmetric])

lemma ex_reserve_granted: "reserve ex_limited ''k'' ''t'' 100 True = (Inr \<lparr>rv_key = ''k'', rv_tokens = 100\<rparr>, ex_reserved)"
  by (simp add: budget_eval)

lemma ex_reserved_reachable:
  "budget_reachable \<lparr>sys_ledger = ex_reserved, sys_open = {#\<lparr>rv_key = ''k'', rv_tokens = 100\<rparr>#}\<rparr>"
  unfolding budget_reachable_def
  using rtranclp.rtrancl_into_rtrancl [OF ex_limited_step step_reserve [OF ex_reserve_granted]] by blast

lemma ex_credit_applied:
  "\<exists>out. credit ex_reserved ex_credit True = (Inr out, ex_credited) \<and> \<not> co_replayed out \<and>
     rc_limit_after (co_receipt out) = 1500"
  by (simp add: budget_eval)

section \<open>Properties\<close>

lemma view_entry: "ledger_view lg key = entry_view (entry_or_new lg key [])"
  by (simp add: ledger_view_def entry_or_new_def entry_view_def entry_new_def split: option.split)

lemma not_undurable:
  "is_none_or (\<lambda>e. \<not> en_undurable e) (btree_get (lg_entries lg) key) \<longleftrightarrow> \<not> en_undurable (entry_or_new lg key [])"
  by (cases "btree_get (lg_entries lg) key") (simp_all add: entry_or_new_def entry_new_def)

text \<open>
  C3: a crash cannot restore spent credit. At every reachable point, for every key, the ledger rebuilt
  from the journal has the same limit, revision, payment override and receipts; nothing is reserved in
  it; and unless the last overrun of that key could not be committed (which the ledger flags, and which
  blocks further admission), it counts as consumed at least everything consumed and everything held by
  requests in flight.
\<close>

theorem budget_crash_safe:
  assumes "budget_reachable s"
  shows "bv_limit (ledger_view (restart (sys_ledger s)) key) = bv_limit (ledger_view (sys_ledger s) key) \<and>
    bv_revision (ledger_view (restart (sys_ledger s)) key) = bv_revision (ledger_view (sys_ledger s) key) \<and>
    bv_payment (ledger_view (restart (sys_ledger s)) key) = bv_payment (ledger_view (sys_ledger s) key) \<and>
    receipt (restart (sys_ledger s)) key ik = receipt (sys_ledger s) key ik \<and>
    bv_reserved (ledger_view (restart (sys_ledger s)) key) = 0 \<and>
    (is_none_or (\<lambda>e. \<not> en_undurable e) (btree_get (lg_entries (sys_ledger s)) key) \<longrightarrow>
       min (bv_consumed (ledger_view (sys_ledger s) key) + bv_reserved (ledger_view (sys_ledger s) key)) MAX_TOKENS
         \<le> bv_consumed (ledger_view (restart (sys_ledger s)) key))"
proof -
  have inv: "ledger_inv (sys_ledger s)" using reachable_inv [OF assms] by (simp add: system_inv_def)
  note e = ledger_inv_entry [OF inv, of key "[]"]
  have "held (entry_or_new (sys_ledger s) key []) \<le> en_drawn (entry_or_new (sys_ledger s) key [])"
    using e(1) by (simp add: entry_ok_def)
  with e(2) show ?thesis
    unfolding view_entry not_undurable receipt_eq restart_entry
    by (auto simp: agrees_def entry_view_def held_eq)
qed

theorem budget_crash_safe_witness:
  "100 \<le> bv_consumed (ledger_view (restart ex_reserved) ''k'')"
proof -
  have "bv_consumed (ledger_view ex_reserved ''k'') + bv_reserved (ledger_view ex_reserved ''k'') = 100"
    "is_none_or (\<lambda>e. \<not> en_undurable e) (btree_get (lg_entries ex_reserved) ''k'')"
    by (simp_all add: budget_eval ledger_view_def)
  moreover have "100 \<le> MAX_TOKENS" by (simp add: MAX_TOKENS_def u64_max_def)
  ultimately show ?thesis
    using budget_crash_safe [OF ex_reserved_reachable, of "''k''" "[]"] by simp
qed

text \<open>
  C32: reservations are conserved. At every reachable point, what the ledger holds reserved for a key is
  exactly the sum of the reservations its requests still carry, consumption stays within range, and
  consumption plus reservations never exceed the key's high-water mark.
\<close>

theorem budget_reservations_conserved:
  assumes "budget_reachable s"
  shows "bv_reserved (ledger_view (sys_ledger s) key) = open_tokens (sys_open s) key \<and>
    bv_consumed (ledger_view (sys_ledger s) key) \<le> MAX_TOKENS \<and>
    (\<forall>e. btree_get (lg_entries (sys_ledger s)) key = Some e \<longrightarrow> held e \<le> en_drawn e)"
proof -
  have inv: "ledger_inv (sys_ledger s)"
    and res: "reserved_of (sys_ledger s) key = open_tokens (sys_open s) key"
    using reachable_inv [OF assms] by (simp_all add: system_inv_def)
  show ?thesis
    using res ledger_inv_entry(1) [OF inv, of key "[]"]
    unfolding view_entry by (auto simp: entry_view_def entry_ok_def entry_or_new_def)
qed

theorem budget_reservations_conserved_witness:
  "bv_reserved (ledger_view ex_reserved ''k'') = 100"
  using budget_reservations_conserved [OF ex_reserved_reachable, of "''k''"] by simp

text \<open>Whether a request fits: nothing is admitted against future credit, and an exhausted budget funds nothing.\<close>

definition fits :: "budget_view \<Rightarrow> nat \<Rightarrow> bool" where
  "fits v tokens \<longleftrightarrow>
     (let h = min (bv_consumed v + bv_reserved v) MAX_TOKENS
      in h + tokens \<le> MAX_TOKENS \<and> is_none_or (\<lambda>l. h < l \<and> h + tokens \<le> l) (bv_limit v))"

text \<open>
  Whether the journal already charges the key for a further request: its last mark was committed, and a restart would
  count at least what is consumed, held and asked for as spent.
\<close>

definition covered :: "budget_ledger \<Rightarrow> key_id \<Rightarrow> nat \<Rightarrow> bool" where
  "covered lg key tokens \<longleftrightarrow>
     is_none_or (\<lambda>e. \<not> en_undurable e) (btree_get (lg_entries lg) key) \<and>
     min (bv_consumed (ledger_view lg key) + bv_reserved (ledger_view lg key)) MAX_TOKENS + tokens
       \<le> bv_consumed (ledger_view (restart lg) key)"

lemma covered_entry:
  assumes "ledger_inv lg" "e = entry_or_new lg key tenant"
  shows "covered lg key tokens \<longleftrightarrow> \<not> en_undurable e \<and> held e + tokens \<le> en_drawn e"
proof -
  let ?e = "entry_or_new lg key []"
  have e: "en_undurable ?e = en_undurable e" "en_drawn ?e = en_drawn e" "held ?e = held e"
    unfolding assms(2) using entry_or_new_tenant [of lg key tenant "[]"] by (auto simp: held_def)
  have "\<not> en_undurable ?e \<Longrightarrow> en_consumed (durable_entry (lg_journal lg) key) = en_drawn ?e"
    using ledger_inv_entry(2) [OF assms(1), of key "[]"] by (simp add: agrees_def)
  then show ?thesis
    unfolding covered_def not_undurable view_entry restart_entry using e by (auto simp: entry_view_def held_eq)
qed

text \<open>
  C33: a reservation is granted exactly when it fits and can be made durable: the journal takes the raised mark, or it
  already charges the key for the request. A granted one adds its tokens to what the key holds, never past a finite
  limit, and leaves every other key alone; after it a restart counts everything the key has consumed and holds, the
  new reservation included, as spent, and without the journal nothing was written. A refused one changes no view and
  writes no record; it is reported as exhausted exactly when the request does not fit, and as unavailable exactly when it
  fits but the journal failed and does not already cover it.
\<close>

theorem reserve_exact:
  assumes "budget_reachable s" "reserve (sys_ledger s) key tenant tokens ok = (res, lg')"
  shows "case res of
      Inr r \<Rightarrow> r = \<lparr>rv_key = key, rv_tokens = tokens\<rparr> \<and> fits (ledger_view (sys_ledger s) key) tokens \<and>
        (ok \<or> covered (sys_ledger s) key tokens \<and> lg_journal lg' = lg_journal (sys_ledger s)) \<and>
        ledger_view lg' k =
          (if k = key then (ledger_view (sys_ledger s) k)
             \<lparr>bv_reserved := bv_reserved (ledger_view (sys_ledger s) k) + tokens\<rparr>
           else ledger_view (sys_ledger s) k) \<and>
        is_none_or (\<lambda>l. bv_consumed (ledger_view lg' key) + bv_reserved (ledger_view lg' key) \<le> l)
          (bv_limit (ledger_view lg' key)) \<and>
        min (bv_consumed (ledger_view lg' key) + bv_reserved (ledger_view lg' key)) MAX_TOKENS
          \<le> bv_consumed (ledger_view (restart lg') key)
    | Inl x \<Rightarrow> ledger_view lg' k = ledger_view (sys_ledger s) k \<and> lg_journal lg' = lg_journal (sys_ledger s) \<and>
        (case x of Exhausted _ \<Rightarrow> \<not> fits (ledger_view (sys_ledger s) key) tokens
         | RefusalUnavailable \<Rightarrow> fits (ledger_view (sys_ledger s) key) tokens \<and>
             \<not> ok \<and> \<not> covered (sys_ledger s) key tokens)"
proof -
  let ?lg = "sys_ledger s"
  have inv: "ledger_inv ?lg" using reachable_inv [OF assms(1)] by (simp add: system_inv_def)
  define e where "e = entry_or_new ?lg key tenant"
  note ok = ledger_inv_entry [OF inv, of key tenant, folded e_def]
  note cov = covered_entry [OF inv e_def, of tokens]
  have v: "ledger_view ?lg key = entry_view e"
    using entry_or_new_tenant [of ?lg key tenant "[]"] by (auto simp: view_entry e_def entry_view_def)
  have fit: "fits (ledger_view ?lg key) tokens \<longleftrightarrow> held e + tokens \<le> MAX_TOKENS \<and>
      is_none_or (\<lambda>l. held e < l \<and> held e + tokens \<le> l) (en_limit e)"
    unfolding v fits_def by (simp add: entry_view_def held_eq Let_def)
  have total: "en_consumed e + (en_reserved e + tokens) \<le> l"
    if "en_limit e = Some l" "is_none_or (\<lambda>l. held e < l \<and> held e + tokens \<le> l) (en_limit e)" for l
    using that ok(1) by (auto simp: entry_ok_def held_eq min_def split: if_splits)
  have granted: ?thesis
    if r: "res = Inr \<lparr>rv_key = key, rv_tokens = tokens\<rparr>"
      and lim: "held e + tokens \<le> MAX_TOKENS" "is_none_or (\<lambda>l. held e < l \<and> held e + tokens \<le> l) (en_limit e)"
      and lg': "\<And>k. entry_or_new lg' k [] = (if k = key then e' else entry_or_new ?lg k [])"
      and e': "entry_view e' = (entry_view e)\<lparr>bv_reserved := en_reserved e + tokens\<rparr>" "\<not> en_undurable e'"
      and jn: "ok \<or> covered ?lg key tokens \<and> lg_journal lg' = lg_journal ?lg" for e'
  proof -
    have "fits (ledger_view ?lg key) tokens" using lim fit by simp
    moreover have "ledger_view lg' k = (if k = key then (ledger_view ?lg k)
        \<lparr>bv_reserved := bv_reserved (ledger_view ?lg k) + tokens\<rparr> else ledger_view ?lg k)" for k
      using v e'(1) by (simp add: view_entry lg') (simp add: entry_view_def)
    moreover have "is_none_or (\<lambda>l. en_consumed e + (en_reserved e + tokens) \<le> l) (en_limit e)"
      using total lim(2) by (cases "en_limit e") auto
    moreover have "min (en_consumed e' + en_reserved e') MAX_TOKENS \<le> en_consumed (durable_entry (lg_journal lg') key)"
      using ledger_inv_entry [OF reserve_inv [OF inv assms(2)], of key "[]"] e'(2)
      by (simp add: lg' agrees_def entry_ok_def held_eq)
    ultimately show ?thesis using r v jn e'(1) by (simp add: view_entry restart_entry lg' entry_view_def)
  qed
  from assms(2) e_def show ?thesis
  proof (cases rule: reserve_cases)
    case (refused x)
    then show ?thesis using v fit [unfolded v] cov by (cases x) (auto simp: view_entry)
  next
    case under
    show ?thesis
      by (rule granted [OF under(1-3), of "e\<lparr>en_reserved := en_reserved e + tokens\<rparr>"])
        (use under(4,5) cov in \<open>simp_all add: under(6) reserved_add(1) [OF ok(1) under(2)] entry_view_def\<close>)
  next
    case (draw drawn)
    show ?thesis
      by (rule granted [OF draw(1-3), of "e\<lparr>en_drawn := drawn, en_undurable := False, en_reserved := en_reserved e + tokens\<rparr>"])
        (simp_all add: draw(5,6) reserved_add(1) [OF ok(1) draw(2)] entry_view_def)
  qed
qed

theorem reserve_exact_witness:
  "bv_consumed (ledger_view ex_reserved ''k'') + bv_reserved (ledger_view ex_reserved ''k'') \<le> 1000 \<and>
   min (bv_consumed (ledger_view ex_reserved ''k'') + bv_reserved (ledger_view ex_reserved ''k'')) MAX_TOKENS
     \<le> bv_consumed (ledger_view (restart ex_reserved) ''k'')"
proof -
  have "budget_reachable \<lparr>sys_ledger = ex_limited, sys_open = {#}\<rparr>"
    using ex_limited_step by (auto simp: budget_reachable_def)
  moreover have "bv_limit (ledger_view ex_reserved ''k'') = Some 1000"
    by (simp add: budget_eval ledger_view_def)
  moreover have "reserve (sys_ledger \<lparr>sys_ledger = ex_limited, sys_open = {#}\<rparr>) ''k'' ''t'' 100 True =
      (Inr \<lparr>rv_key = ''k'', rv_tokens = 100\<rparr>, ex_reserved)" using ex_reserve_granted by simp
  ultimately show ?thesis
    using reserve_exact [of "\<lparr>sys_ledger = ex_limited, sys_open = {#}\<rparr>" "''k''" "''t''" 100 True
        "Inr \<lparr>rv_key = ''k'', rv_tokens = 100\<rparr>" ex_reserved "''other''"]
    by (simp only: sum.case is_none_or_simps simp_thms)
qed

text \<open>
  C34: a credit is applied once. After a credit was applied, in every later state (through any
  interleaving of reservations, settlements, limit changes, other credits, flushes and restarts), a
  request with the same idempotency key and digest gets the original receipt back, adds nothing and
  changes no view; the same key with a different digest is a conflict.
\<close>

theorem credit_applied_once:
  assumes "budget_reachable s" "credit (sys_ledger s) c ok = (Inr out, lg')"
    and "budget_step\<^sup>*\<^sup>* \<lparr>sys_ledger = lg', sys_open = sys_open s\<rparr> s'"
    and "cr_key c' = cr_key c" "cr_idempotency_key c' = cr_idempotency_key c"
  shows "if cr_request_digest c' = cr_request_digest c
    then \<exists>out'. fst (credit (sys_ledger s') c' ok') = Inr out' \<and> co_replayed out' \<and>
      co_receipt out' = co_receipt out \<and>
      (\<forall>k. ledger_view (snd (credit (sys_ledger s') c' ok')) k = ledger_view (sys_ledger s') k)
    else fst (credit (sys_ledger s') c' ok') = Inl IdempotencyConflict"
proof -
  have inv: "system_inv s" by (rule reachable_inv [OF assms(1)])
  have inv': "system_inv \<lparr>sys_ledger = lg', sys_open = sys_open s\<rparr>"
    using system_inv_step [OF step_credit [OF assms(2), of "sys_open s"]] inv by (simp add: system_inv_def)
  define e where "e = entry_or_new (sys_ledger s) (cr_key c) (cr_tenant c)"
  have rc: "receipt lg' (cr_key c) (cr_idempotency_key c) = Some (co_receipt out) \<and>
      rc_request_digest (co_receipt out) = cr_request_digest c"
    using assms(2) e_def
    by (cases rule: credit_cases) (auto simp: receipt_def credited_def btree_get_insert)
  then have rc': "receipt (sys_ledger s') (cr_key c) (cr_idempotency_key c) = Some (co_receipt out)"
    using receipt_kept_steps [OF assms(3) inv'] by simp
  define e' where "e' = entry_or_new (sys_ledger s') (cr_key c') (cr_tenant c')"
  have g: "btree_get (en_receipts e') (cr_idempotency_key c') = Some (co_receipt out)"
    using rc' assms(4,5) entry_or_new_irrelevant(2) [of "sys_ledger s'" "cr_key c'" "cr_tenant c'"]
    unfolding receipt_eq e'_def by simp
  have v: "ledger_view (put_entry (cr_key c') e' (sys_ledger s')) k = ledger_view (sys_ledger s') k" for k
    using entry_or_new_tenant [of "sys_ledger s'" "cr_key c'" "cr_tenant c'" "[]"]
    by (auto simp: view_entry e'_def entry_view_def)
  show ?thesis
    using g rc v unfolding credit_def e'_def [symmetric] Let_def by simp
qed

theorem credit_applied_once_witness:
  "\<exists>out'. fst (credit (restart ex_credited) ex_credit False) = Inr out' \<and> co_replayed out'"
proof -
  let ?s = "\<lparr>sys_ledger = ex_reserved, sys_open = {#\<lparr>rv_key = ''k'', rv_tokens = 100\<rparr>#}\<rparr>"
  obtain out where out: "credit (sys_ledger ?s) ex_credit True = (Inr out, ex_credited)"
    using ex_credit_applied by auto
  have "budget_step\<^sup>*\<^sup>* \<lparr>sys_ledger = ex_credited, sys_open = sys_open ?s\<rparr>
      \<lparr>sys_ledger = restart ex_credited, sys_open = {#}\<rparr>"
    by (rule r_into_rtranclp, rule step_crash)
  from credit_applied_once [OF ex_reserved_reachable out this refl refl, of False]
  show ?thesis by auto
qed

text \<open>
  C35: a clean shutdown loses nothing. After a flush that reports no failure, the ledger rebuilt from the
  journal counts as consumed exactly what was consumed plus what is still held.
\<close>

theorem flush_then_restart_exact:
  assumes "budget_reachable s" "flush (sys_ledger s) oks = (0, lg')"
  shows "bv_consumed (ledger_view (restart lg') key) =
    min (bv_consumed (ledger_view (sys_ledger s) key) + bv_reserved (ledger_view (sys_ledger s) key)) MAX_TOKENS"
proof -
  let ?e = "entry_or_new (sys_ledger s) key []"
  have inv: "ledger_inv (sys_ledger s)" using reachable_inv [OF assms(1)] by (simp add: system_inv_def)
  have inv': "ledger_inv lg'" using flush_inv [OF inv, of oks] assms(2) by simp
  have none: "needs_flush x \<Longrightarrow> oks k" if "(k, x) \<in> set (lg_entries (sys_ledger s))" for k x
    using that assms(2) flush_loop_count [of oks "lg_entries (sys_ledger s)" "sys_ledger s" 0]
    by (auto simp: flush_def filter_empty_conv)
  have k: "needs_flush ?e \<Longrightarrow> oks key"
  proof (cases "btree_get (lg_entries (sys_ledger s)) key")
    case None
    then show "needs_flush ?e \<Longrightarrow> oks key"
      by (simp add: entry_or_new_def entry_new_def needs_flush_def held_eq)
  next
    case (Some x)
    then show "needs_flush ?e \<Longrightarrow> oks key"
      using none [of key x] by (auto simp: entry_or_new_def btree_get_def dest: map_of_SomeD)
  qed
  have e': "entry_or_new lg' key [] = flush_entry oks key ?e"
    using flush_entry_or_new [OF inv, of oks key "[]"] assms(2) by simp
  have "en_drawn (entry_or_new lg' key []) = held ?e \<and> \<not> en_undurable (entry_or_new lg' key [])"
    unfolding e' using k by (auto simp: flush_entry_def needs_flush_def)
  then have "en_consumed (durable_entry (lg_journal lg') key) = held ?e"
    using ledger_inv_entry(2) [OF inv', of key "[]"] by (simp add: agrees_def)
  then show ?thesis unfolding view_entry restart_entry by (simp add: entry_view_def held_eq)
qed

theorem flush_then_restart_exact_witness:
  "bv_consumed (ledger_view (restart (snd (flush ex_reserved (\<lambda>_. True)))) ''k'') = 100"
proof -
  have f: "fst (flush ex_reserved (\<lambda>_. True)) = 0"
    unfolding flush_def flush_loop_count by simp
  have "flush (sys_ledger \<lparr>sys_ledger = ex_reserved, sys_open = {#\<lparr>rv_key = ''k'', rv_tokens = 100\<rparr>#}\<rparr>) (\<lambda>_. True) =
      (0, snd (flush ex_reserved (\<lambda>_. True)))"
    using f by (simp add: prod_eq_iff)
  from flush_then_restart_exact [OF ex_reserved_reachable this, of "''k''"] show ?thesis
    by (simp add: budget_eval ledger_view_def)
qed

text \<open>
  What a crash can cost after a released reservation. A first reservation on an unlimited key raises
  the durable mark by its own size plus the headroom, and releasing it does not lower the mark: with
  nothing spent and nothing in flight, a restart still charges the released tokens and the headroom.
\<close>

theorem release_keeps_mark:
  assumes "t + d \<le> MAX_TOKENS" "0 < t" "lg = snd (reserve (ledger_new d) key tenant t True)"
  shows "ledger_view (release lg \<lparr>rv_key = key, rv_tokens = t\<rparr> ok) key =
      \<lparr>bv_limit = None, bv_consumed = 0, bv_reserved = 0, bv_revision = 0, bv_payment = None\<rparr> \<and>
    bv_consumed (ledger_view (restart (release lg \<lparr>rv_key = key, rv_tokens = t\<rparr> ok)) key) = t + d"
proof -
  have le: "t \<le> MAX_TOKENS" "d \<le> MAX_TOKENS" "t + d \<le> u64_max" using assms(1) max_tokens_le by auto
  have lg: "lg = commit (entry_record (entry_new tenant) key (t + d))
      (put_entry key ((entry_new tenant)\<lparr>en_drawn := t + d, en_undurable := False, en_reserved := t\<rparr>) (ledger_new d))"
    using assms le
    by (simp add: reserve_def entry_or_new_def ledger_new_def btree_get_def entry_new_def held_eq sat_add64_def
        sat_u64_def Let_def)
  have rel: "release lg \<lparr>rv_key = key, rv_tokens = t\<rparr> ok = put_entry key ((entry_new tenant)\<lparr>en_drawn := t + d\<rparr>) lg"
    by (simp add: release_def finish_def lg entry_new_def held_eq Let_def sat_add64_def sat_u64_def)
  show ?thesis
    unfolding rel
    using assms(1)
    by (simp add: view_entry restart_entry entry_view_def entry_new_def lg durable_entry_def replay_def
        restore_def restored_def entry_record_def Let_def ledger_new_def)
qed

theorem release_keeps_mark_witness:
  "bv_consumed (ledger_view (restart (release (snd (reserve (ledger_new 0) ''k'' ''t'' 1000 True))
     \<lparr>rv_key = ''k'', rv_tokens = 1000\<rparr> True)) ''k'') = 1000"
  using release_keeps_mark [of 1000 0 "snd (reserve (ledger_new 0) ''k'' ''t'' 1000 True)" "''k''" "''t''" True]
  by (simp add: MAX_TOKENS_def u64_max_def)

end
