(* ===== verification/Buckets.thy ===== *)
theory Buckets
  imports Prelude
begin

text \<open>
  The refilling token bucket of admission control (\<open>hypellm-core/src/admission.rs\<close>,
  \<open>TokenBucket\<close>): fixed-point in thousandths of a unit over monotonic milliseconds, with debt for a
  request larger than the bucket. The bucket's mutex makes each operation one atomic step.
\<close>

section \<open>Shapes and state\<close>

record bucket_shape =
  sh_capacity_milli :: nat
  sh_refill_milli_per_ms :: nat

definition shape_per_second :: "nat \<Rightarrow> nat \<Rightarrow> bucket_shape" where
  "shape_per_second rate burst =
     \<lparr>sh_capacity_milli = sat_mul64 (max (max burst rate) 1) 1000, sh_refill_milli_per_ms = rate\<rparr>"

definition shape_per_minute :: "nat \<Rightarrow> nat \<Rightarrow> bucket_shape" where
  "shape_per_minute rate burst =
     \<lparr>sh_capacity_milli = sat_mul64 (max (max burst (div_ceil rate 60)) 1) 1000,
      sh_refill_milli_per_ms = sat_mul64 rate 1000 div 60000\<rparr>"

record bucket =
  bk_capacity_milli :: nat
  bk_refill_milli_per_ms :: nat
  bk_level_milli :: nat
  bk_last_ms :: nat
  bk_debt_milli :: nat

definition bucket_credit :: "nat \<Rightarrow> bucket \<Rightarrow> bucket" where
  "bucket_credit amount b =
     (let paid = min amount (bk_debt_milli b)
      in b\<lparr>bk_debt_milli := bk_debt_milli b - paid,
           bk_level_milli := min (sat_add64 (bk_level_milli b) (amount - paid)) (bk_capacity_milli b)\<rparr>)"

definition bucket_full :: "bucket_shape \<Rightarrow> nat \<Rightarrow> bucket" where
  "bucket_full sh now =
     \<lparr>bk_capacity_milli = sh_capacity_milli sh, bk_refill_milli_per_ms = sh_refill_milli_per_ms sh,
      bk_level_milli = sh_capacity_milli sh, bk_last_ms = now, bk_debt_milli = 0\<rparr>"

definition bucket_refill :: "nat \<Rightarrow> bucket \<Rightarrow> bucket" where
  "bucket_refill now b =
     (let elapsed = now - bk_last_ms b
      in if elapsed = 0 then b
         else (bucket_credit (sat_mul64 elapsed (bk_refill_milli_per_ms b)) b)\<lparr>bk_last_ms := now\<rparr>)"

definition bucket_retune :: "bucket_shape \<Rightarrow> nat \<Rightarrow> bucket \<Rightarrow> bucket" where
  "bucket_retune sh now b =
     (let b1 = bucket_refill now b
      in b1\<lparr>bk_capacity_milli := sh_capacity_milli sh,
            bk_refill_milli_per_ms := sh_refill_milli_per_ms sh,
            bk_level_milli := min (bk_level_milli b1) (sh_capacity_milli sh)\<rparr>)"

definition try_take :: "nat \<Rightarrow> nat \<Rightarrow> bucket \<Rightarrow> bool \<times> bucket" where
  "try_take amount now b =
     (let b1 = bucket_refill now b;
          want = sat_mul64 amount 1000
      in if bk_debt_milli b1 > 0 then (False, b1)
         else if want > bk_capacity_milli b1 then
           if bk_level_milli b1 < bk_capacity_milli b1 then (False, b1)
           else (True, b1\<lparr>bk_debt_milli := want - bk_level_milli b1, bk_level_milli := 0\<rparr>)
         else if bk_level_milli b1 \<ge> want then (True, b1\<lparr>bk_level_milli := bk_level_milli b1 - want\<rparr>)
         else (False, b1))"

definition bucket_refund :: "nat \<Rightarrow> bucket \<Rightarrow> bucket" where
  "bucket_refund amount b = bucket_credit (sat_mul64 amount 1000) b"

definition bucket_charge :: "nat \<Rightarrow> nat \<Rightarrow> bucket \<Rightarrow> bucket" where
  "bucket_charge amount now b =
     (let b1 = bucket_refill now b
      in b1\<lparr>bk_level_milli := bk_level_milli b1 - sat_mul64 amount 1000\<rparr>)"

definition bucket_level :: "bucket \<Rightarrow> nat" where
  "bucket_level b = bk_level_milli b div 1000"

section \<open>Invariant\<close>

definition bucket_ok :: "bucket \<Rightarrow> bool" where
  "bucket_ok b \<longleftrightarrow>
     bk_level_milli b \<le> bk_capacity_milli b \<and> bk_capacity_milli b \<le> u64_max \<and>
     (bk_debt_milli b > 0 \<longrightarrow> bk_level_milli b = 0)"

lemma credit_ok: "bucket_ok b \<Longrightarrow> bucket_ok (bucket_credit n b)"
  by (auto simp: bucket_ok_def bucket_credit_def Let_def sat_add64_def sat_u64_def)

lemma refill_ok: "bucket_ok b \<Longrightarrow> bucket_ok (bucket_refill now b)"
  using credit_ok [of b] by (auto simp: bucket_refill_def Let_def bucket_ok_def)

lemma full_ok: "sh_capacity_milli sh \<le> u64_max \<Longrightarrow> bucket_ok (bucket_full sh now)"
  by (simp add: bucket_full_def bucket_ok_def)

lemma shape_capacity: "sh_capacity_milli (shape_per_second r b) \<le> u64_max" "sh_capacity_milli (shape_per_minute r b) \<le> u64_max"
  by (simp_all add: shape_per_second_def shape_per_minute_def)

lemma retune_ok: "bucket_ok b \<Longrightarrow> sh_capacity_milli sh \<le> u64_max \<Longrightarrow> bucket_ok (bucket_retune sh now b)"
  using refill_ok [of b now] by (auto simp: bucket_retune_def Let_def bucket_ok_def)

lemma take_ok: "bucket_ok b \<Longrightarrow> bucket_ok (snd (try_take n now b))"
  using refill_ok [of b now] by (auto simp: try_take_def Let_def bucket_ok_def)

lemma refund_ok: "bucket_ok b \<Longrightarrow> bucket_ok (bucket_refund n b)"
  by (simp add: bucket_refund_def credit_ok)

lemma charge_ok: "bucket_ok b \<Longrightarrow> bucket_ok (bucket_charge n now b)"
  using refill_ok [of b now] by (auto simp: bucket_charge_def Let_def bucket_ok_def)

section \<open>Potential\<close>

text \<open>What the bucket is worth: its level less its debt. Credit raises it by at most the amount.\<close>

definition worth :: "bucket \<Rightarrow> int" where
  "worth b = int (bk_level_milli b) - int (bk_debt_milli b)"

lemma credit_worth: "worth (bucket_credit n b) \<le> worth b + int n"
  by (auto simp: worth_def bucket_credit_def Let_def sat_add64_def sat_u64_def)

lemma refill_worth:
  "worth (bucket_refill now b) \<le> worth b + int ((now - bk_last_ms b) * bk_refill_milli_per_ms b)"
proof -
  have "sat_mul64 (now - bk_last_ms b) (bk_refill_milli_per_ms b) \<le> (now - bk_last_ms b) * bk_refill_milli_per_ms b"
    by (simp add: sat_mul64_def sat_u64_def)
  then have "int (sat_mul64 (now - bk_last_ms b) (bk_refill_milli_per_ms b)) \<le> int ((now - bk_last_ms b) * bk_refill_milli_per_ms b)"
    by (simp only: of_nat_le_iff)
  then show ?thesis
    using credit_worth [of "sat_mul64 (now - bk_last_ms b) (bk_refill_milli_per_ms b)" b]
    by (auto simp: bucket_refill_def Let_def worth_def)
qed

lemma refill_sel [simp]:
  "bk_capacity_milli (bucket_refill now b) = bk_capacity_milli b"
  "bk_refill_milli_per_ms (bucket_refill now b) = bk_refill_milli_per_ms b"
  "bk_last_ms (bucket_refill now b) = max (bk_last_ms b) now"
  by (auto simp: bucket_refill_def bucket_credit_def Let_def)

text \<open>An admission takes exactly its price off the worth, whether or not it runs into debt.\<close>

lemma take_worth:
  "bucket_ok b \<Longrightarrow> worth (snd (try_take n now b)) =
     worth (bucket_refill now b) - (if fst (try_take n now b) then int (sat_mul64 n 1000) else 0)"
  using refill_ok [of b now] by (auto simp: try_take_def Let_def worth_def bucket_ok_def)

lemma take_sel [simp]:
  "bk_capacity_milli (snd (try_take n now b)) = bk_capacity_milli b"
  "bk_refill_milli_per_ms (snd (try_take n now b)) = bk_refill_milli_per_ms b"
  "bk_last_ms (snd (try_take n now b)) = max (bk_last_ms b) now"
  by (auto simp: try_take_def Let_def)

lemma take_granted: "fst (try_take n now b) \<Longrightarrow> 0 \<le> worth (bucket_refill now b)"
  by (auto simp: try_take_def Let_def worth_def split: if_splits)

lemma refund_worth: "worth (bucket_refund n b) \<le> worth b + int (sat_mul64 n 1000)"
  unfolding bucket_refund_def by (rule credit_worth)

lemma refund_sel [simp]:
  "bk_capacity_milli (bucket_refund n b) = bk_capacity_milli b"
  "bk_refill_milli_per_ms (bucket_refund n b) = bk_refill_milli_per_ms b"
  "bk_last_ms (bucket_refund n b) = bk_last_ms b"
  by (auto simp: bucket_refund_def bucket_credit_def Let_def)

lemma charge_sel [simp]:
  "bk_refill_milli_per_ms (bucket_charge n now b) = bk_refill_milli_per_ms b"
  "bk_last_ms (bucket_charge n now b) = max (bk_last_ms b) now"
  by (auto simp: bucket_charge_def Let_def)

lemma retune_sel [simp]:
  "bk_refill_milli_per_ms (bucket_retune sh now b) = sh_refill_milli_per_ms sh"
  "bk_last_ms (bucket_retune sh now b) = max (bk_last_ms b) now"
  by (auto simp: bucket_retune_def Let_def)

text \<open>A charge takes what the level covers; a new shape never adds to what the bucket is worth.\<close>

lemma charge_worth:
  "worth (bucket_charge n now b) =
     worth (bucket_refill now b) - int (min (sat_mul64 n 1000) (bk_level_milli (bucket_refill now b)))"
  by (auto simp: bucket_charge_def Let_def worth_def min_def of_nat_diff)

lemma retune_worth: "worth (bucket_retune sh now b) \<le> worth (bucket_refill now b)"
  by (auto simp: bucket_retune_def Let_def worth_def)

text \<open>
  A history of a bucket: what is done to it, what it paid out so far (the full price of every grant, and of a charge
  what the level covered), and what was refunded.
\<close>

datatype bucket_op = OpTake nat nat | OpRefund nat | OpCharge nat nat | OpRetune bucket_shape nat

record bucket_run =
  rn_bucket :: bucket
  rn_paid :: nat
  rn_refunded :: nat

fun bucket_op_step :: "bucket_op \<Rightarrow> bucket_run \<Rightarrow> bucket_run" where
  "bucket_op_step (OpTake n now) r =
     r\<lparr>rn_bucket := snd (try_take n now (rn_bucket r)),
       rn_paid := rn_paid r + (if fst (try_take n now (rn_bucket r)) then sat_mul64 n 1000 else 0)\<rparr>"
| "bucket_op_step (OpRefund n) r =
     r\<lparr>rn_bucket := bucket_refund n (rn_bucket r), rn_refunded := rn_refunded r + sat_mul64 n 1000\<rparr>"
| "bucket_op_step (OpCharge n now) r =
     r\<lparr>rn_bucket := bucket_charge n now (rn_bucket r),
       rn_paid := rn_paid r + min (sat_mul64 n 1000) (bk_level_milli (bucket_refill now (rn_bucket r)))\<rparr>"
| "bucket_op_step (OpRetune sh now) r = r\<lparr>rn_bucket := bucket_retune sh now (rn_bucket r)\<rparr>"

definition run_ops :: "bucket_op list \<Rightarrow> bucket \<Rightarrow> bucket_run" where
  "run_ops ops b = fold bucket_op_step ops \<lparr>rn_bucket = b, rn_paid = 0, rn_refunded = 0\<rparr>"

text \<open>The shapes a history retunes to stay within the machine's integers and below a rate.\<close>

fun op_within :: "nat \<Rightarrow> bucket_op \<Rightarrow> bool" where
  "op_within rate (OpRetune sh _) \<longleftrightarrow> sh_capacity_milli sh \<le> u64_max \<and> sh_refill_milli_per_ms sh \<le> rate"
| "op_within rate _ \<longleftrightarrow> True"

text \<open>What has been paid out is covered by what the bucket had, its refill and the refunds.\<close>

definition run_inv :: "nat \<Rightarrow> nat \<Rightarrow> nat \<Rightarrow> bucket_run \<Rightarrow> bool" where
  "run_inv capacity t0 rate r \<longleftrightarrow> bucket_ok (rn_bucket r) \<and> t0 \<le> bk_last_ms (rn_bucket r) \<and>
     bk_refill_milli_per_ms (rn_bucket r) \<le> rate \<and>
     worth (rn_bucket r) + int (rn_paid r) \<le>
       int capacity + int ((bk_last_ms (rn_bucket r) - t0) * rate) + int (rn_refunded r)"

lemma refill_within:
  assumes "t0 \<le> bk_last_ms b" "bk_refill_milli_per_ms b \<le> rate"
  shows "worth (bucket_refill now b) - worth b \<le> int ((max (bk_last_ms b) now - t0) * rate) - int ((bk_last_ms b - t0) * rate)"
proof -
  have "(now - bk_last_ms b) * bk_refill_milli_per_ms b \<le> (now - bk_last_ms b) * rate" using assms(2) by simp
  moreover have "(max (bk_last_ms b) now - t0) * rate = (bk_last_ms b - t0) * rate + (now - bk_last_ms b) * rate"
    using assms(1) by (simp add: add_mult_distrib [symmetric] max_def)
  ultimately show ?thesis using refill_worth [of now b] by linarith
qed

lemma run_inv_step:
  assumes "run_inv capacity t0 rate r" "op_within rate x"
  shows "run_inv capacity t0 rate (bucket_op_step x r)"
proof -
  let ?b = "rn_bucket r"
  have ok: "bucket_ok ?b" and t: "t0 \<le> bk_last_ms ?b" and le: "bk_refill_milli_per_ms ?b \<le> rate"
    and w: "worth ?b + int (rn_paid r) \<le> int capacity + int ((bk_last_ms ?b - t0) * rate) + int (rn_refunded r)"
    using assms(1) unfolding run_inv_def by blast+
  note grow = refill_within [OF t le]
  show ?thesis
  proof (cases x)
    case (OpTake n now)
    then show ?thesis using ok t le w grow [of now] take_worth [OF ok, of n now]
      by (simp add: run_inv_def take_ok)
  next
    case (OpRefund n)
    then show ?thesis using ok t le w refund_worth [of n ?b] by (simp add: run_inv_def refund_ok)
  next
    case (OpCharge n now)
    then show ?thesis using ok t le w grow [of now] charge_worth [of n now ?b]
      by (simp add: run_inv_def charge_ok)
  next
    case (OpRetune sh now)
    then show ?thesis using ok t w grow [of now] retune_worth [of sh now ?b] assms(2)
      by (simp add: run_inv_def retune_ok)
  qed
qed

lemma run_inv_ops: "run_inv capacity t0 rate r \<Longrightarrow> list_all (op_within rate) ops \<Longrightarrow> run_inv capacity t0 rate (fold bucket_op_step ops r)"
  by (induction ops arbitrary: r) (simp_all add: run_inv_step)

lemma run_inv_full:
  "sh_capacity_milli sh \<le> u64_max \<Longrightarrow> sh_refill_milli_per_ms sh \<le> rate \<Longrightarrow>
     run_inv (sh_capacity_milli sh) t0 rate \<lparr>rn_bucket = bucket_full sh t0, rn_paid = 0, rn_refunded = 0\<rparr>"
  by (simp add: run_inv_def full_ok) (simp add: bucket_full_def worth_def)

text \<open>
  C39: the bucket honours its rate over time, oversized requests included, under every sequence of takes, refunds,
  charges and changes of its shape. Whenever a take is granted at time \<open>t\<close>, everything paid out before it since the
  bucket was full at time \<open>t0\<close> (the full price of every granted take, and of every charge what the level covered) is
  at most the first capacity, plus the refill of the elapsed time at the highest rate in force, plus what was refunded;
  a request beyond the capacity is charged in full and paid off before the next grant.
\<close>

theorem bucket_rate_bound:
  assumes "sh_capacity_milli sh \<le> u64_max" "sh_refill_milli_per_ms sh \<le> rate" "list_all (op_within rate) ops"
    and "run_ops ops (bucket_full sh t0) = r" "fst (try_take n t (rn_bucket r))" "bk_last_ms (rn_bucket r) \<le> t"
  shows "rn_paid r \<le> sh_capacity_milli sh + (t - t0) * rate + rn_refunded r"
proof -
  have inv: "run_inv (sh_capacity_milli sh) t0 rate r"
    using run_inv_ops [OF run_inv_full [OF assms(1,2)] assms(3), of t0] assms(4) by (simp add: run_ops_def)
  have "worth (bucket_refill t (rn_bucket r)) + int (rn_paid r) \<le>
      int (sh_capacity_milli sh) + int ((t - t0) * rate) + int (rn_refunded r)"
    using inv refill_within [of t0 "rn_bucket r" rate t, unfolded max_absorb2 [OF assms(6)]] unfolding run_inv_def by linarith
  with take_granted [OF assms(5)] show ?thesis by linarith
qed

theorem bucket_rate_bound_witness:
  "run_ops [OpTake 10 0, OpRefund 10, OpTake 25 0] (bucket_full (shape_per_second 10 10) 0) =
     \<lparr>rn_bucket = \<lparr>bk_capacity_milli = 10000, bk_refill_milli_per_ms = 10, bk_level_milli = 0, bk_last_ms = 0,
        bk_debt_milli = 15000\<rparr>, rn_paid = 35000, rn_refunded = 10000\<rparr> \<and>
   (35000 :: nat) \<le> 10000 + 2500 * 10 + 10000"
proof -
  let ?r = "run_ops [OpTake 10 0, OpRefund 10, OpTake 25 0] (bucket_full (shape_per_second 10 10) 0)"
  note eval = try_take_def bucket_refill_def bucket_credit_def sat_mul64_def sat_add64_def sat_u64_def u64_max_def Let_def
  have run: "?r = \<lparr>rn_bucket = \<lparr>bk_capacity_milli = 10000, bk_refill_milli_per_ms = 10, bk_level_milli = 0, bk_last_ms = 0,
        bk_debt_milli = 15000\<rparr>, rn_paid = 35000, rn_refunded = 10000\<rparr>"
    by (simp add: run_ops_def bucket_full_def shape_per_second_def bucket_refund_def eval)
  have "fst (try_take 5 2500 (rn_bucket ?r))" "bk_last_ms (rn_bucket ?r) \<le> 2500"
    unfolding run by (simp_all add: eval)
  from bucket_rate_bound [OF shape_capacity(1) _ _ refl this, of 10] run show ?thesis
    by (simp add: shape_per_second_def sat_mul64_def sat_u64_def u64_max_def)
qed

text \<open>
  Rolling back a grant is exact. Refunding what a granted take took, at the same instant, restores
  the bucket the take found after its refill, for requests within the capacity and for oversized ones
  that ran into debt; a refused take takes nothing.
\<close>

lemma take_refund:
  assumes "bucket_ok b"
  shows "(if fst (try_take n now b) then bucket_refund n (snd (try_take n now b)) else snd (try_take n now b))
    = bucket_refill now b"
proof -
  define b1 where "b1 = bucket_refill now b"
  define want where "want = sat_mul64 n 1000"
  have ok: "bk_level_milli b1 \<le> bk_capacity_milli b1" "bk_capacity_milli b1 \<le> u64_max"
    using refill_ok [OF assms, of now] by (auto simp: bucket_ok_def b1_def)
  have w: "want \<le> u64_max" by (simp add: want_def)
  have over: "bucket_credit want (b1\<lparr>bk_debt_milli := want - bk_level_milli b1, bk_level_milli := 0\<rparr>) = b1"
    if "bk_debt_milli b1 = 0" "bk_level_milli b1 \<le> want"
    using that ok by (simp add: bucket_credit_def sat_add64_def sat_u64_def Let_def)
  have normal: "bucket_credit want (b1\<lparr>bk_level_milli := bk_level_milli b1 - want\<rparr>) = b1"
    if "bk_debt_milli b1 = 0" "want \<le> bk_level_milli b1"
    using that ok by (simp add: bucket_credit_def sat_add64_def sat_u64_def Let_def)
  show ?thesis
    unfolding try_take_def bucket_refund_def Let_def b1_def [symmetric] want_def [symmetric]
    using ok(1) over normal by (simp add: not_less)
qed

lemma take_refused: "bucket_ok b \<Longrightarrow> \<not> fst (try_take n now b) \<Longrightarrow> snd (try_take n now b) = bucket_refill now b"
  using take_refund [of b n now] by simp

lemma take_undone:
  "bucket_ok b \<Longrightarrow> fst (try_take n now b) \<Longrightarrow> bucket_refund n (snd (try_take n now b)) = bucket_refill now b"
  using take_refund [of b n now] by simp

lemma refill_again [simp]: "now \<le> bk_last_ms b \<Longrightarrow> bucket_refill now b = b"
  by (simp add: bucket_refill_def)

end
