(* ===== verification/Scopes.thy ===== *)
theory Scopes
  imports Buckets Access Errors
begin

text \<open>
  One level of the admission hierarchy (\<open>hypellm-core/src/admission.rs\<close>): limits and their partition
  over nodes, rejections, the waiting line, and the scope with its counters, buckets and budget period.

  The counters are atomics whose \<open>fetch_add\<close> and \<open>fetch_sub\<close> wrap around at their width, as here. Each
  operation is one atomic step; interleavings inside an operation are not modelled, and neither are the
  condition-variable wake-ups, which carry no data.
\<close>

section \<open>Limits\<close>

datatype budget_period = Daily | Monthly

fun period_millis :: "budget_period \<Rightarrow> nat" where
  "period_millis Daily = 24 * 60 * 60 * 1000"
| "period_millis Monthly = 30 * 24 * 60 * 60 * 1000"

definition period_parse :: "string \<Rightarrow> budget_period option" where
  "period_parse s = (if s = ''daily'' then Some Daily else if s = ''monthly'' then Some Monthly else None)"

fun period_as_str :: "budget_period \<Rightarrow> string" where
  "period_as_str Daily = ''daily''"
| "period_as_str Monthly = ''monthly''"

record scope_limits =
  max_concurrency :: nat
  max_queued :: nat
  requests_per_second :: nat
  request_burst :: nat
  tokens_per_minute :: nat
  token_burst :: nat
  budget_minor_units :: nat
  limits_period :: budget_period

definition UNLIMITED :: scope_limits where
  "UNLIMITED =
     \<lparr>max_concurrency = 0, max_queued = 0, requests_per_second = 0, request_burst = 0,
      tokens_per_minute = 0, token_burst = 0, budget_minor_units = 0, limits_period = Daily\<rparr>"

definition is_unlimited :: "scope_limits \<Rightarrow> bool" where
  "is_unlimited l = (max_concurrency l = 0 \<and> requests_per_second l = 0 \<and> tokens_per_minute l = 0)"

text \<open>\<open>checked_div\<close>, keeping the value when the divisor is zero.\<close>

definition divide_limit :: "nat \<Rightarrow> nat \<Rightarrow> nat" where
  "divide_limit v n = (if n = 0 then v else v div n)"

definition partitioned :: "scope_limits \<Rightarrow> nat \<Rightarrow> scope_limits" where
  "partitioned l n =
     (if n \<le> 1 then l
      else \<lparr>max_concurrency = divide_limit (max_concurrency l) n, max_queued = divide_limit (max_queued l) n,
            requests_per_second = divide_limit (requests_per_second l) n,
            request_burst = divide_limit (request_burst l) n,
            tokens_per_minute = divide_limit (tokens_per_minute l) n,
            token_burst = divide_limit (token_burst l) n,
            budget_minor_units = divide_limit (budget_minor_units l) n, limits_period = limits_period l\<rparr>)"

definition partition_underflows :: "scope_limits \<Rightarrow> nat \<Rightarrow> bool" where
  "partition_underflows l n =
     (if n \<le> 1 then False
      else max_concurrency l \<noteq> 0 \<and> max_concurrency l < n \<or>
           requests_per_second l \<noteq> 0 \<and> requests_per_second l < n \<or>
           tokens_per_minute l \<noteq> 0 \<and> tokens_per_minute l < n \<or>
           budget_minor_units l \<noteq> 0 \<and> budget_minor_units l < n)"

section \<open>Rejections\<close>

datatype rejection =
    ConcurrencyExhausted | QueueFull | QueueTimeout | RequestRateExceeded | ByteRateExceeded
  | BudgetExhausted | TokenRateExceeded | MemoryExhausted

fun rejection_exclusion :: "rejection \<Rightarrow> exclusion_reason" where
  "rejection_exclusion ConcurrencyExhausted = exclusion_reason.CapacityExhausted"
| "rejection_exclusion QueueFull = exclusion_reason.CapacityExhausted"
| "rejection_exclusion QueueTimeout = exclusion_reason.CapacityExhausted"
| "rejection_exclusion MemoryExhausted = exclusion_reason.CapacityExhausted"
| "rejection_exclusion RequestRateExceeded = BudgetExceeded"
| "rejection_exclusion TokenRateExceeded = BudgetExceeded"
| "rejection_exclusion ByteRateExceeded = BudgetExceeded"
| "rejection_exclusion BudgetExhausted = BudgetExceeded"

fun rejection_error_code :: "rejection \<Rightarrow> error_code" where
  "rejection_error_code ConcurrencyExhausted = CapacityExhaustedCode"
| "rejection_error_code QueueFull = CapacityExhaustedCode"
| "rejection_error_code QueueTimeout = CapacityExhaustedCode"
| "rejection_error_code MemoryExhausted = CapacityExhaustedCode"
| "rejection_error_code RequestRateExceeded = RateLimited"
| "rejection_error_code TokenRateExceeded = RateLimited"
| "rejection_error_code ByteRateExceeded = RateLimited"
| "rejection_error_code BudgetExhausted = RateLimited"

fun rejection_as_str :: "rejection \<Rightarrow> string" where
  "rejection_as_str ConcurrencyExhausted = ''concurrency_exhausted''"
| "rejection_as_str QueueFull = ''queue_full''"
| "rejection_as_str QueueTimeout = ''queue_timeout''"
| "rejection_as_str RequestRateExceeded = ''request_rate_exceeded''"
| "rejection_as_str TokenRateExceeded = ''token_rate_exceeded''"
| "rejection_as_str ByteRateExceeded = ''byte_rate_exceeded''"
| "rejection_as_str BudgetExhausted = ''budget_exhausted''"
| "rejection_as_str MemoryExhausted = ''memory_exhausted''"

section \<open>The waiting line\<close>

record waiter =
  wt_seq :: nat
  wt_class :: priority_class
  wt_tenant :: tenant_id
  wt_round :: nat

record queue_state =
  qs_waiting :: "waiter list"
  qs_next_seq :: nat

definition waiter_key :: "waiter \<Rightarrow> priority_class \<times> nat \<times> nat" where
  "waiter_key w = (wt_class w, wt_round w, wt_seq w)"

text \<open>\<open>Iterator::min_by_key\<close>: the first element with the least key.\<close>

definition min_by_key :: "('a \<Rightarrow> 'k::linorder) \<Rightarrow> 'a list \<Rightarrow> 'a option" where
  "min_by_key f xs = List.find (\<lambda>x. list_all (\<lambda>y. f x \<le> f y) xs) xs"

definition queue_head :: "queue_state \<Rightarrow> nat option" where
  "queue_head q = map_option wt_seq (min_by_key waiter_key (qs_waiting q))"

definition next_round :: "queue_state \<Rightarrow> priority_class \<Rightarrow> tenant_id \<Rightarrow> nat" where
  "next_round q cls tenant = length (filter (\<lambda>w. wt_class w = cls \<and> wt_tenant w = tenant) (qs_waiting q))"

section \<open>The scope\<close>

definition wrap_inc32 :: "nat \<Rightarrow> nat" where "wrap_inc32 n = (n + 1) mod 2 ^ 32"
definition wrap_dec32 :: "nat \<Rightarrow> nat" where "wrap_dec32 n = (n + (2 ^ 32 - 1)) mod 2 ^ 32"
definition wrap_inc64 :: "nat \<Rightarrow> nat" where "wrap_inc64 n = (n + 1) mod 2 ^ 64"

record scope =
  sc_name :: string
  sc_limits :: scope_limits
  sc_in_flight :: nat
  sc_queued :: nat
  sc_request_bucket :: "bucket option"
  sc_token_bucket :: "bucket option"
  sc_acquired :: nat
  sc_released :: nat
  sc_queue :: queue_state
  sc_spent :: nat
  sc_period_start :: nat

definition request_shape :: "scope_limits \<Rightarrow> bucket_shape option" where
  "request_shape l =
     (if requests_per_second l > 0 then Some (shape_per_second (requests_per_second l) (request_burst l)) else None)"

definition token_shape :: "scope_limits \<Rightarrow> bucket_shape option" where
  "token_shape l =
     (if tokens_per_minute l > 0 then Some (shape_per_minute (tokens_per_minute l) (token_burst l)) else None)"

definition reshape :: "bucket_shape option \<Rightarrow> nat \<Rightarrow> bucket option \<Rightarrow> bucket option" where
  "reshape sh now slot =
     (case (slot, sh) of
        (Some b, Some s) \<Rightarrow> Some (bucket_retune s now b)
      | (None, Some s) \<Rightarrow> Some (bucket_full s now)
      | (_, None) \<Rightarrow> None)"

text \<open>\<open>with_bucket\<close> for the two uses it has: a check that may take, and an update.\<close>

definition slot_take :: "nat \<Rightarrow> nat \<Rightarrow> bucket option \<Rightarrow> bool \<times> bucket option" where
  "slot_take n now slot =
     (case slot of None \<Rightarrow> (True, None) | Some b \<Rightarrow> (let (ok, b') = try_take n now b in (ok, Some b')))"

definition scope_new :: "string \<Rightarrow> scope_limits \<Rightarrow> nat \<Rightarrow> scope" where
  "scope_new name l now =
     \<lparr>sc_name = name, sc_limits = l, sc_in_flight = 0, sc_queued = 0,
      sc_request_bucket = map_option (\<lambda>s. bucket_full s now) (request_shape l),
      sc_token_bucket = map_option (\<lambda>s. bucket_full s now) (token_shape l),
      sc_acquired = 0, sc_released = 0, sc_queue = \<lparr>qs_waiting = [], qs_next_seq = 0\<rparr>,
      sc_spent = 0, sc_period_start = now\<rparr>"

definition scope_reconfigure :: "scope_limits \<Rightarrow> nat \<Rightarrow> scope \<Rightarrow> scope" where
  "scope_reconfigure l now s =
     s\<lparr>sc_request_bucket := reshape (request_shape l) now (sc_request_bucket s),
       sc_token_bucket := reshape (token_shape l) now (sc_token_bucket s), sc_limits := l\<rparr>"

definition scope_has_capacity :: "scope \<Rightarrow> bool" where
  "scope_has_capacity s = (max_concurrency (sc_limits s) = 0 \<or> sc_in_flight s < max_concurrency (sc_limits s))"

definition spend_in_period :: "nat \<Rightarrow> scope \<Rightarrow> nat \<times> scope" where
  "spend_in_period now s =
     (if now - sc_period_start s \<ge> period_millis (limits_period (sc_limits s))
      then (0, s\<lparr>sc_period_start := now, sc_spent := 0\<rparr>)
      else (sc_spent s, s))"

definition scope_record_spend :: "nat \<Rightarrow> nat \<Rightarrow> scope \<Rightarrow> scope" where
  "scope_record_spend units now s =
     (let s1 = snd (spend_in_period now s) in s1\<lparr>sc_spent := sat_add64 (sc_spent s1) units\<rparr>)"

definition observed_spend :: "nat \<Rightarrow> scope \<Rightarrow> nat" where
  "observed_spend now s =
     (if now - sc_period_start s \<ge> period_millis (limits_period (sc_limits s)) then 0 else sc_spent s)"

definition try_acquire_as :: "nat \<Rightarrow> nat \<Rightarrow> nat option \<Rightarrow> scope \<Rightarrow> rejection option \<times> scope" where
  "try_acquire_as tokens now ticket s0 =
     (let l = sc_limits s0;
          (over, s) = (if budget_minor_units l > 0
                       then let (spent, s') = spend_in_period now s0 in (spent \<ge> budget_minor_units l, s')
                       else (False, s0))
      in if over then (Some BudgetExhausted, s)
         else if (max_queued l > 0 \<or> sc_queued s > 0) \<and>
                 is_some_and (\<lambda>h. ticket \<noteq> Some h) (queue_head (sc_queue s))
           then (Some ConcurrencyExhausted, s)
         else if max_concurrency l > 0 \<and> sc_in_flight s \<ge> max_concurrency l
           then (Some ConcurrencyExhausted, s)
         else
           let s1 = s\<lparr>sc_in_flight := wrap_inc32 (sc_in_flight s)\<rparr>;
               (rok, rb) = slot_take 1 now (sc_request_bucket s1)
           in if \<not> rok
              then (Some RequestRateExceeded,
                    s1\<lparr>sc_request_bucket := rb, sc_in_flight := wrap_dec32 (sc_in_flight s1)\<rparr>)
              else
                let (tok, tb) = slot_take tokens now (sc_token_bucket s1)
                in if \<not> tok
                   then (Some TokenRateExceeded,
                         s1\<lparr>sc_token_bucket := tb,
                            sc_request_bucket := map_option (bucket_refund 1) rb,
                            sc_in_flight := wrap_dec32 (sc_in_flight s1)\<rparr>)
                   else (None,
                         s1\<lparr>sc_request_bucket := rb, sc_token_bucket := tb,
                            sc_acquired := wrap_inc64 (sc_acquired s1)\<rparr>))"

definition scope_release :: "nat \<Rightarrow> nat \<Rightarrow> nat \<Rightarrow> scope \<Rightarrow> scope" where
  "scope_release reserved actual now s =
     s\<lparr>sc_in_flight := wrap_dec32 (sc_in_flight s),
       sc_token_bucket := map_option
         (\<lambda>b. if actual < reserved then bucket_refund (reserved - actual) b
              else if actual > reserved then bucket_charge (actual - reserved) now b else b)
         (sc_token_bucket s),
       sc_released := wrap_inc64 (sc_released s)\<rparr>"

definition scope_rollback :: "nat \<Rightarrow> scope \<Rightarrow> scope" where
  "scope_rollback tokens s =
     s\<lparr>sc_in_flight := wrap_dec32 (sc_in_flight s),
       sc_request_bucket := map_option (bucket_refund 1) (sc_request_bucket s),
       sc_token_bucket := map_option (bucket_refund tokens) (sc_token_bucket s),
       sc_released := wrap_inc64 (sc_released s)\<rparr>"

definition sat_len32 :: "'a list \<Rightarrow> nat" where
  "sat_len32 xs = min (length xs) u32_max"

definition join_queue :: "priority_class \<Rightarrow> tenant_id \<Rightarrow> scope \<Rightarrow> (rejection + nat) \<times> scope" where
  "join_queue cls tenant s =
     (let mx = max_queued (sc_limits s); q = sc_queue s
      in if mx = 0 then (Inl ConcurrencyExhausted, s)
         else if sat_len32 (qs_waiting q) \<ge> mx then (Inl QueueFull, s)
         else
           let sq = qs_next_seq q;
               waiting = qs_waiting q @
                 [\<lparr>wt_seq = sq, wt_class = cls, wt_tenant = tenant, wt_round = next_round q cls tenant\<rparr>]
           in (Inr sq, s\<lparr>sc_queue := \<lparr>qs_waiting = waiting, qs_next_seq = sat_add64 sq 1\<rparr>,
                        sc_queued := sat_len32 waiting\<rparr>))"

definition leave_queue :: "nat \<Rightarrow> scope \<Rightarrow> scope" where
  "leave_queue ticket s =
     (let waiting = filter (\<lambda>w. wt_seq w \<noteq> ticket) (qs_waiting (sc_queue s))
      in s\<lparr>sc_queue := (sc_queue s)\<lparr>qs_waiting := waiting\<rparr>, sc_queued := sat_len32 waiting\<rparr>)"

text \<open>What \<open>wait_for_turn\<close> waits for: this ticket at the head, with a slot free.\<close>

definition is_turn :: "nat \<Rightarrow> scope \<Rightarrow> bool" where
  "is_turn ticket s = (queue_head (sc_queue s) = Some ticket \<and> scope_has_capacity s)"

section \<open>Limits are partitioned soundly\<close>

lemma divide_limit_le: "n \<noteq> 0 \<Longrightarrow> n * divide_limit v n \<le> v"
  by (simp add: divide_limit_def)

lemma divide_limit_0: "n \<noteq> 0 \<Longrightarrow> divide_limit v n = 0 \<longleftrightarrow> v < n"
  by (simp add: divide_limit_def div_eq_0_iff)

text \<open>
  Splitting a cluster-wide limit over \<open>n\<close> nodes never raises it: the shares of every limit add up to
  at most the limit. Zero means unlimited, so a share that rounds to zero would lift the limit; for
  concurrency, rates and budget this happens exactly when \<open>partition_underflows\<close> says so.
\<close>

theorem partition_sound:
  fixes l :: scope_limits
  assumes "0 < n"
  shows "n * max_concurrency (partitioned l n) \<le> max_concurrency l \<and>
    n * requests_per_second (partitioned l n) \<le> requests_per_second l \<and>
    n * tokens_per_minute (partitioned l n) \<le> tokens_per_minute l \<and>
    n * budget_minor_units (partitioned l n) \<le> budget_minor_units l \<and>
    (partition_underflows l n \<longleftrightarrow>
       (\<exists>f \<in> {max_concurrency, requests_per_second, tokens_per_minute, budget_minor_units}.
          f l \<noteq> 0 \<and> f (partitioned l n) = 0))"
  using assms by (auto simp: partitioned_def partition_underflows_def divide_limit_le divide_limit_0)

theorem partition_sound_witness:
  "3 * max_concurrency (partitioned (UNLIMITED\<lparr>max_concurrency := 10\<rparr>) 3) \<le> 10 \<and>
   \<not> partition_underflows (UNLIMITED\<lparr>max_concurrency := 10\<rparr>) 3"
  using partition_sound [of 3 "UNLIMITED\<lparr>max_concurrency := 10\<rparr>"]
  by (simp_all add: partition_underflows_def UNLIMITED_def)

section \<open>The head of the line\<close>

lemma min_by_key_None [simp]: "min_by_key f xs = None \<longleftrightarrow> xs = []"
proof
  assume none: "min_by_key f xs = None"
  show "xs = []"
  proof (rule ccontr)
    assume "xs \<noteq> []"
    then have "hd (sort_key f xs) \<in> set xs"
      by (metis hd_in_set set_empty set_sort)
    with none show False
      by (auto simp: min_by_key_def find_None_iff list_all_iff dest: hd_sort_key_least [where f = f])
  qed
qed (simp add: min_by_key_def)

lemma min_by_key_SomeD: "min_by_key f xs = Some x \<Longrightarrow> x \<in> set xs \<and> (\<forall>y\<in>set xs. f x \<le> f y)"
  by (auto simp: min_by_key_def find_Some_iff list_all_iff)

section \<open>Reachable scopes\<close>

text \<open>
  Every operation on a scope, in any order. A sequence number is a saturating \<open>u64\<close>; a line that has handed
  out all of them is not considered.
\<close>

definition limits_ok :: "scope_limits \<Rightarrow> bool" where
  "limits_ok l \<longleftrightarrow> max_concurrency l \<le> u32_max \<and> max_queued l \<le> u32_max"

inductive scope_step :: "scope \<Rightarrow> scope \<Rightarrow> bool" where
  sstep_acquire: "try_acquire_as tokens now ticket s = (r, s') \<Longrightarrow> scope_step s s'"
| sstep_release: "scope_step s (scope_release reserved actual now s)"
| sstep_rollback: "scope_step s (scope_rollback tokens s)"
| sstep_join: "join_queue cls tenant s = (r, s') \<Longrightarrow> qs_next_seq (sc_queue s) < u64_max \<Longrightarrow> scope_step s s'"
| sstep_leave: "scope_step s (leave_queue ticket s)"
| sstep_reconfigure: "limits_ok l \<Longrightarrow> scope_step s (scope_reconfigure l now s)"
| sstep_spend: "scope_step s (scope_record_spend units now s)"

definition scope_reachable :: "scope \<Rightarrow> bool" where
  "scope_reachable s \<longleftrightarrow> (\<exists>name l now. limits_ok l \<and> scope_step\<^sup>*\<^sup>* (scope_new name l now) s)"

lemma spend_in_period_sel [simp]:
  "sc_queue (snd (spend_in_period now s)) = sc_queue s"
  "sc_queued (snd (spend_in_period now s)) = sc_queued s"
  "sc_limits (snd (spend_in_period now s)) = sc_limits s"
  "sc_name (snd (spend_in_period now s)) = sc_name s"
  "sc_in_flight (snd (spend_in_period now s)) = sc_in_flight s"
  "sc_acquired (snd (spend_in_period now s)) = sc_acquired s"
  "sc_released (snd (spend_in_period now s)) = sc_released s"
  "sc_request_bucket (snd (spend_in_period now s)) = sc_request_bucket s"
  "sc_token_bucket (snd (spend_in_period now s)) = sc_token_bucket s"
  by (simp_all add: spend_in_period_def)

lemma try_acquire_frame:
  assumes "try_acquire_as tokens now ticket s = (r, s')"
  shows "sc_queue s' = sc_queue s" "sc_queued s' = sc_queued s" "sc_limits s' = sc_limits s" "sc_name s' = sc_name s"
  using assms
  by (auto simp: try_acquire_as_def Let_def case_prod_beta split: if_splits)

section \<open>The line is fair between tenants\<close>

definition of_line :: "priority_class \<Rightarrow> tenant_id \<Rightarrow> waiter \<Rightarrow> bool" where
  "of_line cls tenant w \<longleftrightarrow> wt_class w = cls \<and> wt_tenant w = tenant"

definition queue_inv :: "scope \<Rightarrow> bool" where
  "queue_inv s \<longleftrightarrow>
     (let ws = qs_waiting (sc_queue s) in
        sorted_wrt (<) (map wt_seq ws) \<and> (\<forall>w\<in>set ws. wt_seq w < qs_next_seq (sc_queue s)) \<and>
        qs_next_seq (sc_queue s) \<le> u64_max \<and> length ws \<le> u32_max \<and> sc_queued s = length ws \<and>
        limits_ok (sc_limits s) \<and>
        (\<forall>cls tenant r. length (filter (\<lambda>w. of_line cls tenant w \<and> wt_round w \<le> r) ws) \<le> Suc r))"

lemma next_round_of_line: "next_round q cls tenant = length (filter (of_line cls tenant) (qs_waiting q))"
  by (simp add: next_round_def of_line_def [abs_def])

lemma length_filter_mono: "(\<And>x. x \<in> set xs \<Longrightarrow> P x \<Longrightarrow> Q x) \<Longrightarrow> length (filter P xs) \<le> length (filter Q xs)"
  by (induction xs) auto

lemma length_filter_filter: "length (filter P (filter Q xs)) \<le> length (filter P xs)"
  by (induction xs) auto

lemma queue_inv_frame:
  "queue_inv s \<Longrightarrow> sc_queue s' = sc_queue s \<Longrightarrow> sc_queued s' = sc_queued s \<Longrightarrow> limits_ok (sc_limits s') \<Longrightarrow> queue_inv s'"
  by (simp add: queue_inv_def Let_def)

lemma queue_inv_limits: "queue_inv s \<Longrightarrow> limits_ok (sc_limits s)"
  by (simp add: queue_inv_def Let_def)

lemma join_queue_Inr:
  assumes "join_queue cls tenant s = (Inr sq, s')"
  shows "sq = qs_next_seq (sc_queue s)"
    "qs_waiting (sc_queue s') = qs_waiting (sc_queue s) @
       [\<lparr>wt_seq = sq, wt_class = cls, wt_tenant = tenant, wt_round = next_round (sc_queue s) cls tenant\<rparr>]"
    "qs_next_seq (sc_queue s') = sat_add64 sq 1" "sc_queued s' = sat_len32 (qs_waiting (sc_queue s'))"
    "sat_len32 (qs_waiting (sc_queue s)) < max_queued (sc_limits s)" "sc_limits s' = sc_limits s"
  using assms by (auto simp: join_queue_def Let_def split: if_splits)

lemma join_queue_Inl: "join_queue cls tenant s = (Inl r, s') \<Longrightarrow> s' = s"
  by (auto simp: join_queue_def Let_def split: if_splits)

lemma queue_inv_join:
  assumes inv: "queue_inv s" and join: "join_queue cls tenant s = (Inr sq, s')"
    and seq: "qs_next_seq (sc_queue s) < u64_max"
  shows "queue_inv s'"
proof -
  note j = join_queue_Inr [OF join]
  let ?ws = "qs_waiting (sc_queue s)" and ?n = "next_round (sc_queue s) cls tenant"
  have len: "length ?ws < u32_max"
    using j(5) queue_inv_limits [OF inv] by (auto simp: limits_ok_def sat_len32_def)
  have fair: "length (filter (\<lambda>w. of_line c t w \<and> wt_round w \<le> r) (qs_waiting (sc_queue s'))) \<le> Suc r" for c t r
  proof (cases "c = cls \<and> t = tenant \<and> ?n \<le> r")
    case True
    have "length (filter (\<lambda>w. of_line cls tenant w \<and> wt_round w \<le> r) ?ws) \<le> ?n"
      unfolding next_round_of_line by (rule length_filter_mono) simp
    with True show ?thesis by (simp add: j(2) of_line_def)
  next
    case False
    then have "\<not> (of_line c t \<lparr>wt_seq = sq, wt_class = cls, wt_tenant = tenant, wt_round = ?n\<rparr> \<and> ?n \<le> r)"
      by (auto simp: of_line_def)
    then have "filter (\<lambda>w. of_line c t w \<and> wt_round w \<le> r) (qs_waiting (sc_queue s')) =
        filter (\<lambda>w. of_line c t w \<and> wt_round w \<le> r) ?ws" by (simp add: j(2))
    with inv show ?thesis by (simp add: queue_inv_def Let_def)
  qed
  have "sat_add64 sq 1 = Suc sq" using seq j(1) by (simp add: sat_add64_id)
  moreover have "Suc sq \<le> u64_max" using seq j(1) by simp
  ultimately show ?thesis using inv j(1-4,6) len fair
    by (auto simp: queue_inv_def Let_def sorted_wrt_append sat_len32_def dest: less_SucI)
qed

lemma queue_inv_leave:
  assumes inv: "queue_inv s"
  shows "queue_inv (leave_queue ticket s)"
proof -
  let ?ws = "qs_waiting (sc_queue s)"
  let ?rest = "filter (\<lambda>w. wt_seq w \<noteq> ticket) ?ws"
  have "length (filter (\<lambda>w. of_line c t w \<and> wt_round w \<le> r) ?rest) \<le> Suc r" for c t r
  proof -
    have "length (filter (\<lambda>w. of_line c t w \<and> wt_round w \<le> r) ?rest) \<le>
        length (filter (\<lambda>w. of_line c t w \<and> wt_round w \<le> r) ?ws)"
      by (rule length_filter_filter)
    also have "\<dots> \<le> Suc r" using inv by (simp add: queue_inv_def Let_def)
    finally show ?thesis .
  qed
  moreover have "length ?rest \<le> u32_max"
    using inv order_trans [OF length_filter_le, of ?ws u32_max] by (simp add: queue_inv_def Let_def)
  moreover have "sorted_wrt (<) (map wt_seq ?rest)"
    using inv by (simp add: queue_inv_def Let_def sorted_wrt_map sorted_wrt_filter)
  ultimately show ?thesis
    using inv by (simp add: leave_queue_def Let_def queue_inv_def sat_len32_def)
qed

lemma queue_inv_step: "scope_step s s' \<Longrightarrow> queue_inv s \<Longrightarrow> queue_inv s'"
proof (induction rule: scope_step.induct)
  case (sstep_acquire tokens now ticket s r s')
  from try_acquire_frame [OF this(1)] this(2) show ?case
    by (metis queue_inv_frame queue_inv_limits)
next
  case (sstep_join cls tenant s r s')
  then show ?case by (cases r) (auto dest: join_queue_Inl queue_inv_join)
next
  case (sstep_leave s ticket)
  then show ?case by (rule queue_inv_leave)
next
  case (sstep_reconfigure l s now)
  then show ?case by (auto intro: queue_inv_frame simp: scope_reconfigure_def)
next
  case (sstep_spend s units now)
  with queue_inv_limits [OF this] show ?case
    by - (rule queue_inv_frame, simp_all add: scope_record_spend_def Let_def)
qed (simp_all add: queue_inv_def scope_release_def scope_rollback_def Let_def)

lemma queue_inv_new: "limits_ok l \<Longrightarrow> queue_inv (scope_new name l now)"
  by (simp add: queue_inv_def scope_new_def Let_def)

lemma scope_reachable_inv: "scope_reachable s \<Longrightarrow> queue_inv s"
proof -
  assume "scope_reachable s"
  then obtain name l now where l: "limits_ok l" and run: "scope_step\<^sup>*\<^sup>* (scope_new name l now) s"
    by (auto simp: scope_reachable_def)
  from run show ?thesis
    by (induction rule: rtranclp_induct) (auto intro: queue_inv_new [OF l] queue_inv_step)
qed

lemma key_before_round: "waiter_key v < waiter_key w \<Longrightarrow> wt_class v = wt_class w \<Longrightarrow> wt_round v \<le> wt_round w"
  by (auto simp: waiter_key_def less_prod_def')

lemma key_before_class: "waiter_key v < waiter_key w \<Longrightarrow> wt_class v \<le> wt_class w"
  by (auto simp: waiter_key_def less_prod_def')

lemma queue_fair_parts:
  assumes "scope_reachable s" "w \<in> set (qs_waiting (sc_queue s))"
  shows "length (filter (\<lambda>v. of_line (wt_class w) tenant v \<and> waiter_key v < waiter_key w) (qs_waiting (sc_queue s)))
      \<le> wt_round w + 1"
    "\<And>cls tenant sq s' v. join_queue cls tenant s = (Inr sq, s') \<Longrightarrow> v \<in> set (qs_waiting (sc_queue s')) \<Longrightarrow>
      wt_seq v = sq \<Longrightarrow> waiter_key v < waiter_key w \<Longrightarrow> cls < wt_class w \<or> cls = wt_class w \<and> wt_round v < wt_round w"
proof -
  note inv = scope_reachable_inv [OF assms(1), unfolded queue_inv_def Let_def]
  have "length (filter (\<lambda>v. of_line (wt_class w) tenant v \<and> waiter_key v < waiter_key w) (qs_waiting (sc_queue s)))
      \<le> length (filter (\<lambda>v. of_line (wt_class w) tenant v \<and> wt_round v \<le> wt_round w) (qs_waiting (sc_queue s)))"
    by (rule length_filter_mono) (auto simp: of_line_def intro: key_before_round)
  also have "\<dots> \<le> wt_round w + 1" using inv by simp
  finally show "length (filter (\<lambda>v. of_line (wt_class w) tenant v \<and> waiter_key v < waiter_key w)
      (qs_waiting (sc_queue s))) \<le> wt_round w + 1" .
  fix cls tenant sq s' v
  assume join: "join_queue cls tenant s = (Inr sq, s')" and v: "v \<in> set (qs_waiting (sc_queue s'))" "wt_seq v = sq"
    and less: "waiter_key v < waiter_key w"
  note j = join_queue_Inr [OF join]
  have "wt_seq w < sq" using inv assms(2) j(1) by simp
  moreover have "wt_class v = cls" using v inv j(1,2) by auto
  ultimately show "cls < wt_class w \<or> cls = wt_class w \<and> wt_round v < wt_round w"
    using less v(2) by (auto simp: waiter_key_def less_prod_def')
qed

text \<open>
  C9: the line is fair between tenants of one priority class, on every reachable scope. Among the waiters of a waiter's
  own class, any tenant has at most one more ahead of it than its round, the number of requests its own tenant already
  had in line in that class when it arrived: a tenant's first waiter of a class is delayed by at most one request of
  each other tenant of the class, however many they queued. Nobody of a less urgent class is ahead of it, and what
  arrives later goes ahead of it only with a more urgent class, or in its own class with an earlier round, so that within
  its class a first waiter is never overtaken. How many of more urgent classes go ahead is not bounded.
\<close>

theorem queue_fair:
  assumes "scope_reachable s" "w \<in> set (qs_waiting (sc_queue s))"
  shows "length (filter (\<lambda>v. of_line (wt_class w) tenant v \<and> waiter_key v < waiter_key w) (qs_waiting (sc_queue s)))
      \<le> wt_round w + 1 \<and>
    (\<forall>v \<in> set (qs_waiting (sc_queue s)). waiter_key v < waiter_key w \<longrightarrow> wt_class v \<le> wt_class w) \<and>
    (\<forall>cls newcomer sq s' v. join_queue cls newcomer s = (Inr sq, s') \<and> v \<in> set (qs_waiting (sc_queue s')) \<and>
      wt_seq v = sq \<and> waiter_key v < waiter_key w \<longrightarrow>
      cls < wt_class w \<or> cls = wt_class w \<and> wt_round v < wt_round w)"
proof (intro conjI ballI allI impI)
  show "wt_class v \<le> wt_class w" if "waiter_key v < waiter_key w" for v using that by (rule key_before_class)
qed (use queue_fair_parts [OF assms] in blast)+

lemma queue_order_respected_parts:
  assumes "scope_reachable s" "qs_waiting (sc_queue s) \<noteq> []"
  shows "try_acquire_as tokens now ticket s = (None, s') \<Longrightarrow>
      \<exists>w\<in>set (qs_waiting (sc_queue s)). ticket = Some (wt_seq w) \<and>
        (\<forall>v\<in>set (qs_waiting (sc_queue s)). waiter_key w \<le> waiter_key v)"
    "scope_has_capacity s \<Longrightarrow> \<exists>!w. w \<in> set (qs_waiting (sc_queue s)) \<and> is_turn (wt_seq w) s"
proof -
  note inv = scope_reachable_inv [OF assms(1), unfolded queue_inv_def Let_def]
  obtain w where w: "min_by_key waiter_key (qs_waiting (sc_queue s)) = Some w"
    using assms(2) by (cases "min_by_key waiter_key (qs_waiting (sc_queue s))") auto
  note least = min_by_key_SomeD [OF w]
  have head: "queue_head (sc_queue s) = Some (wt_seq w)" using w by (simp add: queue_head_def)
  have queued: "sc_queued s > 0" using inv assms(2) by simp
  show "\<exists>w\<in>set (qs_waiting (sc_queue s)). ticket = Some (wt_seq w) \<and>
      (\<forall>v\<in>set (qs_waiting (sc_queue s)). waiter_key w \<le> waiter_key v)"
    if "try_acquire_as tokens now ticket s = (None, s')"
  proof -
    have "ticket = Some (wt_seq w)"
      using that head queued by (auto simp: try_acquire_as_def Let_def case_prod_beta split: if_splits)
    with least show ?thesis by blast
  qed
  have inj: "inj_on wt_seq (set (qs_waiting (sc_queue s)))"
    using inv by (metis distinct_map strict_sorted_iff)
  show "\<exists>!w. w \<in> set (qs_waiting (sc_queue s)) \<and> is_turn (wt_seq w) s" if "scope_has_capacity s"
    using that head least inj_onD [OF inj] unfolding is_turn_def by (metis option.inject)
qed

text \<open>
  C36: nobody barges. While anyone waits, even after a publication removed the queue, an acquisition
  succeeds only with the ticket of the waiter that is first by class, then round, then arrival; and
  whenever a slot is free, exactly one waiter in line has its turn.
\<close>

theorem queue_order_respected:
  assumes "scope_reachable s" "qs_waiting (sc_queue s) \<noteq> []"
  shows "(\<forall>tokens now ticket s'. try_acquire_as tokens now ticket s = (None, s') \<longrightarrow>
      (\<exists>w\<in>set (qs_waiting (sc_queue s)). ticket = Some (wt_seq w) \<and>
        (\<forall>v\<in>set (qs_waiting (sc_queue s)). waiter_key w \<le> waiter_key v))) \<and>
    (scope_has_capacity s \<longrightarrow> (\<exists>!w. w \<in> set (qs_waiting (sc_queue s)) \<and> is_turn (wt_seq w) s))"
  using queue_order_respected_parts [OF assms] by blast

subsection \<open>A line on concrete input\<close>

definition ex_limits :: scope_limits where
  "ex_limits = UNLIMITED\<lparr>max_concurrency := 1, max_queued := 8\<rparr>"

definition joined :: "tenant_id \<Rightarrow> scope \<Rightarrow> scope" where
  "joined tenant s = snd (join_queue Standard tenant s)"

definition ex_line :: scope where
  "ex_line = joined ''b'' (joined ''a'' (joined ''a'' (scope_new ''global'' ex_limits 0)))"

lemmas line_eval = ex_line_def joined_def ex_limits_def scope_new_def join_queue_def next_round_def leave_queue_def
  sat_len32_def sat_add64_def sat_u64_def u64_max_def u32_max_def UNLIMITED_def request_shape_def token_shape_def Let_def

lemma ex_line_waiting:
  "qs_waiting (sc_queue ex_line) =
     [\<lparr>wt_seq = 0, wt_class = Standard, wt_tenant = ''a'', wt_round = 0\<rparr>,
      \<lparr>wt_seq = 1, wt_class = Standard, wt_tenant = ''a'', wt_round = 1\<rparr>,
      \<lparr>wt_seq = 2, wt_class = Standard, wt_tenant = ''b'', wt_round = 0\<rparr>]"
  by (simp add: line_eval)

lemma reachable_new: "limits_ok l \<Longrightarrow> scope_reachable (scope_new name l now)"
  by (auto simp: scope_reachable_def)

lemma reachable_step: "scope_reachable s \<Longrightarrow> scope_step s s' \<Longrightarrow> scope_reachable s'"
  by (auto simp: scope_reachable_def intro: rtranclp.rtrancl_into_rtrancl)

lemma reachable_joined: "scope_reachable s \<Longrightarrow> qs_next_seq (sc_queue s) < u64_max \<Longrightarrow> scope_reachable (joined t s)"
  by (rule reachable_step, assumption) (metis joined_def sstep_join surjective_pairing)

lemma ex_limits_ok: "limits_ok ex_limits"
  by (simp add: limits_ok_def ex_limits_def UNLIMITED_def u32_max_def)

lemma ex_line_reachable: "scope_reachable ex_line"
  unfolding ex_line_def by (intro reachable_joined reachable_new ex_limits_ok; simp add: line_eval)

theorem queue_fair_witness:
  "length (filter (\<lambda>v. of_line Standard ''a'' v \<and>
     waiter_key v < waiter_key \<lparr>wt_seq = 2, wt_class = Standard, wt_tenant = ''b'', wt_round = 0\<rparr>)
     (qs_waiting (sc_queue ex_line))) \<le> 1"
  using queue_fair [OF ex_line_reachable, of "\<lparr>wt_seq = 2, wt_class = Standard, wt_tenant = ''b'', wt_round = 0\<rparr>" "''a''"]
  by (simp add: ex_line_waiting)

theorem queue_order_respected_witness:
  "\<exists>!w. w \<in> set (qs_waiting (sc_queue ex_line)) \<and> is_turn (wt_seq w) ex_line"
proof -
  have "qs_waiting (sc_queue ex_line) \<noteq> []" by (simp add: ex_line_waiting)
  moreover have "scope_has_capacity ex_line" by (simp add: scope_has_capacity_def line_eval)
  ultimately show ?thesis using queue_order_respected [OF ex_line_reachable] by blast
qed

text \<open>
  Arrival order within a tenant and class is not kept. Three requests of one tenant queue; when the first
  two have left the line, the next arrival is stamped with an earlier round than the third and becomes the
  head before it.
\<close>

theorem queue_overtakes_own_tenant:
  "\<exists>s v w. scope_reachable s \<and> v \<in> set (qs_waiting (sc_queue s)) \<and> w \<in> set (qs_waiting (sc_queue s)) \<and>
     wt_tenant v = wt_tenant w \<and> wt_class v = wt_class w \<and> wt_seq v < wt_seq w \<and>
     queue_head (sc_queue s) = Some (wt_seq w)"
proof -
  let ?three = "joined ''a'' (joined ''a'' (joined ''a'' (scope_new ''global'' ex_limits 0)))"
  let ?s = "joined ''a'' (leave_queue 1 (leave_queue 0 ?three))"
  let ?v = "\<lparr>wt_seq = 2, wt_class = Standard, wt_tenant = ''a'', wt_round = 2\<rparr>"
  let ?w = "\<lparr>wt_seq = 3, wt_class = Standard, wt_tenant = ''a'', wt_round = 1\<rparr>"
  have waiting: "qs_waiting (sc_queue ?s) = [?v, ?w]" by (simp add: line_eval)
  have "scope_reachable ?three"
    by (intro reachable_joined reachable_new ex_limits_ok; simp add: line_eval)
  then have "scope_reachable (leave_queue 1 (leave_queue 0 ?three))"
    by (blast intro: reachable_step sstep_leave)
  then have "scope_reachable ?s" by (rule reachable_joined) (simp add: line_eval)
  moreover have "queue_head (sc_queue ?s) = Some 3"
    unfolding queue_head_def waiting by (simp add: min_by_key_def waiter_key_def less_eq_prod_def)
  ultimately show ?thesis using waiting by (intro exI [of _ ?s] exI [of _ ?v] exI [of _ ?w]) simp
qed

section \<open>A refused or rolled-back acquisition leaves no trace\<close>

definition slot_ok :: "bucket option \<Rightarrow> bool" where
  "slot_ok slot = is_none_or bucket_ok slot"

definition scope_ok :: "scope \<Rightarrow> bool" where
  "scope_ok s \<longleftrightarrow> slot_ok (sc_request_bucket s) \<and> slot_ok (sc_token_bucket s) \<and>
     sc_in_flight s < 2 ^ 32 \<and> sc_acquired s < 2 ^ 64 \<and> sc_released s < 2 ^ 64"

text \<open>Acquisitions not yet released, on counters that wrap around.\<close>

definition outstanding :: "nat \<Rightarrow> nat \<Rightarrow> nat" where
  "outstanding a r = (a + (2 ^ 64 - r)) mod 2 ^ 64"

text \<open>The scope as read at time \<open>now\<close>: buckets refilled, budget period rolled, counters as their difference.\<close>

definition settled :: "nat \<Rightarrow> scope \<Rightarrow> scope" where
  "settled now s =
     s\<lparr>sc_request_bucket := map_option (bucket_refill now) (sc_request_bucket s),
       sc_token_bucket := map_option (bucket_refill now) (sc_token_bucket s),
       sc_spent := observed_spend now s,
       sc_period_start := (if now - sc_period_start s \<ge> period_millis (limits_period (sc_limits s)) then now else sc_period_start s),
       sc_acquired := outstanding (sc_acquired s) (sc_released s), sc_released := 0\<rparr>"

lemma wrap_dec_inc: "n < 2 ^ 32 \<Longrightarrow> wrap_dec32 (wrap_inc32 n) = n"
proof -
  assume n: "n < 2 ^ 32"
  have "((n + 1) mod 2 ^ 32 + (2 ^ 32 - 1)) mod 2 ^ 32 = (n + 1 + (2 ^ 32 - 1)) mod (2 ^ 32 :: nat)"
    by (rule mod_add_left_eq)
  also have "\<dots> = n" using n by simp
  finally show ?thesis by (simp add: wrap_dec32_def wrap_inc32_def)
qed

lemma period_pos [simp]: "0 < period_millis p"
  by (cases p) simp_all

lemma slot_take_refused: "slot_ok slot \<Longrightarrow> slot_take n now slot = (False, slot') \<Longrightarrow> slot' = map_option (bucket_refill now) slot"
  by (cases slot) (auto simp: slot_take_def slot_ok_def case_prod_beta take_refused)

lemma slot_take_refund:
  "slot_ok slot \<Longrightarrow> slot_take n now slot = (True, slot') \<Longrightarrow> map_option (bucket_refund n) slot' = map_option (bucket_refill now) slot"
  by (cases slot) (auto simp: slot_take_def slot_ok_def case_prod_beta take_undone)

lemma slot_take_ok: "slot_ok slot \<Longrightarrow> slot_ok (snd (slot_take n now slot))"
  by (cases slot) (auto simp: slot_take_def slot_ok_def case_prod_beta take_ok)

lemma slot_refund_ok: "slot_ok slot \<Longrightarrow> slot_ok (map_option (bucket_refund n) slot)"
  by (cases slot) (auto simp: slot_ok_def refund_ok)

lemma slot_refill_twice [simp]:
  "map_option (bucket_refill now) (map_option (bucket_refill now) slot) = map_option (bucket_refill now) slot"
  by (cases slot) simp_all

definition rolled :: "nat \<Rightarrow> scope \<Rightarrow> scope" where
  "rolled now s = (if budget_minor_units (sc_limits s) > 0 then snd (spend_in_period now s) else s)"

lemma settled_rolled: "settled now (rolled now s) = settled now s"
  by (simp add: settled_def rolled_def spend_in_period_def observed_spend_def)

lemma rolled_sel [simp]:
  "sc_in_flight (rolled now s) = sc_in_flight s" "sc_request_bucket (rolled now s) = sc_request_bucket s"
  "sc_token_bucket (rolled now s) = sc_token_bucket s" "sc_acquired (rolled now s) = sc_acquired s"
  "sc_released (rolled now s) = sc_released s" "sc_limits (rolled now s) = sc_limits s"
  by (simp_all add: rolled_def)

lemma rolled_frame [simp]:
  "sc_queue (rolled now s) = sc_queue s" "sc_queued (rolled now s) = sc_queued s"
  by (simp_all add: rolled_def)

lemma try_acquire_eq:
  "try_acquire_as tokens now ticket s =
     (let l = sc_limits s; s1 = (rolled now s)\<lparr>sc_in_flight := wrap_inc32 (sc_in_flight s)\<rparr>;
          (rok, rb) = slot_take 1 now (sc_request_bucket s);
          (tok, tb) = slot_take tokens now (sc_token_bucket s)
      in if budget_minor_units l > 0 \<and> fst (spend_in_period now s) \<ge> budget_minor_units l
         then (Some BudgetExhausted, rolled now s)
         else if (max_queued l > 0 \<or> sc_queued s > 0) \<and> is_some_and (\<lambda>h. ticket \<noteq> Some h) (queue_head (sc_queue s))
           then (Some ConcurrencyExhausted, rolled now s)
         else if max_concurrency l > 0 \<and> sc_in_flight s \<ge> max_concurrency l
           then (Some ConcurrencyExhausted, rolled now s)
         else if \<not> rok
           then (Some RequestRateExceeded,
                 s1\<lparr>sc_request_bucket := rb, sc_in_flight := wrap_dec32 (sc_in_flight s1)\<rparr>)
         else if \<not> tok
           then (Some TokenRateExceeded,
                 s1\<lparr>sc_token_bucket := tb, sc_request_bucket := map_option (bucket_refund 1) rb,
                    sc_in_flight := wrap_dec32 (sc_in_flight s1)\<rparr>)
         else (None, s1\<lparr>sc_request_bucket := rb, sc_token_bucket := tb, sc_acquired := wrap_inc64 (sc_acquired s1)\<rparr>))"
  by (simp add: try_acquire_as_def Let_def case_prod_beta rolled_def)

text \<open>The shapes a result of \<open>try_acquire_as\<close> has.\<close>

lemma try_acquire_cases:
  assumes "try_acquire_as tokens now ticket s = (r, s')" "scope_ok s"
  obtains (early) rej where "r = Some rej" "s' = rolled now s"
  | (request) "r = Some RequestRateExceeded"
      "s' = (rolled now s)\<lparr>sc_request_bucket := map_option (bucket_refill now) (sc_request_bucket s)\<rparr>"
  | (token) "r = Some TokenRateExceeded"
      "s' = (rolled now s)\<lparr>sc_request_bucket := map_option (bucket_refill now) (sc_request_bucket s),
                          sc_token_bucket := map_option (bucket_refill now) (sc_token_bucket s)\<rparr>"
  | (granted) rb tb where "r = None" "slot_take 1 now (sc_request_bucket s) = (True, rb)"
      "slot_take tokens now (sc_token_bucket s) = (True, tb)" "scope_has_capacity s"
      "s' = (rolled now s)\<lparr>sc_in_flight := wrap_inc32 (sc_in_flight s), sc_request_bucket := rb,
                          sc_token_bucket := tb, sc_acquired := wrap_inc64 (sc_acquired s)\<rparr>"
proof -
  let ?s = "rolled now s"
  obtain rok rb where rb: "slot_take 1 now (sc_request_bucket s) = (rok, rb)" by fastforce
  obtain tok tb where tb: "slot_take tokens now (sc_token_bucket s) = (tok, tb)" by fastforce
  have kept: "wrap_dec32 (wrap_inc32 (sc_in_flight s)) = sc_in_flight s"
    using assms(2) by (simp add: scope_ok_def wrap_dec_inc)
  have same: "?s\<lparr>sc_in_flight := sc_in_flight s\<rparr> = ?s" by (rule scope.equality) simp_all
  have slots: "slot_ok (sc_request_bucket s)" "slot_ok (sc_token_bucket s)" using assms(2) by (simp_all add: scope_ok_def)
  note eq = assms(1) [unfolded try_acquire_eq Let_def rb tb prod.case]
  define stop where "stop \<longleftrightarrow> (budget_minor_units (sc_limits s) > 0 \<and> fst (spend_in_period now s) \<ge> budget_minor_units (sc_limits s)) \<or>
     ((max_queued (sc_limits s) > 0 \<or> sc_queued s > 0) \<and> is_some_and (\<lambda>h. ticket \<noteq> Some h) (queue_head (sc_queue s))) \<or>
     (max_concurrency (sc_limits s) > 0 \<and> sc_in_flight s \<ge> max_concurrency (sc_limits s))"
  consider (early) stop | (request) "\<not> stop" "\<not> rok" | (token) "\<not> stop" "rok" "\<not> tok" | (granted) "\<not> stop" "rok" "tok"
    by blast
  then show thesis
  proof cases
    case early
    with eq obtain rej where "r = Some rej" "s' = ?s" by (auto simp: stop_def split: if_splits)
    then show thesis by (rule that(1))
  next
    case request
    with eq have "r = Some RequestRateExceeded" "s' = ?s\<lparr>sc_in_flight := sc_in_flight s, sc_request_bucket := rb\<rparr>"
      by (auto simp: kept stop_def)
    with slot_take_refused [OF slots(1)] rb request same show thesis by (intro that(2)) simp_all
  next
    case token
    with eq have "r = Some TokenRateExceeded"
        "s' = ?s\<lparr>sc_in_flight := sc_in_flight s, sc_request_bucket := map_option (bucket_refund 1) rb, sc_token_bucket := tb\<rparr>"
      by (auto simp: kept stop_def)
    with slot_take_refused [OF slots(2)] slot_take_refund [OF slots(1)] rb tb token same show thesis
      by (intro that(3)) simp_all
  next
    case granted
    moreover from this eq have "r = None"
        "s' = ?s\<lparr>sc_in_flight := wrap_inc32 (sc_in_flight s), sc_request_bucket := rb, sc_token_bucket := tb,
                   sc_acquired := wrap_inc64 (sc_acquired s)\<rparr>" by (auto simp: stop_def)
    moreover have "scope_has_capacity s" using granted(1) by (auto simp: scope_has_capacity_def stop_def)
    ultimately show thesis using rb tb by (intro that(4)) simp_all
  qed
qed

section \<open>All-or-nothing acquisition\<close>

text \<open>
  The loop of \<open>acquire_chain\<close> over shared objects: objects live in a heap and a chain is a list of addresses,
  so two chains that share a scope change the same one. The objects held so far are given back in reverse
  order when one refuses; the result names the address that refused.
\<close>

definition heap_map :: "('s \<Rightarrow> 's) \<Rightarrow> nat list \<Rightarrow> 's list \<Rightarrow> 's list" where
  "heap_map f as hp = fold (\<lambda>a h. h[a := f (h ! a)]) as hp"

fun take_all :: "('s \<Rightarrow> 'r option \<times> 's) \<Rightarrow> ('s \<Rightarrow> 's) \<Rightarrow> nat list \<Rightarrow> nat list \<Rightarrow> 's list \<Rightarrow> ('r \<times> nat + nat list) \<times> 's list" where
  "take_all grab undo held [] hp = (Inr held, hp)"
| "take_all grab undo held (a # as) hp =
     (case grab (hp ! a) of
        (None, s) \<Rightarrow> take_all grab undo (held @ [a]) as (hp[a := s])
      | (Some r, s) \<Rightarrow> (Inl (r, a), heap_map undo (rev held) (hp[a := s])))"

lemma heap_map_nth:
  "distinct as \<Longrightarrow> \<forall>a\<in>set as. a < length hp \<Longrightarrow>
     heap_map f as hp ! a = (if a \<in> set as then f (hp ! a) else hp ! a)"
  by (induction as arbitrary: hp) (auto simp: heap_map_def nth_list_update)

lemma heap_map_length [simp]: "length (heap_map f as hp) = length hp"
  by (induction as arbitrary: hp) (auto simp: heap_map_def)

lemma take_all_length: "length (snd (take_all grab undo held as hp)) = length hp"
  by (induction grab undo held as hp rule: take_all.induct) (auto split: prod.splits option.splits)

lemma take_all_Inr:
  assumes "take_all grab undo held as hp = (Inr held', hp')" "distinct as" "\<forall>a\<in>set as. a < length hp"
  shows "held' = held @ as \<and>
    (\<forall>a. hp' ! a = (if a \<in> set as then snd (grab (hp ! a)) else hp ! a)) \<and> (\<forall>a\<in>set as. fst (grab (hp ! a)) = None)"
  using assms
proof (induction grab undo held as hp rule: take_all.induct)
  case (2 grab undo held a as hp)
  obtain r s where t: "grab (hp ! a) = (r, s)" by fastforce
  with "2.prems"(1) have r: "r = None" by (cases r) auto
  from "2.prems" t r have rest: "take_all grab undo (held @ [a]) as (hp[a := s]) = (Inr held', hp')" by simp
  note IH = "2.IH" [OF t [unfolded r, symmetric] refl rest]
  from "2.prems"(2,3) have "distinct as" "\<forall>a'\<in>set as. a' < length (hp[a := s])" "a \<notin> set as" "a < length hp" by auto
  moreover from this have "hp[a := s] ! b = hp ! b" if "b \<in> set as" for b using that by (metis nth_list_update_neq)
  ultimately show ?case using IH t r by (auto simp: nth_list_update)
qed simp

text \<open>A resource whose acquisition can be taken back, and what a client can rely on.\<close>

locale reversible =
  fixes grab :: "'s \<Rightarrow> 'r option \<times> 's"
    and undo :: "'s \<Rightarrow> 's"
    and view :: "'s \<Rightarrow> 'v"
    and ok :: "'s \<Rightarrow> bool"
  assumes refused: "ok s \<Longrightarrow> grab s = (Some r, s') \<Longrightarrow> view s' = view s"
    and undone: "ok s \<Longrightarrow> grab s = (None, s') \<Longrightarrow> view (undo s') = view s"
    and ok_take: "ok s \<Longrightarrow> ok (snd (grab s))"
    and ok_undo: "ok s \<Longrightarrow> ok (undo s)"
begin

lemma take_all_refused:
  assumes "take_all grab undo held as hp = (Inl r, hp')"
    and "distinct (held @ as)" "\<forall>a\<in>set (held @ as). a < length hp" "\<forall>a\<in>set as. ok (hp ! a) \<and> hp ! a = hp0 ! a"
    and "\<forall>a\<in>set held. view (undo (hp ! a)) = view (hp0 ! a)"
    and "a \<in> set (held @ as)"
  shows "view (hp' ! a) = view (hp0 ! a)"
  using assms
proof (induction as arbitrary: held hp)
  case (Cons b as)
  obtain x s where t: "grab (hp ! b) = (x, s)" by fastforce
  show ?case
  proof (cases x)
    case None
    let ?hp = "hp[b := s]"
    have "take_all grab undo (held @ [b]) as ?hp = (Inl r, hp')" using Cons.prems(1) t None by simp
    moreover have "view (undo s) = view (hp0 ! b)" using Cons.prems(4) t None undone [of "hp ! b" s] by auto
    ultimately show ?thesis
      using Cons.prems(2-6) by (intro Cons.IH [of "held @ [b]" ?hp]) (auto simp: nth_list_update)
  next
    case (Some r')
    then have hp': "hp' = heap_map undo (rev held) (hp[b := s])" using Cons.prems(1) t by simp
    have "view s = view (hp0 ! b)" using Cons.prems(4) t Some refused [of "hp ! b" r' s] by auto
    moreover have "hp' ! a = (if a \<in> set held then undo (hp[b := s] ! a) else hp[b := s] ! a)"
      unfolding hp' using Cons.prems(2,3) by (subst heap_map_nth) auto
    ultimately show ?thesis using Cons.prems(2-6) by (auto simp: nth_list_update)
  qed
qed simp

lemma take_all_frame:
  "distinct (held @ as) \<Longrightarrow> \<forall>b\<in>set (held @ as). b < length hp \<Longrightarrow> a \<notin> set (held @ as) \<Longrightarrow>
     snd (take_all grab undo held as hp) ! a = hp ! a"
  by (induction as arbitrary: held hp) (auto simp: heap_map_nth split: prod.splits option.splits)

lemma take_all_ok:
  "distinct (held @ as) \<Longrightarrow> \<forall>b\<in>set (held @ as). b < length hp \<Longrightarrow> \<forall>b<length hp. ok (hp ! b) \<Longrightarrow> a < length hp \<Longrightarrow>
     ok (snd (take_all grab undo held as hp) ! a)"
proof (induction as arbitrary: held hp)
  case (Cons b as)
  obtain x s where t: "grab (hp ! b) = (x, s)" by fastforce
  have s: "ok s" using Cons.prems t ok_take [of "hp ! b"] by simp
  with Cons show ?case
    by (cases x) (auto simp: t heap_map_nth nth_list_update ok_undo)
qed simp

lemma take_all_none_left:
  assumes "take_all grab undo [] as hp = (Inl r, hp')" "distinct as" "\<forall>a\<in>set as. a < length hp"
    and "\<forall>a<length hp. ok (hp ! a)"
  shows "map view hp' = map view hp"
proof (rule nth_equalityI)
  show len: "length (map view hp') = length (map view hp)"
    using take_all_length [of grab undo "[]" as hp] assms(1) by simp
  fix i assume i: "i < length (map view hp')"
  have "view (hp' ! i) = view (hp ! i)"
  proof (cases "i \<in> set as")
    case True
    with assms show ?thesis by (intro take_all_refused [of "[]" as hp r hp' hp]) auto
  next
    case False
    with assms take_all_frame [of "[]" as hp i] show ?thesis by simp
  qed
  with i len show "map view hp' ! i = map view hp ! i" by simp
qed

lemma take_all_given_back:
  assumes "take_all grab undo [] as hp = (Inr held, hp')" "distinct as" "\<forall>a\<in>set as. a < length hp"
    and "\<forall>a<length hp. ok (hp ! a)"
  shows "map view (heap_map undo (rev held) hp') = map view hp"
proof (rule nth_equalityI)
  note res = take_all_Inr [OF assms(1-3)]
  have len: "length hp' = length hp" using take_all_length [of grab undo "[]" as hp] assms(1) by simp
  then show "length (map view (heap_map undo (rev held) hp')) = length (map view hp)" by simp
  fix i assume "i < length (map view (heap_map undo (rev held) hp'))"
  then have i: "i < length hp" using len by simp
  have "view (undo (snd (grab (hp ! i)))) = view (hp ! i)" if "i \<in> set as"
    using that res assms(4) i undone [of "hp ! i" "snd (grab (hp ! i))"] by (metis prod.collapse)
  moreover have "heap_map undo (rev held) hp' ! i = (if i \<in> set as then undo (hp' ! i) else hp' ! i)"
    using res assms(2,3) len by (subst heap_map_nth) auto
  ultimately show "map view (heap_map undo (rev held) hp') ! i = map view hp ! i"
    using i len res by simp
qed

end

text \<open>One scope, for a request of \<open>tokens\<close> at time \<open>now\<close> that may hold a ticket at the scope it queued on.\<close>

definition scope_ticket :: "(string \<times> nat) option \<Rightarrow> scope \<Rightarrow> nat option" where
  "scope_ticket holder s = (case holder of None \<Rightarrow> None | Some (queued, t) \<Rightarrow> if queued = sc_name s then Some t else None)"

definition try_scope :: "nat \<Rightarrow> nat \<Rightarrow> (string \<times> nat) option \<Rightarrow> scope \<Rightarrow> rejection option \<times> scope" where
  "try_scope tokens now holder s = try_acquire_as tokens now (scope_ticket holder s) s"

lemma rolled_ok: "scope_ok s \<Longrightarrow> scope_ok (rolled now s)"
  by (simp add: scope_ok_def)

lemma slot_refill_ok: "slot_ok slot \<Longrightarrow> slot_ok (map_option (bucket_refill now) slot)"
  by (cases slot) (auto simp: slot_ok_def refill_ok)

lemma try_scope_ok: "scope_ok s \<Longrightarrow> scope_ok (snd (try_scope tokens now holder s))"
proof -
  assume ok: "scope_ok s"
  obtain r s' where res: "try_acquire_as tokens now (scope_ticket holder s) s = (r, s')" by fastforce
  from this ok show ?thesis
  proof (cases rule: try_acquire_cases)
    case granted
    with ok slot_take_ok [of "sc_request_bucket s" 1 now] slot_take_ok [of "sc_token_bucket s" tokens now]
    show ?thesis by (simp add: try_scope_def res scope_ok_def wrap_inc32_def wrap_inc64_def)
  qed (use ok in \<open>auto simp: try_scope_def res scope_ok_def slot_refill_ok\<close>)
qed

lemma rollback_ok: "scope_ok s \<Longrightarrow> scope_ok (scope_rollback tokens s)"
  by (simp add: scope_ok_def scope_rollback_def slot_refund_ok wrap_dec32_def wrap_inc64_def)

lemma outstanding_cancel:
  assumes "r < 2 ^ 64"
  shows "outstanding (wrap_inc64 a) (wrap_inc64 r) = outstanding a r"
proof -
  define m :: nat where "m = 2 ^ 64"
  have "((a + 1) mod m + (m - (r + 1) mod m)) mod m = (a + 1 + (m - (r + 1) mod m)) mod m"
    by (rule mod_add_left_eq)
  also have "\<dots> = (a + (m - r)) mod m"
  proof (cases "r + 1 = m")
    case True
    then have "(r + 1) mod m = 0" "m - r = 1" by auto
    then show ?thesis by (metis add.commute diff_zero mod_add_self1)
  next
    case False
    then have "r + 1 < m" using assms by (simp add: m_def)
    then have "a + 1 + (m - (r + 1) mod m) = a + (m - r)" by simp
    then show ?thesis by (simp only:)
  qed
  finally show ?thesis by (simp only: outstanding_def wrap_inc64_def m_def)
qed

lemma try_scope_refused:
  assumes "scope_ok s" "try_scope tokens now holder s = (Some rej, s')"
  shows "settled now s' = settled now s"
  using assms(2) [unfolded try_scope_def] assms(1)
  by (cases rule: try_acquire_cases)
    (auto simp: settled_rolled [of now s, symmetric] intro!: scope.equality,
     auto simp: settled_def observed_spend_def)

lemma try_scope_undone:
  assumes "scope_ok s" "try_scope tokens now holder s = (None, s')"
  shows "settled now (scope_rollback tokens s') = settled now s"
  using assms(2) [unfolded try_scope_def] assms(1)
proof (cases rule: try_acquire_cases)
  case (granted rb tb)
  have "settled now (scope_rollback tokens s') = settled now (rolled now s)"
    using granted assms(1) slot_take_refund [OF _ granted(2)] slot_take_refund [OF _ granted(3)]
    by (intro scope.equality)
      (simp_all add: settled_def scope_rollback_def observed_spend_def scope_ok_def wrap_dec_inc outstanding_cancel)
  then show ?thesis by (simp add: settled_rolled)
qed simp_all

interpretation scope: reversible "try_scope tokens now holder" "scope_rollback tokens" "settled now" scope_ok
  for tokens now holder
  by unfold_locales (auto intro: try_scope_refused try_scope_undone try_scope_ok rollback_ok)

end
