(* ===== verification/Machine.thy ===== *)
theory Machine
  imports Access
begin

text \<open>
  The memory of one machine shared by every target on it (\<open>hypellm-core/src/machine.rs\<close>). The
  ledger's mutex makes each operation one atomic step; condition-variable wake-ups carry no data and
  are left out, the change counter that protects a waiter from missing one is kept.
\<close>

section \<open>State\<close>

definition CLAIM_TTL_MS :: nat where "CLAIM_TTL_MS = 60000"
definition MAX_CLAIMS :: nat where "MAX_CLAIMS = 256"

record claim =
  cl_key :: string
  cl_class :: priority_class
  cl_seq :: nat
  cl_bytes :: nat
  cl_since_ms :: nat
  cl_expires_ms :: nat

record machine_ledger =
  ml_name :: string
  ml_capacity_bytes :: nat
  ml_held_bytes :: nat
  ml_holders :: "(target_id, nat \<times> nat) btree_map"
  ml_claims :: "claim list"
  ml_next_seq :: nat
  ml_acquired :: nat
  ml_released :: nat
  ml_changes :: "64 word"

record machine_hold =
  mh_target :: target_id
  mh_bytes :: nat

record waiting_view =
  wv_class :: priority_class
  wv_bytes :: nat
  wv_waited_ms :: nat

record machine_view =
  mv_capacity_bytes :: nat
  mv_held_bytes :: nat
  mv_holders :: "(target_id \<times> nat \<times> nat) list"
  mv_waiting :: "waiting_view list"

definition machine_new :: "string \<Rightarrow> nat \<Rightarrow> machine_ledger" where
  "machine_new i capacity =
     \<lparr>ml_name = ''machine:'' @ i, ml_capacity_bytes = capacity, ml_held_bytes = 0, ml_holders = [],
      ml_claims = [], ml_next_seq = 0, ml_acquired = 0, ml_released = 0, ml_changes = 0\<rparr>"

definition ml_changed :: "machine_ledger \<Rightarrow> machine_ledger" where
  "ml_changed s = s\<lparr>ml_changes := ml_changes s + 1\<rparr>"

definition expire :: "nat \<Rightarrow> machine_ledger \<Rightarrow> machine_ledger" where
  "expire now s =
     (let live = filter (\<lambda>c. cl_expires_ms c > now) (ml_claims s);
          s1 = s\<lparr>ml_claims := live\<rparr>
      in if length live \<noteq> length (ml_claims s) then ml_changed s1 else s1)"

definition claim_rank :: "claim \<Rightarrow> priority_class \<times> nat" where
  "claim_rank c = (cl_class c, cl_seq c)"

definition outranked :: "machine_ledger \<Rightarrow> priority_class \<Rightarrow> nat \<Rightarrow> string option \<Rightarrow> bool" where
  "outranked s class seq key =
     list_ex (\<lambda>c. Some (cl_key c) \<noteq> key \<and> cl_bytes c \<le> ml_capacity_bytes s \<and> claim_rank c < (class, seq))
       (ml_claims s)"

definition machine_reconfigure :: "nat \<Rightarrow> machine_ledger \<Rightarrow> machine_ledger" where
  "machine_reconfigure capacity s = ml_changed (s\<lparr>ml_capacity_bytes := capacity\<rparr>)"

definition find_claim :: "string \<Rightarrow> machine_ledger \<Rightarrow> claim option" where
  "find_claim k s = List.find (\<lambda>c. cl_key c = k) (ml_claims s)"

definition remove_claim :: "string \<Rightarrow> machine_ledger \<Rightarrow> machine_ledger" where
  "remove_claim k s =
     (let rest = filter (\<lambda>c. cl_key c \<noteq> k) (ml_claims s);
          s1 = s\<lparr>ml_claims := rest\<rparr>
      in if length rest \<noteq> length (ml_claims s) then ml_changed s1 else s1)"

definition add_holder :: "target_id \<Rightarrow> nat \<Rightarrow> machine_ledger \<Rightarrow> machine_ledger" where
  "add_holder t bytes s =
     (let (n, b) = unwrap_or (0, 0) (btree_get (ml_holders s) t)
      in s\<lparr>ml_held_bytes := sat_add64 (ml_held_bytes s) bytes,
           ml_holders := btree_insert t (sat_add32 n 1, sat_add64 b bytes) (ml_holders s)\<rparr>)"

definition claim_seq :: "string option \<Rightarrow> machine_ledger \<Rightarrow> nat" where
  "claim_seq key s =
     (case key of None \<Rightarrow> u64_max
      | Some k \<Rightarrow> (case find_claim k s of None \<Rightarrow> u64_max | Some c \<Rightarrow> cl_seq c))"

definition try_hold ::
  "target_id \<Rightarrow> nat \<Rightarrow> priority_class \<Rightarrow> string option \<Rightarrow> nat \<Rightarrow> machine_ledger
     \<Rightarrow> machine_hold option \<times> machine_ledger" where
  "try_hold t bytes class key now s0 =
     (let s = expire now s0;
          fits = ml_held_bytes s + bytes \<le> u64_max \<and> ml_held_bytes s + bytes \<le> ml_capacity_bytes s
      in if bytes > 0 \<and> (\<not> fits \<or> outranked s class (claim_seq key s) key) then (None, s)
         else
           let s1 = (if bytes > 0 then add_holder t bytes s else s);
               s2 = (case key of None \<Rightarrow> s1 | Some k \<Rightarrow> remove_claim k s1)
           in (Some \<lparr>mh_target = t, mh_bytes = bytes\<rparr>,
               s2\<lparr>ml_acquired := sat_add64 (ml_acquired s2) 1\<rparr>))"

fun renew_claim :: "string \<Rightarrow> priority_class \<Rightarrow> nat \<Rightarrow> nat \<Rightarrow> claim list \<Rightarrow> claim list" where
  "renew_claim k class bytes expires [] = []"
| "renew_claim k class bytes expires (c # cs) =
     (if cl_key c = k
      then c\<lparr>cl_class := class, cl_bytes := bytes, cl_expires_ms := expires\<rparr> # cs
      else c # renew_claim k class bytes expires cs)"

definition machine_claim ::
  "string \<Rightarrow> priority_class \<Rightarrow> nat \<Rightarrow> nat \<Rightarrow> machine_ledger \<Rightarrow> bool \<times> machine_ledger" where
  "machine_claim k class bytes now s0 =
     (if bytes = 0 then (False, s0)
      else
        let s = expire now s0;
            expires = sat_add64 now CLAIM_TTL_MS
        in if find_claim k s \<noteq> None
           then (True, s\<lparr>ml_claims := renew_claim k class bytes expires (ml_claims s)\<rparr>)
           else if length (ml_claims s) \<ge> MAX_CLAIMS then (False, s)
           else (True, s\<lparr>ml_next_seq := sat_add64 (ml_next_seq s) 1,
                        ml_claims := ml_claims s @
                          [\<lparr>cl_key = k, cl_class = class, cl_seq = ml_next_seq s, cl_bytes = bytes,
                            cl_since_ms = now, cl_expires_ms = expires\<rparr>]\<rparr>))"

definition drop_claim :: "string \<Rightarrow> machine_ledger \<Rightarrow> machine_ledger" where
  "drop_claim k s = remove_claim k s"

text \<open>
  One round of \<open>hold_waiting\<close>: \<open>now1\<close> and \<open>now2\<close> are the clock readings of the round and \<open>spent\<close> says
  whether the budget has run out. \<open>None\<close> means the request keeps waiting.
\<close>

definition hold_round ::
  "target_id \<Rightarrow> nat \<Rightarrow> priority_class \<Rightarrow> string \<Rightarrow> bool \<Rightarrow> nat \<Rightarrow> nat \<Rightarrow> machine_ledger
     \<Rightarrow> machine_hold option option \<times> machine_ledger" where
  "hold_round t bytes class k spent now1 now2 s0 =
     (case try_hold t bytes class (Some k) now1 s0 of
        (Some h, s) \<Rightarrow> (Some (Some h), s)
      | (None, s) \<Rightarrow>
          if spent then (Some None, drop_claim k s)
          else case machine_claim k class bytes now2 s of
                 (True, s') \<Rightarrow> (None, s')
               | (False, s') \<Rightarrow> (Some None, drop_claim k s'))"

definition machine_view_of :: "nat \<Rightarrow> machine_ledger \<Rightarrow> machine_view \<times> machine_ledger" where
  "machine_view_of now s0 =
     (let s = expire now s0
      in (\<lparr>mv_capacity_bytes = ml_capacity_bytes s, mv_held_bytes = ml_held_bytes s,
           mv_holders = map (\<lambda>(t, n, b). (t, n, b)) (ml_holders s),
           mv_waiting = map (\<lambda>c. \<lparr>wv_class = cl_class c, wv_bytes = cl_bytes c,
                                  wv_waited_ms = now - cl_since_ms c\<rparr>)
                          (sort_key claim_rank (ml_claims s))\<rparr>, s))"

definition give_back :: "machine_hold \<Rightarrow> machine_ledger \<Rightarrow> machine_ledger" where
  "give_back h s =
     (let held = ml_held_bytes s - mh_bytes h;
          holders =
            (if mh_bytes h > 0 then
               case btree_get (ml_holders s) (mh_target h) of
                 None \<Rightarrow> ml_holders s
               | Some (n, b) \<Rightarrow>
                   if n - 1 = 0 then btree_remove (mh_target h) (ml_holders s)
                   else btree_insert (mh_target h) (n - 1, b - mh_bytes h) (ml_holders s)
             else ml_holders s)
      in ml_changed (s\<lparr>ml_held_bytes := held, ml_holders := holders,
                      ml_released := sat_add64 (ml_released s) 1\<rparr>))"

section \<open>Frame lemmas\<close>

lemma expire_sel [simp]:
  "ml_held_bytes (expire now s) = ml_held_bytes s" "ml_capacity_bytes (expire now s) = ml_capacity_bytes s"
  "ml_holders (expire now s) = ml_holders s" "ml_next_seq (expire now s) = ml_next_seq s"
  "ml_acquired (expire now s) = ml_acquired s" "ml_released (expire now s) = ml_released s"
  "ml_claims (expire now s) = filter (\<lambda>c. cl_expires_ms c > now) (ml_claims s)"
  by (simp_all add: expire_def ml_changed_def Let_def)

lemma remove_claim_sel [simp]:
  "ml_held_bytes (remove_claim k s) = ml_held_bytes s" "ml_capacity_bytes (remove_claim k s) = ml_capacity_bytes s"
  "ml_holders (remove_claim k s) = ml_holders s" "ml_next_seq (remove_claim k s) = ml_next_seq s"
  "ml_acquired (remove_claim k s) = ml_acquired s" "ml_released (remove_claim k s) = ml_released s"
  "ml_claims (remove_claim k s) = filter (\<lambda>c. cl_key c \<noteq> k) (ml_claims s)"
  by (simp_all add: remove_claim_def ml_changed_def Let_def)

lemma ml_changed_sel [simp]:
  "ml_held_bytes (ml_changed s) = ml_held_bytes s" "ml_capacity_bytes (ml_changed s) = ml_capacity_bytes s"
  "ml_holders (ml_changed s) = ml_holders s" "ml_claims (ml_changed s) = ml_claims s"
  "ml_next_seq (ml_changed s) = ml_next_seq s" "ml_acquired (ml_changed s) = ml_acquired s"
  "ml_released (ml_changed s) = ml_released s"
  by (simp_all add: ml_changed_def)

lemma add_holder_sel [simp]:
  "ml_capacity_bytes (add_holder t n s) = ml_capacity_bytes s" "ml_claims (add_holder t n s) = ml_claims s"
  "ml_next_seq (add_holder t n s) = ml_next_seq s" "ml_acquired (add_holder t n s) = ml_acquired s"
  "ml_released (add_holder t n s) = ml_released s" "ml_held_bytes (add_holder t n s) = sat_add64 (ml_held_bytes s) n"
  by (simp_all add: add_holder_def split: prod.split)

section \<open>Accounting\<close>

text \<open>The holds taken on the machine and not yet returned.\<close>

record machine_system =
  ms_ledger :: machine_ledger
  ms_open :: "machine_hold multiset"

text \<open>
  The steps of a machine and its users. Fewer than $2^{32}$ holds are open at any time; the per-target
  counter is a \<open>u32\<close>.
\<close>

inductive machine_step :: "machine_system \<Rightarrow> machine_system \<Rightarrow> bool" where
  mstep_hold: "try_hold t bytes class key now s = (Some h, s') \<Longrightarrow> size m < u32_max \<Longrightarrow>
    machine_step \<lparr>ms_ledger = s, ms_open = m\<rparr> \<lparr>ms_ledger = s', ms_open = add_mset h m\<rparr>"
| mstep_refused: "try_hold t bytes class key now s = (None, s') \<Longrightarrow>
    machine_step \<lparr>ms_ledger = s, ms_open = m\<rparr> \<lparr>ms_ledger = s', ms_open = m\<rparr>"
| mstep_claim: "machine_claim k class bytes now s = (b, s') \<Longrightarrow>
    machine_step \<lparr>ms_ledger = s, ms_open = m\<rparr> \<lparr>ms_ledger = s', ms_open = m\<rparr>"
| mstep_drop: "machine_step \<lparr>ms_ledger = s, ms_open = m\<rparr> \<lparr>ms_ledger = drop_claim k s, ms_open = m\<rparr>"
| mstep_view: "machine_step \<lparr>ms_ledger = s, ms_open = m\<rparr> \<lparr>ms_ledger = snd (machine_view_of now s), ms_open = m\<rparr>"
| mstep_reconfigure:
    "machine_step \<lparr>ms_ledger = s, ms_open = m\<rparr> \<lparr>ms_ledger = machine_reconfigure c s, ms_open = m\<rparr>"
| mstep_release:
    "machine_step \<lparr>ms_ledger = s, ms_open = add_mset h m\<rparr> \<lparr>ms_ledger = give_back h s, ms_open = m\<rparr>"

definition machine_reachable :: "machine_system \<Rightarrow> bool" where
  "machine_reachable s \<longleftrightarrow>
     (\<exists>i c. machine_step\<^sup>*\<^sup>* \<lparr>ms_ledger = machine_new i c, ms_open = {#}\<rparr> s)"

definition open_bytes :: "machine_hold multiset \<Rightarrow> nat" where
  "open_bytes m = sum_mset (image_mset mh_bytes m)"

definition holds_of :: "target_id \<Rightarrow> machine_hold multiset \<Rightarrow> machine_hold multiset" where
  "holds_of t m = filter_mset (\<lambda>h. mh_target h = t \<and> mh_bytes h > 0) m"

lemma open_bytes_simps [simp]:
  "open_bytes {#} = 0" "open_bytes (add_mset h m) = mh_bytes h + open_bytes m"
  by (simp_all add: open_bytes_def)

lemma holds_of_simps [simp]:
  "holds_of t {#} = {#}"
  "holds_of t (add_mset h m) = (if mh_target h = t \<and> mh_bytes h > 0 then add_mset h (holds_of t m) else holds_of t m)"
  by (simp_all add: holds_of_def)

definition machine_inv :: "machine_system \<Rightarrow> bool" where
  "machine_inv s \<longleftrightarrow>
     ml_held_bytes (ms_ledger s) = open_bytes (ms_open s) \<and> ml_held_bytes (ms_ledger s) \<le> u64_max \<and>
     size (ms_open s) \<le> u32_max \<and>
     (\<forall>t. btree_get (ml_holders (ms_ledger s)) t =
        (if holds_of t (ms_open s) = {#} then None
         else Some (size (holds_of t (ms_open s)), open_bytes (holds_of t (ms_open s)))))"

lemma open_bytes_holds_of: "open_bytes (holds_of t m) \<le> open_bytes m"
  by (induction m) auto

lemma size_holds_of: "size (holds_of t m) \<le> size m"
  by (simp add: holds_of_def size_filter_mset_lesseq)

text \<open>How a grant changes the accounts.\<close>

lemma try_hold_Some:
  assumes "try_hold t bytes class key now s = (Some h, s')"
  shows "h = \<lparr>mh_target = t, mh_bytes = bytes\<rparr>"
    "ml_held_bytes s' = (if bytes > 0 then sat_add64 (ml_held_bytes s) bytes else ml_held_bytes s)"
    "bytes > 0 \<Longrightarrow> ml_held_bytes s + bytes \<le> u64_max \<and> ml_held_bytes s + bytes \<le> ml_capacity_bytes s"
    "ml_holders s' = (if bytes > 0 then ml_holders (add_holder t bytes s) else ml_holders s)"
    "ml_capacity_bytes s' = ml_capacity_bytes s"
proof -
  have "ml_holders (add_holder t bytes (expire now s)) = ml_holders (add_holder t bytes s)"
    by (simp add: add_holder_def split: prod.split)
  then show "h = \<lparr>mh_target = t, mh_bytes = bytes\<rparr>"
    "ml_held_bytes s' = (if bytes > 0 then sat_add64 (ml_held_bytes s) bytes else ml_held_bytes s)"
    "bytes > 0 \<Longrightarrow> ml_held_bytes s + bytes \<le> u64_max \<and> ml_held_bytes s + bytes \<le> ml_capacity_bytes s"
    "ml_holders s' = (if bytes > 0 then ml_holders (add_holder t bytes s) else ml_holders s)"
    "ml_capacity_bytes s' = ml_capacity_bytes s"
    using assms by (auto simp: try_hold_def Let_def split: if_splits option.splits)
qed

lemma try_hold_None:
  "try_hold t bytes class key now s = (None, s') \<Longrightarrow> s' = expire now s"
  by (auto simp: try_hold_def Let_def split: if_splits)

lemma machine_inv_hold:
  assumes inv: "machine_inv \<lparr>ms_ledger = s, ms_open = m\<rparr>"
    and h: "try_hold t bytes class key now s = (Some h, s')" and sz: "size m < u32_max"
  shows "machine_inv \<lparr>ms_ledger = s', ms_open = add_mset h m\<rparr>"
proof (cases "bytes > 0")
  case False
  then show ?thesis using inv sz try_hold_Some [OF h] by (auto simp: machine_inv_def)
next
  case True
  note e = try_hold_Some [OF h]
  have le: "ml_held_bytes s + bytes \<le> u64_max" using e(3) True by simp
  have "sat_add64 (open_bytes (holds_of t m)) bytes = open_bytes (holds_of t m) + bytes"
    using inv le open_bytes_holds_of [of t m] by (intro sat_add64_id) (auto simp: machine_inv_def)
  moreover have "sat_add32 (size (holds_of t m)) 1 = Suc (size (holds_of t m))"
    using sz size_holds_of [of t m] by (simp add: sat_add32_def)
  ultimately have "btree_get (ml_holders (add_holder t bytes s)) t' =
      (if t' = t then Some (Suc (size (holds_of t m)), open_bytes (holds_of t m) + bytes)
       else btree_get (ml_holders s) t')" for t'
    using inv by (auto simp: machine_inv_def add_holder_def btree_get_insert sat_add64_def sat_u64_def sat_add32_def
        split: prod.splits)
  then show ?thesis
    using inv True sz e le by (auto simp: machine_inv_def sat_add64_id add.commute)
qed

lemma machine_inv_release:
  assumes inv: "machine_inv \<lparr>ms_ledger = s, ms_open = add_mset h m\<rparr>"
  shows "machine_inv \<lparr>ms_ledger = give_back h s, ms_open = m\<rparr>"
proof (cases "mh_bytes h > 0")
  case False
  then show ?thesis using inv by (auto simp: machine_inv_def give_back_def Let_def)
next
  case True
  have get: "btree_get (ml_holders s) (mh_target h) =
      Some (Suc (size (holds_of (mh_target h) m)), mh_bytes h + open_bytes (holds_of (mh_target h) m))"
    using inv True by (auto simp: machine_inv_def)
  show ?thesis
  proof (cases "holds_of (mh_target h) m = {#}")
    case none: True
    then show ?thesis
      using inv True get by (auto simp: machine_inv_def give_back_def Let_def btree_get_remove)
  next
    case some: False
    then have "size (holds_of (mh_target h) m) \<noteq> 0" by (simp add: size_eq_0_iff_empty)
    then show ?thesis
      using inv True get some by (auto simp: machine_inv_def give_back_def Let_def btree_get_insert)
  qed
qed

lemma machine_inv_frame:
  assumes "machine_inv \<lparr>ms_ledger = s, ms_open = m\<rparr>" "ml_held_bytes s' = ml_held_bytes s" "ml_holders s' = ml_holders s"
  shows "machine_inv \<lparr>ms_ledger = s', ms_open = m\<rparr>"
  using assms by (simp add: machine_inv_def)

lemma claim_frame:
  "machine_claim k class bytes now s = (b, s') \<Longrightarrow> ml_held_bytes s' = ml_held_bytes s \<and> ml_holders s' = ml_holders s"
  by (auto simp: machine_claim_def Let_def split: if_splits)

lemma machine_inv_step: "machine_step s s' \<Longrightarrow> machine_inv s \<Longrightarrow> machine_inv s'"
proof (induction rule: machine_step.induct)
  case (mstep_hold t bytes cls key now s h s' m)
  then show ?case by (intro machine_inv_hold)
next
  case (mstep_claim k cls bytes now s b s' m)
  then show ?case using claim_frame [OF mstep_claim.hyps] by (auto intro: machine_inv_frame)
next
  case (mstep_refused t bytes cls key now s s' m)
  then show ?case using try_hold_None [OF mstep_refused.hyps] by (auto intro: machine_inv_frame)
qed (auto simp: drop_claim_def machine_view_of_def machine_reconfigure_def Let_def
    intro: machine_inv_frame machine_inv_release)

lemma machine_reachable_inv: "machine_reachable s \<Longrightarrow> machine_inv s"
proof -
  have "machine_step\<^sup>*\<^sup>* s s' \<Longrightarrow> machine_inv s \<Longrightarrow> machine_inv s'" for s s'
    by (induction rule: rtranclp_induct) (auto intro: machine_inv_step)
  moreover have "machine_inv \<lparr>ms_ledger = machine_new i c, ms_open = {#}\<rparr>" for i c
    by (simp add: machine_inv_def machine_new_def btree_get_def)
  ultimately show "machine_reachable s \<Longrightarrow> machine_inv s" by (auto simp: machine_reachable_def)
qed

text \<open>
  C37: machine memory is conserved and never overcommitted by a grant. In every reachable state the bytes
  the ledger counts as held are exactly the sum over the open holds, the per-target entries are their
  exact per-target counts and sums (no entry for a target without holds), and every grant of memory
  leaves the total within the capacity in force.
\<close>

theorem machine_memory_conserved:
  assumes "machine_reachable s"
  shows "ml_held_bytes (ms_ledger s) = open_bytes (ms_open s) \<and>
    btree_get (ml_holders (ms_ledger s)) t =
      (if holds_of t (ms_open s) = {#} then None
       else Some (size (holds_of t (ms_open s)), open_bytes (holds_of t (ms_open s)))) \<and>
    (\<forall>h s'. try_hold t bytes cls key now (ms_ledger s) = (Some h, s') \<and> 0 < bytes \<longrightarrow>
       open_bytes (add_mset h (ms_open s)) \<le> ml_capacity_bytes s')"
proof -
  have inv: "machine_inv s" by (rule machine_reachable_inv [OF assms])
  have "open_bytes (add_mset h (ms_open s)) \<le> ml_capacity_bytes s'"
    if "try_hold t bytes cls key now (ms_ledger s) = (Some h, s')" "0 < bytes" for h s'
    using try_hold_Some [OF that(1)] that(2) inv by (auto simp: machine_inv_def)
  with inv show ?thesis by (auto simp: machine_inv_def)
qed

section \<open>Order of admission\<close>

definition live_claims :: "nat \<Rightarrow> machine_ledger \<Rightarrow> claim list" where
  "live_claims now s = filter (\<lambda>c. cl_expires_ms c > now) (ml_claims s)"

text \<open>Until the arrival numbers run out, no two claims share a key or an arrival number.\<close>

definition claims_inv :: "machine_ledger \<Rightarrow> bool" where
  "claims_inv s \<longleftrightarrow> (ml_next_seq s < u64_max \<longrightarrow>
     distinct (map cl_key (ml_claims s)) \<and> distinct (map cl_seq (ml_claims s)) \<and>
     (\<forall>c \<in> set (ml_claims s). cl_seq c < ml_next_seq s))"

lemma claims_inv_filter:
  "claims_inv s \<Longrightarrow> ml_claims s' = filter P (ml_claims s) \<Longrightarrow> ml_next_seq s' = ml_next_seq s \<Longrightarrow> claims_inv s'"
  by (auto simp: claims_inv_def distinct_map_filter)

lemma claims_inv_expire: "claims_inv s \<Longrightarrow> claims_inv (expire now s)"
  by (erule claims_inv_filter) simp_all

lemma try_hold_claims:
  assumes "try_hold t bytes cls key now s = (r, s')"
  shows "ml_next_seq s' = ml_next_seq s"
    "ml_claims s' = (if r = None then live_claims now s else filter (\<lambda>c. Some (cl_key c) \<noteq> key) (live_claims now s))"
  using assms by (auto simp: try_hold_def live_claims_def Let_def split: if_splits option.splits)

lemma renew_claim_sel [simp]:
  "map cl_key (renew_claim k cls bytes e cs) = map cl_key cs" "map cl_seq (renew_claim k cls bytes e cs) = map cl_seq cs"
  by (induction cs) auto

lemma claims_inv_claim:
  assumes "claims_inv s" "machine_claim k cls bytes now s = (b, s')"
  shows "claims_inv s'"
proof (cases "find_claim k (expire now s)")
  case None
  have inv: "claims_inv (expire now s)" using assms(1) by (rule claims_inv_expire)
  have "k \<notin> cl_key ` set (ml_claims (expire now s))" using None by (auto simp: find_claim_def find_None_iff)
  with inv have "claims_inv ((expire now s)\<lparr>ml_next_seq := sat_add64 (ml_next_seq s) 1, ml_claims := ml_claims (expire now s) @
      [\<lparr>cl_key = k, cl_class = cls, cl_seq = ml_next_seq s, cl_bytes = bytes, cl_since_ms = now, cl_expires_ms = e\<rparr>]\<rparr>)" for e
    by (fastforce simp: claims_inv_def sat_add64_def sat_u64_def)
  with assms inv None show ?thesis by (auto simp: machine_claim_def Let_def split: if_splits)
next
  case (Some c)
  have inv: "claims_inv (expire now s)" using assms(1) by (rule claims_inv_expire)
  then have "claims_inv ((expire now s)\<lparr>ml_claims := renew_claim k cls bytes e (ml_claims (expire now s))\<rparr>)" for e
    unfolding claims_inv_def by (simp del: expire_sel(7)) (metis renew_claim_sel(2) image_eqI imageE set_map)
  with assms Some show ?thesis by (auto simp: machine_claim_def Let_def split: if_splits)
qed

lemma claims_inv_step: "machine_step s s' \<Longrightarrow> claims_inv (ms_ledger s) \<Longrightarrow> claims_inv (ms_ledger s')"
proof (induction rule: machine_step.induct)
  case (mstep_hold t bytes cls key now s h s' m)
  then show ?case using try_hold_claims [OF mstep_hold.hyps(1)]
    by (auto simp: live_claims_def filter_filter elim!: claims_inv_filter)
next
  case (mstep_refused t bytes cls key now s s' m)
  then show ?case using try_hold_claims [OF mstep_refused.hyps] by (auto simp: live_claims_def elim!: claims_inv_filter)
next
  case (mstep_claim k cls bytes now s b s' m)
  then show ?case by (auto intro: claims_inv_claim)
next
  case (mstep_drop s m k)
  then show ?case by (auto simp: drop_claim_def elim!: claims_inv_filter)
next
  case (mstep_view s m now)
  then show ?case by (auto simp: machine_view_of_def Let_def intro: claims_inv_expire)
qed (simp_all add: claims_inv_def machine_reconfigure_def give_back_def Let_def)

lemma machine_reachable_claims: "machine_reachable s \<Longrightarrow> claims_inv (ms_ledger s)"
proof -
  have "machine_step\<^sup>*\<^sup>* s s' \<Longrightarrow> claims_inv (ms_ledger s) \<Longrightarrow> claims_inv (ms_ledger s')" for s s'
    by (induction rule: rtranclp_induct) (auto intro: claims_inv_step)
  moreover have "claims_inv (machine_new i c)" for i c by (simp add: claims_inv_def machine_new_def)
  ultimately show "machine_reachable s \<Longrightarrow> claims_inv (ms_ledger s)" by (auto simp: machine_reachable_def)
qed

text \<open>The waiting work that could fit the machine, and which of it is first: by class, then by arrival.\<close>

definition contenders :: "nat \<Rightarrow> machine_ledger \<Rightarrow> claim set" where
  "contenders now s = {c \<in> set (live_claims now s). cl_bytes c \<le> ml_capacity_bytes s}"

definition first_in_line :: "nat \<Rightarrow> machine_ledger \<Rightarrow> claim \<Rightarrow> bool" where
  "first_in_line now s c \<longleftrightarrow> c \<in> contenders now s \<and>
     (\<forall>d \<in> contenders now s. d \<noteq> c \<longrightarrow> cl_class c < cl_class d \<or> cl_class c = cl_class d \<and> cl_seq c < cl_seq d)"

definition room_for :: "nat \<Rightarrow> machine_ledger \<Rightarrow> bool" where
  "room_for bytes s \<longleftrightarrow> ml_held_bytes s + bytes \<le> ml_capacity_bytes s \<and> ml_held_bytes s + bytes \<le> u64_max"

lemma try_hold_granted_iff:
  "0 < bytes \<Longrightarrow> fst (try_hold t bytes cls key now s) \<noteq> None \<longleftrightarrow>
     room_for bytes s \<and> (\<forall>c \<in> contenders now s. Some (cl_key c) \<noteq> key \<longrightarrow> \<not> claim_rank c < (cls, claim_seq key (expire now s)))"
  by (auto simp: try_hold_def room_for_def outranked_def contenders_def live_claims_def list_ex_iff Let_def)

lemma claim_seq_own:
  assumes "claims_inv s" "ml_next_seq s < u64_max" "c \<in> set (live_claims now s)"
  shows "claim_seq (Some (cl_key c)) (expire now s) = cl_seq c"
proof -
  have "distinct (map cl_key (live_claims now s))"
    using assms(1,2) by (simp add: claims_inv_def live_claims_def distinct_map_filter)
  from find_by_name [OF this assms(3)] show ?thesis by (simp add: claim_seq_def find_claim_def live_claims_def)
qed

lemma claim_seq_cases:
  "claim_seq key s = u64_max \<or> (\<exists>own \<in> set (ml_claims s). Some (cl_key own) = key \<and> claim_seq key s = cl_seq own)"
  by (auto simp: claim_seq_def find_claim_def find_Some_iff split: option.splits)

lemma contenders_ranks:
  assumes "claims_inv s" "ml_next_seq s < u64_max" "c \<in> set (live_claims now s)" "d \<in> set (live_claims now s)"
  shows "cl_seq c = cl_seq d \<Longrightarrow> c = d" "cl_seq c < u64_max"
proof -
  have i: "inj_on cl_seq (set (ml_claims s))" "\<forall>c \<in> set (ml_claims s). cl_seq c < ml_next_seq s"
    using assms(1,2) by (auto simp: claims_inv_def distinct_map)
  have m: "c \<in> set (ml_claims s)" "d \<in> set (ml_claims s)" using assms(3,4) by (auto simp: live_claims_def)
  show "cl_seq c = cl_seq d \<Longrightarrow> c = d" using inj_onD [OF i(1)] m by blast
  show "cl_seq c < u64_max" using i(2) m(1) assms(2) by fastforce
qed

text \<open>What a grant says about the others in line, who is first, and that being first is enough.\<close>

lemma granted_ranks:
  assumes "claims_inv s" "ml_next_seq s < u64_max" "0 < bytes" "fst (try_hold t bytes cls key now s) \<noteq> None"
    and c: "c \<in> contenders now s" "Some (cl_key c) \<noteq> key"
  shows "cls < cl_class c \<or>
    cls = cl_class c \<and> (\<exists>own \<in> set (live_claims now s). Some (cl_key own) = key \<and> cl_seq own < cl_seq c)"
proof -
  have live: "c \<in> set (live_claims now s)" using c(1) by (simp add: contenders_def)
  note ranks = contenders_ranks [OF assms(1,2)]
  have "\<not> claim_rank c < (cls, claim_seq key (expire now s))"
    using assms(4) c unfolding try_hold_granted_iff [OF assms(3)] by blast
  then have "cls < cl_class c \<or> cls = cl_class c \<and> claim_seq key (expire now s) \<le> cl_seq c"
    by (auto simp: claim_rank_def less_prod_def')
  moreover have "\<exists>own \<in> set (live_claims now s). Some (cl_key own) = key \<and> cl_seq own < cl_seq c"
    if le: "claim_seq key (expire now s) \<le> cl_seq c"
  proof -
    have "claim_seq key (expire now s) \<noteq> u64_max" using le ranks(2) [OF live live] by simp
    then obtain own where own: "own \<in> set (live_claims now s)" "Some (cl_key own) = key" "claim_seq key (expire now s) = cl_seq own"
      using claim_seq_cases [of key "expire now s"] by (auto simp: live_claims_def)
    moreover have "cl_seq own \<noteq> cl_seq c" using ranks(1) [OF own(1) live] own(2) c(2) by auto
    ultimately show ?thesis using le by (intro bexI [of _ own]) auto
  qed
  ultimately show ?thesis by blast
qed

lemma first_exists:
  assumes "claims_inv s" "ml_next_seq s < u64_max" "contenders now s \<noteq> {}"
  shows "\<exists>!c. first_in_line now s c"
proof -
  have live: "c \<in> set (live_claims now s)" if "c \<in> contenders now s" for c using that by (simp add: contenders_def)
  have "finite (contenders now s)" by (simp add: contenders_def)
  with assms(3) obtain c where "c \<in> contenders now s" "\<forall>d \<in> contenders now s. claim_rank c \<le> claim_rank d"
    by (metis (no_types, lifting) arg_min_if_finite(1) arg_min_least)
  then have first: "first_in_line now s c"
    using contenders_ranks(1) [OF assms(1,2) live live] by (fastforce simp: first_in_line_def claim_rank_def less_eq_prod_def)
  moreover have "d = c" if "first_in_line now s d" for d
    using that first by (force simp: first_in_line_def)
  ultimately show ?thesis by blast
qed

lemma first_granted:
  assumes "claims_inv s" "ml_next_seq s < u64_max" "0 < bytes" "first_in_line now s c" "room_for bytes s"
  shows "fst (try_hold t bytes (cl_class c) (Some (cl_key c)) now s) \<noteq> None"
proof -
  have "c \<in> set (live_claims now s)" using assms(4) by (simp add: first_in_line_def contenders_def)
  from claim_seq_own [OF assms(1,2) this] show ?thesis
    unfolding try_hold_granted_iff [OF assms(3)] using assms(4,5)
    by (auto simp: first_in_line_def claim_rank_def less_prod_def')
qed

text \<open>
  C38: memory is granted in class and arrival order. Work that is granted memory fits and leaves the total within the
  capacity; its own claim is gone and no other live claim is touched. Every other waiting claim that could fit the
  machine is of a less urgent class, or of the same class and arrived after the claim of the work that was granted, so
  that a newcomer without a claim never passes waiting work of its own class or better. A refusal changes neither the
  holds nor the live claims, and there is a reason: no room, or a waiting claim of other work, of its class or better,
  that could fit. As long as work that could fit waits, exactly one claim is first in line, and whenever there is room
  its work is granted as soon as it asks with the class of its claim.
\<close>

theorem machine_grant_order:
  assumes "machine_reachable sys" "s = ms_ledger sys" "ml_next_seq s < u64_max" "0 < bytes"
  shows "(\<forall>h s'. try_hold t bytes cls key now s = (Some h, s') \<longrightarrow>
      h = \<lparr>mh_target = t, mh_bytes = bytes\<rparr> \<and> ml_held_bytes s' = ml_held_bytes s + bytes \<and>
      ml_held_bytes s' \<le> ml_capacity_bytes s \<and>
      ml_claims s' = filter (\<lambda>c. Some (cl_key c) \<noteq> key) (live_claims now s) \<and>
      (\<forall>c \<in> contenders now s. Some (cl_key c) \<noteq> key \<longrightarrow> cls < cl_class c \<or>
         cls = cl_class c \<and> (\<exists>own \<in> set (live_claims now s). Some (cl_key own) = key \<and> cl_seq own < cl_seq c))) \<and>
    (\<forall>s'. try_hold t bytes cls key now s = (None, s') \<longrightarrow>
      ml_held_bytes s' = ml_held_bytes s \<and> ml_holders s' = ml_holders s \<and> ml_claims s' = live_claims now s \<and>
      (\<not> room_for bytes s \<or> (\<exists>c \<in> contenders now s. Some (cl_key c) \<noteq> key \<and> cl_class c \<le> cls))) \<and>
    (contenders now s \<noteq> {} \<longrightarrow> (\<exists>!c. first_in_line now s c)) \<and>
    (\<forall>c. first_in_line now s c \<and> room_for bytes s \<longrightarrow>
      (\<exists>h s'. try_hold t bytes (cl_class c) (Some (cl_key c)) now s = (Some h, s')))"
proof (intro conjI allI impI)
  have inv: "claims_inv s" using machine_reachable_claims [OF assms(1)] assms(2) by simp
  {
    fix h s' assume g: "try_hold t bytes cls key now s = (Some h, s')"
    then have room: "room_for bytes s" using try_hold_granted_iff [OF assms(4), of t cls key now s] by simp
    show "h = \<lparr>mh_target = t, mh_bytes = bytes\<rparr>" using g by (auto simp: try_hold_def Let_def split: if_splits)
    show "ml_held_bytes s' = ml_held_bytes s + bytes"
      using g room assms(4)
      by (auto simp: try_hold_def room_for_def sat_add64_def sat_u64_def Let_def split: if_splits option.splits)
    then show "ml_held_bytes s' \<le> ml_capacity_bytes s" using room by (simp add: room_for_def)
    show "ml_claims s' = filter (\<lambda>c. Some (cl_key c) \<noteq> key) (live_claims now s)" using try_hold_claims(2) [OF g] by simp
    show "\<forall>c \<in> contenders now s. Some (cl_key c) \<noteq> key \<longrightarrow> cls < cl_class c \<or>
        cls = cl_class c \<and> (\<exists>own \<in> set (live_claims now s). Some (cl_key own) = key \<and> cl_seq own < cl_seq c)"
      using granted_ranks [OF inv assms(3,4)] g by (metis fst_conv option.discI)
  next
    fix s' assume r: "try_hold t bytes cls key now s = (None, s')"
    then have s': "s' = expire now s" by (rule try_hold_None)
    show "ml_held_bytes s' = ml_held_bytes s" "ml_holders s' = ml_holders s" "ml_claims s' = live_claims now s"
      by (simp_all add: s' live_claims_def)
    show "\<not> room_for bytes s \<or> (\<exists>c \<in> contenders now s. Some (cl_key c) \<noteq> key \<and> cl_class c \<le> cls)"
      using try_hold_granted_iff [OF assms(4), of t cls key now s] r by (auto simp: claim_rank_def less_prod_def')
  next
    show "contenders now s \<noteq> {} \<Longrightarrow> \<exists>!c. first_in_line now s c" by (rule first_exists [OF inv assms(3)])
  next
    fix c assume "first_in_line now s c \<and> room_for bytes s"
    with first_granted [OF inv assms(3,4)]
    show "\<exists>h s'. try_hold t bytes (cl_class c) (Some (cl_key c)) now s = (Some h, s')"
      by (metis not_None_eq surjective_pairing)
  }
qed

text \<open>
  Waiting leaves nothing behind. Whichever way a round of waiting ends the request, with its memory
  or refused, no claim under its key remains; while it keeps waiting, its claim is live for a full lease
  and keeps its original place in line.
\<close>

theorem hold_round_claims:
  assumes "hold_round t bytes cls k spent now1 now2 s = (res, s')"
  shows "case res of
      Some _ \<Rightarrow> find_claim k s' = None
    | None \<Rightarrow> \<exists>c. find_claim k s' = Some c \<and> cl_class c = cls \<and> cl_bytes c = bytes \<and>
        cl_expires_ms c = sat_add64 now2 CLAIM_TTL_MS \<and>
        (\<forall>c0. find_claim k (expire now2 (expire now1 s)) = Some c0 \<longrightarrow> cl_seq c = cl_seq c0)"
proof -
  have gone: "find_claim k x = None" if "\<forall>c \<in> set (ml_claims x). cl_key c \<noteq> k" for x
    using that by (auto simp: find_claim_def find_None_iff)
  have renewed: "List.find (\<lambda>c. cl_key c = k) (renew_claim k cls bytes e cs) =
      map_option (\<lambda>c. c\<lparr>cl_class := cls, cl_bytes := bytes, cl_expires_ms := e\<rparr>) (List.find (\<lambda>c. cl_key c = k) cs)" for e and cs :: "claim list"
    by (induction cs) auto
  have fresh: "List.find (\<lambda>c. cl_key c = k) (cs @ [c]) = Some c"
    if "List.find (\<lambda>c. cl_key c = k) cs = None" "cl_key c = k" for cs and c :: claim
    using that by (induction cs) (auto split: if_splits)
  obtain r1 s1 where t: "try_hold t bytes cls (Some k) now1 s = (r1, s1)" by fastforce
  show ?thesis
  proof (cases r1)
    case (Some h)
    then have "\<forall>c \<in> set (ml_claims s1). cl_key c \<noteq> k"
      using t by (auto simp: try_hold_def Let_def split: if_splits)
    then have "find_claim k s1 = None" by (rule gone)
    moreover have "res = Some (Some h)" "s' = s1" using assms t Some by (auto simp: hold_round_def)
    ultimately show ?thesis by simp
  next
    case None
    then have s1: "s1 = expire now1 s" using t try_hold_None by blast
    obtain b s2 where c: "machine_claim k cls bytes now2 s1 = (b, s2)" by fastforce
    show ?thesis
    proof (cases "spent \<or> \<not> b")
      case True
      then have "\<exists>x. res = Some None \<and> s' = drop_claim k x" using assms t None c
        by (auto simp: hold_round_def split: if_splits)
      then show ?thesis using gone by (auto simp: drop_claim_def)
    next
      case False
      then have r: "res = None" "s' = s2" using assms t None c by (auto simp: hold_round_def)
      show ?thesis
      proof (cases "find_claim k (expire now2 s1)")
        case no_claim: None
        then show ?thesis using c False r s1 fresh
          by (auto simp: machine_claim_def find_claim_def Let_def split: if_splits)
      next
        case (Some c0)
        then show ?thesis using c False r s1 renewed
          by (auto simp: machine_claim_def find_claim_def Let_def split: if_splits)
      qed
    qed
  qed
qed

section \<open>A concrete machine\<close>

definition ex_machine :: machine_ledger where
  "ex_machine = snd (machine_claim ''song'' Standard 24 0 (machine_new ''spark'' 100))"

lemmas machine_eval = ex_machine_def machine_claim_def machine_new_def expire_def find_claim_def
  try_hold_def outranked_def claim_seq_def claim_rank_def add_holder_def remove_claim_def
  ml_changed_def hold_round_def drop_claim_def CLAIM_TTL_MS_def MAX_CLAIMS_def sat_add64_def sat_add32_def sat_u64_def
  int_limits btree_get_def Let_def

lemma ex_hold: "\<exists>s'. try_hold ''yue'' 24 Standard (Some ''song'') 10 ex_machine = (Some \<lparr>mh_target = ''yue'', mh_bytes = 24\<rparr>, s')"
  by (simp add: machine_eval)

theorem machine_memory_conserved_witness:
  "\<exists>s :: machine_ledger. ml_held_bytes s = 24 \<and> btree_get (ml_holders s) ''yue'' = Some (1, 24)"
proof -
  let ?s0 = "\<lparr>ms_ledger = machine_new ''spark'' 100, ms_open = {#}\<rparr>"
  obtain s' where h: "try_hold ''yue'' 24 Standard (Some ''song'') 10 ex_machine = (Some \<lparr>mh_target = ''yue'', mh_bytes = 24\<rparr>, s')"
    using ex_hold by blast
  have "machine_step ?s0 \<lparr>ms_ledger = ex_machine, ms_open = {#}\<rparr>"
    unfolding ex_machine_def by (rule mstep_claim, rule prod.collapse [symmetric])
  moreover have "machine_step \<lparr>ms_ledger = ex_machine, ms_open = {#}\<rparr>
      \<lparr>ms_ledger = s', ms_open = {#\<lparr>mh_target = ''yue'', mh_bytes = 24\<rparr>#}\<rparr>"
    by (rule mstep_hold [OF h]) (simp add: u32_max_def)
  ultimately have "machine_reachable \<lparr>ms_ledger = s', ms_open = {#\<lparr>mh_target = ''yue'', mh_bytes = 24\<rparr>#}\<rparr>"
    unfolding machine_reachable_def by (meson rtranclp.rtrancl_into_rtrancl rtranclp.rtrancl_refl)
  from machine_memory_conserved [OF this, of "''yue''"] show ?thesis by (intro exI [of _ s']) simp
qed

theorem machine_grant_order_witness:
  "\<exists>c. first_in_line 10 ex_machine c \<and> cl_key c = ''song'' \<and>
     (\<exists>h s'. try_hold ''yue'' 24 Standard (Some ''song'') 10 ex_machine = (Some h, s')) \<and>
     (\<forall>h s'. try_hold ''h3'' 24 Standard None 10 ex_machine \<noteq> (Some h, s'))"
proof -
  let ?c = "\<lparr>cl_key = ''song'', cl_class = Standard, cl_seq = 0, cl_bytes = 24, cl_since_ms = 0, cl_expires_ms = 60000\<rparr>"
  have "machine_step \<lparr>ms_ledger = machine_new ''spark'' 100, ms_open = {#}\<rparr> \<lparr>ms_ledger = ex_machine, ms_open = {#}\<rparr>"
    unfolding ex_machine_def by (rule mstep_claim, rule prod.collapse [symmetric])
  then have r: "machine_reachable \<lparr>ms_ledger = ex_machine, ms_open = {#}\<rparr>"
    unfolding machine_reachable_def by blast
  have n: "ml_next_seq ex_machine < u64_max" by (simp add: machine_eval)
  have c: "contenders 10 ex_machine = {?c}" "room_for 24 ex_machine"
    by (auto simp: machine_eval contenders_def live_claims_def room_for_def)
  have b: "0 < (24 :: nat)" "ex_machine = ms_ledger \<lparr>ms_ledger = ex_machine, ms_open = {#}\<rparr>" by simp_all
  note order = machine_grant_order [OF r b(2) n b(1), where now = 10 and key = None and cls = Standard]
  have f: "first_in_line 10 ex_machine ?c" by (simp add: first_in_line_def c)
  from order [where t = "''yue''"] have "\<forall>c. first_in_line 10 ex_machine c \<and> room_for 24 ex_machine \<longrightarrow>
      (\<exists>h s'. try_hold ''yue'' 24 (cl_class c) (Some (cl_key c)) 10 ex_machine = (Some h, s'))" by (elim conjE)
  from spec [OF this, of ?c] f c(2) have "\<exists>h s'. try_hold ''yue'' 24 Standard (Some ''song'') 10 ex_machine = (Some h, s')" by simp
  moreover have "try_hold ''h3'' 24 Standard None 10 ex_machine \<noteq> (Some h, s')" for h s'
    using conjunct1 [OF order [where t = "''h3''"]] c(1) by auto
  ultimately show ?thesis using f by (intro exI [of _ ?c]) simp
qed

theorem hold_round_claims_witness:
  "find_claim ''job'' (snd (hold_round ''h3'' 90 Batch ''job'' True 10 10 ex_machine)) = None"
proof -
  have "fst (hold_round ''h3'' 90 Batch ''job'' True 10 10 ex_machine) = Some None"
    by (simp add: machine_eval less_priority_class_def)
  then have "hold_round ''h3'' 90 Batch ''job'' True 10 10 ex_machine =
      (Some None, snd (hold_round ''h3'' 90 Batch ''job'' True 10 10 ex_machine))" by (simp add: prod_eq_iff)
  from hold_round_claims [OF this] show ?thesis by simp
qed

end
