(* ===== verification/Admission.thy ===== *)
theory Admission
  imports Scopes Machine Canonical "HOL-Library.Option_ord"
begin

text \<open>
  The admission controller (\<open>hypellm-core/src/admission.rs\<close>): the hierarchy of scopes a request passes
  through, reservations across it, and the plan a publication applies.

  Scopes and machine ledgers are shared objects (\<open>Arc\<close>): they live in two heaps of the controller and are
  named by address, so a reservation releases exactly the objects it acquired whatever happens to the maps in
  between. Every operation is one atomic step and reads the monotonic clock once, as \<open>now\<close>. A poisoned lock
  is treated like the sources treat it, by going on with its content.
\<close>

section \<open>Plans\<close>

type_synonym alias_key = "alias_id \<times> operation option"

record byte_rate_limits =
  input_per_second :: nat
  input_burst :: nat
  output_per_second :: nat
  output_burst :: nat

record target_memory =
  tm_machine :: string
  tm_bytes :: nat
  tm_class :: "priority_class option"

record admission_plan =
  pl_global :: scope_limits
  pl_byte_rates :: byte_rate_limits
  pl_tenants :: "(tenant_id, scope_limits) btree_map"
  pl_principals :: "(principal_id, scope_limits) btree_map"
  pl_aliases :: "(alias_key, scope_limits) btree_map"
  pl_targets :: "(target_id, scope_limits) btree_map"
  pl_classes :: "(string, priority_class) btree_map"
  pl_machines :: "(string, nat) btree_map"
  pl_target_memory :: "(target_id, target_memory) btree_map"

definition plan_new :: "scope_limits \<Rightarrow> admission_plan" where
  "plan_new global =
     \<lparr>pl_global = global,
      pl_byte_rates = \<lparr>input_per_second = 0, input_burst = 0, output_per_second = 0, output_burst = 0\<rparr>,
      pl_tenants = [], pl_principals = [], pl_aliases = [], pl_targets = [], pl_classes = [], pl_machines = [],
      pl_target_memory = []\<rparr>"

section \<open>Controller and reservations\<close>

record controller =
  ct_heap :: "scope list"
  ct_global :: nat
  ct_tenants :: "(tenant_id, nat) btree_map"
  ct_principals :: "(principal_id, nat) btree_map"
  ct_targets :: "(target_id, nat) btree_map"
  ct_aliases :: "(alias_key, nat) btree_map"
  ct_inbound_bytes :: "bucket option"
  ct_outbound_bytes :: "bucket option"
  ct_default_tenant_limits :: scope_limits
  ct_default_principal_limits :: scope_limits
  ct_classes :: "(string, priority_class) btree_map"
  ct_ledgers :: "machine_ledger list"
  ct_machines :: "(string, nat) btree_map"
  ct_target_memory :: "(target_id, target_memory) btree_map"
  ct_next_wait :: nat

record reservation =
  rv_scopes :: "nat list"
  rv_reserved_tokens :: nat
  rv_released :: bool
  rv_target :: target_id
  rv_machine :: "(nat \<times> machine_hold) option"

datatype memory_ask = MTake priority_class "string option" | MHeld "nat \<times> machine_hold"

definition controller_new :: "nat \<Rightarrow> scope_limits \<Rightarrow> controller" where
  "controller_new now global =
     \<lparr>ct_heap = [scope_new ''global'' global now], ct_global = 0, ct_tenants = [], ct_principals = [],
      ct_targets = [], ct_aliases = [], ct_inbound_bytes = None, ct_outbound_bytes = None,
      ct_default_tenant_limits = UNLIMITED, ct_default_principal_limits = UNLIMITED, ct_classes = [],
      ct_ledgers = [], ct_machines = [], ct_target_memory = [], ct_next_wait = 0\<rparr>"

definition tenant_name :: "tenant_id \<Rightarrow> string" where "tenant_name t = ''tenant:'' @ t"
definition principal_name :: "principal_id \<Rightarrow> string" where "principal_name p = ''principal:'' @ p"
definition target_name :: "target_id \<Rightarrow> string" where "target_name t = ''target:'' @ t"

fun alias_name :: "alias_key \<Rightarrow> string" where
  "alias_name (al, None) = ''alias:'' @ al"
| "alias_name (al, Some op) = ''alias:'' @ al @ '':'' @ operation_as_str op"

subsection \<open>Lookups\<close>

definition alias_scope :: "alias_id \<Rightarrow> operation \<Rightarrow> controller \<Rightarrow> nat option" where
  "alias_scope al op c =
     (case btree_get (ct_aliases c) (al, Some op) of Some a \<Rightarrow> Some a
      | None \<Rightarrow> btree_get (ct_aliases c) (al, None))"

definition target_scope :: "target_id \<Rightarrow> controller \<Rightarrow> nat option" where
  "target_scope t c = btree_get (ct_targets c) t"

definition target_has_capacity :: "target_id \<Rightarrow> controller \<Rightarrow> bool" where
  "target_has_capacity t c = is_none_or (\<lambda>a. scope_has_capacity (ct_heap c ! a)) (target_scope t c)"

definition configured_tenant_scope :: "tenant_id \<Rightarrow> controller \<Rightarrow> nat option" where
  "configured_tenant_scope t c = btree_get (ct_tenants c) t"

definition configured_principal_scope :: "principal_id \<Rightarrow> controller \<Rightarrow> nat option" where
  "configured_principal_scope p c = btree_get (ct_principals c) p"

definition class_for :: "tenant_id \<Rightarrow> principal_id \<Rightarrow> controller \<Rightarrow> priority_class" where
  "class_for t p c =
     (case btree_get (ct_classes c) (principal_name p) of Some cls \<Rightarrow> cls
      | None \<Rightarrow> unwrap_or Standard (btree_get (ct_classes c) (tenant_name t)))"

definition tenant_scope :: "tenant_id \<Rightarrow> nat \<Rightarrow> controller \<Rightarrow> nat \<times> controller" where
  "tenant_scope t now c =
     (case btree_get (ct_tenants c) t of Some a \<Rightarrow> (a, c)
      | None \<Rightarrow>
          let a = length (ct_heap c)
          in (a, c\<lparr>ct_heap := ct_heap c @ [scope_new (tenant_name t) (ct_default_tenant_limits c) now],
                   ct_tenants := btree_insert t a (ct_tenants c)\<rparr>))"

definition principal_scope :: "principal_id \<Rightarrow> nat \<Rightarrow> controller \<Rightarrow> nat \<times> controller" where
  "principal_scope p now c =
     (case btree_get (ct_principals c) p of Some a \<Rightarrow> (a, c)
      | None \<Rightarrow>
          let a = length (ct_heap c)
          in (a, c\<lparr>ct_heap := ct_heap c @ [scope_new (principal_name p) (ct_default_principal_limits c) now],
                   ct_principals := btree_insert p a (ct_principals c)\<rparr>))"

definition opt_list :: "'a option \<Rightarrow> 'a list" where
  "opt_list x = (case x of None \<Rightarrow> [] | Some y \<Rightarrow> [y])"

definition chain ::
  "tenant_id \<Rightarrow> principal_id \<Rightarrow> (alias_id \<times> operation) option \<Rightarrow> target_id \<Rightarrow> nat \<Rightarrow> controller \<Rightarrow> nat list \<times> controller" where
  "chain tenant prin al target now c =
     (let (ta, c1) = tenant_scope tenant now c;
          (pa, c2) = principal_scope prin now c1
      in ([ct_global c2, ta, pa] @
          opt_list (case al of None \<Rightarrow> None | Some (i, op) \<Rightarrow> alias_scope i op c2) @
          opt_list (target_scope target c2), c2))"

definition machine_for :: "target_id \<Rightarrow> priority_class \<Rightarrow> controller \<Rightarrow> (nat \<times> nat \<times> priority_class) option" where
  "machine_for t caller c =
     (case btree_get (ct_target_memory c) t of None \<Rightarrow> None
      | Some m \<Rightarrow>
          (case btree_get (ct_machines c) (tm_machine m) of None \<Rightarrow> None
           | Some a \<Rightarrow> Some (a, tm_bytes m, unwrap_or caller (tm_class m))))"

subsection \<open>Reserving and finishing\<close>

definition return_hold :: "nat \<times> machine_hold \<Rightarrow> controller \<Rightarrow> controller" where
  "return_hold h c = c\<lparr>ct_ledgers := (ct_ledgers c)[fst h := give_back (snd h) (ct_ledgers c ! fst h)]\<rparr>"

text \<open>A hold passed in with the request is dropped, and so returned, when a scope refuses.\<close>

fun drop_ask :: "memory_ask \<Rightarrow> controller \<Rightarrow> controller" where
  "drop_ask (MHeld h) c = return_hold h c"
| "drop_ask (MTake cls key) c = c"

definition acquire_chain ::
  "tenant_id \<Rightarrow> principal_id \<Rightarrow> (alias_id \<times> operation) option \<Rightarrow> target_id \<Rightarrow> nat \<Rightarrow> (string \<times> nat) option
     \<Rightarrow> memory_ask \<Rightarrow> nat \<Rightarrow> controller \<Rightarrow> (rejection \<times> string + reservation) \<times> controller" where
  "acquire_chain tenant prin al target tokens holder memory now c0 =
     (let (as, c1) = chain tenant prin al target now c0;
          (res, hp) = take_all (try_scope tokens now holder) (scope_rollback tokens) [] as (ct_heap c1);
          c = c1\<lparr>ct_heap := hp\<rparr>;
          reservation = (\<lambda>held m. \<lparr>rv_scopes = held, rv_reserved_tokens = tokens, rv_released = False,
                                  rv_target = target, rv_machine = m\<rparr>)
      in case res of
           Inl (rej, a) \<Rightarrow> (Inl (rej, sc_name (hp ! a)), drop_ask memory c)
         | Inr held \<Rightarrow>
             (case memory of
                MHeld h \<Rightarrow> (Inr (reservation held (Some h)), c)
              | MTake cls key \<Rightarrow>
                  (case machine_for target cls c of
                     None \<Rightarrow> (Inr (reservation held None), c)
                   | Some (m, bytes, cls') \<Rightarrow>
                       (case try_hold target bytes cls' key now (ct_ledgers c ! m) of
                          (Some h, ledger) \<Rightarrow>
                            (Inr (reservation held (Some (m, h))), c\<lparr>ct_ledgers := (ct_ledgers c)[m := ledger]\<rparr>)
                        | (None, ledger) \<Rightarrow>
                            (Inl (MemoryExhausted, ml_name ledger),
                             c\<lparr>ct_ledgers := (ct_ledgers c)[m := ledger],
                               ct_heap := heap_map (scope_rollback tokens) (rev held) hp\<rparr>)))))"

definition reserve_for ::
  "tenant_id \<Rightarrow> principal_id \<Rightarrow> (alias_id \<times> operation) option \<Rightarrow> target_id \<Rightarrow> nat \<Rightarrow> nat \<Rightarrow> controller
     \<Rightarrow> (rejection \<times> string + reservation) \<times> controller" where
  "reserve_for tenant prin al target tokens now c =
     acquire_chain tenant prin al target tokens None (MTake Standard None) now c"

definition reserve_scopes ::
  "tenant_id \<Rightarrow> principal_id \<Rightarrow> target_id \<Rightarrow> nat \<Rightarrow> nat \<Rightarrow> controller \<Rightarrow> (rejection \<times> string + reservation) \<times> controller" where
  "reserve_scopes tenant prin target tokens now c = reserve_for tenant prin None target tokens now c"

definition reservation_finish :: "nat \<Rightarrow> nat \<Rightarrow> reservation \<Rightarrow> controller \<Rightarrow> reservation \<times> controller" where
  "reservation_finish actual now r c =
     (if rv_released r then (r, c)
      else
        let c1 = (case rv_machine r of None \<Rightarrow> c | Some h \<Rightarrow> return_hold h c)
        in (r\<lparr>rv_released := True\<rparr>,
            c1\<lparr>ct_heap := heap_map (scope_release (rv_reserved_tokens r) actual now) (rev (rv_scopes r)) (ct_heap c1)\<rparr>))"

definition reservation_drop :: "nat \<Rightarrow> reservation \<Rightarrow> controller \<Rightarrow> reservation \<times> controller" where
  "reservation_drop now r c = reservation_finish (rv_reserved_tokens r) now r c"

definition reservation_commit :: "nat \<Rightarrow> nat \<Rightarrow> reservation \<Rightarrow> controller \<Rightarrow> reservation \<times> controller" where
  "reservation_commit actual now r c =
     (let (r1, c1) = reservation_finish actual now r c in reservation_drop now r1 c1)"

definition release_unused :: "nat \<Rightarrow> reservation \<Rightarrow> controller \<Rightarrow> reservation \<times> controller" where
  "release_unused now r c = (let (r1, c1) = reservation_finish 0 now r c in reservation_drop now r1 c1)"

subsection \<open>Waiting\<close>

definition scope_named ::
  "string \<Rightarrow> tenant_id \<Rightarrow> principal_id \<Rightarrow> (alias_id \<times> operation) option \<Rightarrow> target_id \<Rightarrow> nat \<Rightarrow> controller
     \<Rightarrow> nat option \<times> controller" where
  "scope_named name tenant prin al target now c =
     (let (as, c1) = chain tenant prin al target now c
      in (List.find (\<lambda>a. sc_name (ct_heap c1 ! a) = name) as, c1))"

text \<open>
  \<open>reserve_queued_as\<close> blocks; between its blocking points it is these steps. A request is done, waits in the
  line of a scope, or waits for a machine's memory.
\<close>

datatype waiting =
    WDone "rejection \<times> string + reservation"
  | WLine nat nat string
  | WMemory nat nat priority_class string string

definition reserve_queued_begin ::
  "tenant_id \<Rightarrow> principal_id \<Rightarrow> (alias_id \<times> operation) option \<Rightarrow> target_id \<Rightarrow> nat \<Rightarrow> priority_class \<Rightarrow> bool
     \<Rightarrow> string option \<Rightarrow> nat \<Rightarrow> controller \<Rightarrow> waiting \<times> controller" where
  "reserve_queued_begin tenant prin al target tokens cls budget_zero key now c0 =
     (case acquire_chain tenant prin al target tokens None (MTake cls key) now c0 of
        (Inr r, c) \<Rightarrow> (WDone (Inr r), c)
      | (Inl (rej, name), c) \<Rightarrow>
          if rej = MemoryExhausted then
            (case machine_for target cls c of
               None \<Rightarrow> (WDone (Inl (MemoryExhausted, name)), c)
             | Some (m, bytes, mcls) \<Rightarrow>
                 if budget_zero then
                   (WDone (Inl (MemoryExhausted, name)),
                    (case key of None \<Rightarrow> c
                     | Some k \<Rightarrow> c\<lparr>ct_ledgers := (ct_ledgers c)[m := snd (machine_claim k mcls bytes now (ct_ledgers c ! m))]\<rparr>))
                 else
                   (case key of
                      Some k \<Rightarrow> (WMemory m bytes mcls k name, c)
                    | None \<Rightarrow> (WMemory m bytes mcls (''wait-'' @ show_nat (ct_next_wait c)) name,
                               c\<lparr>ct_next_wait := wrap_inc64 (ct_next_wait c)\<rparr>)))
          else if rej = ConcurrencyExhausted then
            (case scope_named name tenant prin al target now c of
               (None, c1) \<Rightarrow> (WDone (Inl (ConcurrencyExhausted, name)), c1)
             | (Some a, c1) \<Rightarrow>
                 if max_queued (sc_limits (ct_heap c1 ! a)) = 0 \<or> budget_zero
                 then (WDone (Inl (ConcurrencyExhausted, name)), c1)
                 else
                   (case join_queue cls tenant (ct_heap c1 ! a) of
                      (Inl r, s) \<Rightarrow> (WDone (Inl (r, name)), c1\<lparr>ct_heap := (ct_heap c1)[a := s]\<rparr>)
                    | (Inr ticket, s) \<Rightarrow> (WLine a ticket name, c1\<lparr>ct_heap := (ct_heap c1)[a := s]\<rparr>)))
          else (WDone (Inl (rej, name)), c))"

definition leave_line :: "nat \<Rightarrow> nat \<Rightarrow> controller \<Rightarrow> controller" where
  "leave_line a ticket c = c\<lparr>ct_heap := (ct_heap c)[a := leave_queue ticket (ct_heap c ! a)]\<rparr>"

text \<open>
  A round in the line, when \<open>wait_for_turn\<close> has returned: \<open>turn\<close> is its answer, \<open>spent\<close> says that the budget has
  run out after a lost race. Every result but another wait leaves the line, as the ticket's destructor does.
\<close>

definition line_round ::
  "tenant_id \<Rightarrow> principal_id \<Rightarrow> (alias_id \<times> operation) option \<Rightarrow> target_id \<Rightarrow> nat \<Rightarrow> priority_class \<Rightarrow> string option
     \<Rightarrow> nat \<Rightarrow> nat \<Rightarrow> string \<Rightarrow> bool \<Rightarrow> bool \<Rightarrow> nat \<Rightarrow> controller \<Rightarrow> waiting \<times> controller" where
  "line_round tenant prin al target tokens cls key a ticket name turn spent now c0 =
     (if \<not> turn then (WDone (Inl (QueueTimeout, name)), leave_line a ticket c0)
      else
        case acquire_chain tenant prin al target tokens (Some (sc_name (ct_heap c0 ! a), ticket)) (MTake cls key) now c0 of
          (Inr r, c) \<Rightarrow> (WDone (Inr r), leave_line a ticket c)
        | (Inl (rej, again), c) \<Rightarrow>
            if rej = ConcurrencyExhausted \<and> again = name then
              (if spent then (WDone (Inl (QueueTimeout, name)), leave_line a ticket c) else (WLine a ticket name, c))
            else (WDone (Inl (rej, again)), leave_line a ticket c))"

definition memory_round ::
  "tenant_id \<Rightarrow> principal_id \<Rightarrow> (alias_id \<times> operation) option \<Rightarrow> target_id \<Rightarrow> nat
     \<Rightarrow> nat \<Rightarrow> nat \<Rightarrow> priority_class \<Rightarrow> string \<Rightarrow> string \<Rightarrow> bool \<Rightarrow> nat \<Rightarrow> controller \<Rightarrow> waiting \<times> controller" where
  "memory_round tenant prin al target tokens m bytes mcls key name spent now c0 =
     (case hold_round target bytes mcls key spent now now (ct_ledgers c0 ! m) of
        (outcome, ledger) \<Rightarrow>
          let c = c0\<lparr>ct_ledgers := (ct_ledgers c0)[m := ledger]\<rparr>
          in (case outcome of
                None \<Rightarrow> (WMemory m bytes mcls key name, c)
              | Some None \<Rightarrow> (WDone (Inl (QueueTimeout, name)), c)
              | Some (Some h) \<Rightarrow>
                  (case acquire_chain tenant prin al target tokens None (MHeld (m, h)) now c of
                     (res, c1) \<Rightarrow> (WDone res, c1))))"

subsection \<open>Bytes and spend\<close>

definition try_admit_bytes :: "nat \<Rightarrow> nat \<Rightarrow> controller \<Rightarrow> rejection option \<times> controller" where
  "try_admit_bytes inbound now c =
     (case ct_inbound_bytes c of None \<Rightarrow> (None, c)
      | Some b \<Rightarrow>
          let (granted, b') = try_take inbound now b
          in (if granted then None else Some ByteRateExceeded, c\<lparr>ct_inbound_bytes := Some b'\<rparr>))"

definition record_output_bytes :: "nat \<Rightarrow> nat \<Rightarrow> controller \<Rightarrow> controller" where
  "record_output_bytes outbound now c =
     (case ct_outbound_bytes c of None \<Rightarrow> c
      | Some b \<Rightarrow> c\<lparr>ct_outbound_bytes := Some (snd (try_take outbound now b))\<rparr>)"

definition at_scope :: "nat \<Rightarrow> (scope \<Rightarrow> scope) \<Rightarrow> controller \<Rightarrow> controller" where
  "at_scope a f c = c\<lparr>ct_heap := (ct_heap c)[a := f (ct_heap c ! a)]\<rparr>"

definition at_opt :: "nat option \<Rightarrow> (scope \<Rightarrow> scope) \<Rightarrow> controller \<Rightarrow> controller" where
  "at_opt a f c = (case a of None \<Rightarrow> c | Some a' \<Rightarrow> at_scope a' f c)"

definition record_spend ::
  "tenant_id \<Rightarrow> principal_id \<Rightarrow> (alias_id \<times> operation) option \<Rightarrow> target_id option \<Rightarrow> nat \<Rightarrow> nat \<Rightarrow> controller \<Rightarrow> controller" where
  "record_spend tenant prin al target units now c =
     (if units = 0 then c
      else
        let spend = scope_record_spend units now;
            c1 = at_scope (ct_global c) spend c;
            (ta, c2) = tenant_scope tenant now c1;
            c3 = at_scope ta spend c2;
            (pa, c4) = principal_scope prin now c3;
            c5 = at_scope pa spend c4;
            c6 = at_opt (case al of None \<Rightarrow> None | Some (i, op) \<Rightarrow> alias_scope i op c5) spend c5
        in at_opt (case target of None \<Rightarrow> None | Some t \<Rightarrow> target_scope t c6) spend c6)"

subsection \<open>Configuration\<close>

definition set_class :: "string \<Rightarrow> priority_class \<Rightarrow> controller \<Rightarrow> controller" where
  "set_class name cls c = c\<lparr>ct_classes := btree_insert name cls (ct_classes c)\<rparr>"

definition replace_classes :: "(string, priority_class) btree_map \<Rightarrow> controller \<Rightarrow> controller" where
  "replace_classes classes c = c\<lparr>ct_classes := classes\<rparr>"

definition set_default_tenant_limits :: "scope_limits \<Rightarrow> controller \<Rightarrow> controller" where
  "set_default_tenant_limits l c = c\<lparr>ct_default_tenant_limits := l\<rparr>"

definition set_default_principal_limits :: "scope_limits \<Rightarrow> controller \<Rightarrow> controller" where
  "set_default_principal_limits l c = c\<lparr>ct_default_principal_limits := l\<rparr>"

definition alloc :: "scope \<Rightarrow> controller \<Rightarrow> controller" where
  "alloc s c = c\<lparr>ct_heap := ct_heap c @ [s]\<rparr>"

definition configure_tenant :: "tenant_id \<Rightarrow> scope_limits \<Rightarrow> nat \<Rightarrow> controller \<Rightarrow> controller" where
  "configure_tenant t l now c =
     (alloc (scope_new (tenant_name t) l now) c)\<lparr>ct_tenants := btree_insert t (length (ct_heap c)) (ct_tenants c)\<rparr>"

definition configure_principal :: "principal_id \<Rightarrow> scope_limits \<Rightarrow> nat \<Rightarrow> controller \<Rightarrow> controller" where
  "configure_principal p l now c =
     (alloc (scope_new (principal_name p) l now) c)\<lparr>ct_principals := btree_insert p (length (ct_heap c)) (ct_principals c)\<rparr>"

definition configure_alias :: "alias_id \<Rightarrow> operation option \<Rightarrow> scope_limits \<Rightarrow> nat \<Rightarrow> controller \<Rightarrow> controller" where
  "configure_alias al op l now c =
     (alloc (scope_new (alias_name (al, op)) l now) c)\<lparr>ct_aliases := btree_insert (al, op) (length (ct_heap c)) (ct_aliases c)\<rparr>"

definition configure_target :: "target_id \<Rightarrow> scope_limits \<Rightarrow> nat \<Rightarrow> controller \<Rightarrow> controller" where
  "configure_target t l now c =
     (alloc (scope_new (target_name t) l now) c)\<lparr>ct_targets := btree_insert t (length (ct_heap c)) (ct_targets c)\<rparr>"

definition rate_shape :: "nat \<Rightarrow> nat \<Rightarrow> bucket_shape option" where
  "rate_shape rate burst = (if rate > 0 then Some (shape_per_second rate burst) else None)"

definition configure_byte_rates :: "nat \<Rightarrow> nat \<Rightarrow> nat \<Rightarrow> nat \<Rightarrow> nat \<Rightarrow> controller \<Rightarrow> controller" where
  "configure_byte_rates ips ib ops ob now c =
     c\<lparr>ct_inbound_bytes := map_option (\<lambda>sh. bucket_full sh now) (rate_shape ips ib),
       ct_outbound_bytes := map_option (\<lambda>sh. bucket_full sh now) (rate_shape ops ob)\<rparr>"

text \<open>
  One layer of \<open>apply\<close>: what the plan no longer names falls back or is dropped from the lookup, then every
  planned key is reconfigured in place or created.
\<close>

definition apply_key :: "('k::linorder \<Rightarrow> string) \<Rightarrow> nat \<Rightarrow> 'k \<times> scope_limits \<Rightarrow> ('k, nat) btree_map \<times> scope list
    \<Rightarrow> ('k, nat) btree_map \<times> scope list" where
  "apply_key name now kl mh =
     (case btree_get (fst mh) (fst kl) of
        Some a \<Rightarrow> (fst mh, (snd mh)[a := scope_reconfigure (snd kl) now (snd mh ! a)])
      | None \<Rightarrow> (btree_insert (fst kl) (length (snd mh)) (fst mh), snd mh @ [scope_new (name (fst kl)) (snd kl) now]))"

definition apply_layer ::
  "('k::linorder, scope_limits) btree_map \<Rightarrow> scope_limits option \<Rightarrow> ('k \<Rightarrow> string) \<Rightarrow> nat
     \<Rightarrow> ('k, nat) btree_map \<times> scope list \<Rightarrow> ('k, nat) btree_map \<times> scope list" where
  "apply_layer planned fallback name now mh =
     (let unplanned = (\<lambda>(k, a). btree_get planned k = None);
          mh1 = (case fallback of
                   Some l \<Rightarrow> (fst mh, heap_map (scope_reconfigure l now) (map snd (filter unplanned (fst mh))) (snd mh))
                 | None \<Rightarrow> (filter (\<lambda>ka. \<not> unplanned ka) (fst mh), snd mh))
      in fold (apply_key name now) planned mh1)"

definition machine_key :: "string \<times> nat \<Rightarrow> (string, nat) btree_map \<times> machine_ledger list
    \<Rightarrow> (string, nat) btree_map \<times> machine_ledger list" where
  "machine_key kc ml =
     (case btree_get (fst ml) (fst kc) of
        Some a \<Rightarrow> (fst ml, (snd ml)[a := machine_reconfigure (snd kc) (snd ml ! a)])
      | None \<Rightarrow> (btree_insert (fst kc) (length (snd ml)) (fst ml), snd ml @ [machine_new (fst kc) (snd kc)]))"

definition configure_machines :: "admission_plan \<Rightarrow> controller \<Rightarrow> controller" where
  "configure_machines plan c =
     (let kept = filter (\<lambda>(k, a). btree_get (pl_machines plan) k \<noteq> None) (ct_machines c);
          (machines, ledgers) = fold machine_key (pl_machines plan) (kept, ct_ledgers c)
      in c\<lparr>ct_machines := machines, ct_ledgers := ledgers, ct_target_memory := pl_target_memory plan\<rparr>)"

definition apply_plan :: "admission_plan \<Rightarrow> nat \<Rightarrow> controller \<Rightarrow> controller" where
  "apply_plan plan now c =
     (let c1 = at_scope (ct_global c) (scope_reconfigure (pl_global plan) now) c;
          rates = pl_byte_rates plan;
          inbound = reshape (rate_shape (input_per_second rates) (input_burst rates)) now (ct_inbound_bytes c);
          outbound = reshape (rate_shape (output_per_second rates) (output_burst rates)) now (ct_outbound_bytes c);
          (tenants, hp1) = apply_layer (pl_tenants plan) (Some (ct_default_tenant_limits c)) tenant_name now (ct_tenants c, ct_heap c1);
          (prins, hp2) = apply_layer (pl_principals plan) (Some (ct_default_principal_limits c)) principal_name now (ct_principals c, hp1);
          (targets, hp3) = apply_layer (pl_targets plan) None target_name now (ct_targets c, hp2);
          (aliases, hp4) = apply_layer (pl_aliases plan) None alias_name now (ct_aliases c, hp3);
          c2 = c1\<lparr>ct_heap := hp4, ct_tenants := tenants, ct_principals := prins, ct_targets := targets,
                  ct_aliases := aliases, ct_inbound_bytes := inbound, ct_outbound_bytes := outbound\<rparr>
      in configure_machines plan (replace_classes (pl_classes plan) c2))"

definition from_plan :: "nat \<Rightarrow> admission_plan \<Rightarrow> controller" where
  "from_plan now plan = apply_plan plan now (controller_new now (pl_global plan))"

definition drop_machine_claims :: "string \<Rightarrow> controller \<Rightarrow> controller" where
  "drop_machine_claims key c = c\<lparr>ct_ledgers := heap_map (drop_claim key) (btree_values (ct_machines c)) (ct_ledgers c)\<rparr>"

definition machine_views :: "nat \<Rightarrow> controller \<Rightarrow> (string \<times> machine_view) list \<times> controller" where
  "machine_views now c =
     (map (\<lambda>(k, a). (k, fst (machine_view_of now (ct_ledgers c ! a)))) (ct_machines c),
      c\<lparr>ct_ledgers := heap_map (\<lambda>l. snd (machine_view_of now l)) (btree_values (ct_machines c)) (ct_ledgers c)\<rparr>)"

end
