(* ===== verification/Admission_System.thy ===== *)
theory Admission_System
  imports Admission
begin

text \<open>
  Correctness of the admission controller: addresses of one chain never coincide, a refused reservation leaves
  every scope as it was, capacity is conserved under every interleaving of scope operations, and a publication
  keeps what the scopes have counted.
\<close>

section \<open>Well-formed controllers\<close>

definition addrs :: "controller \<Rightarrow> nat list" where
  "addrs c = ct_global c # map snd (ct_tenants c) @ map snd (ct_principals c) @ map snd (ct_targets c) @ map snd (ct_aliases c)"

definition heap_ok :: "scope list \<Rightarrow> bool" where
  "heap_ok hp \<longleftrightarrow> (\<forall>a<length hp. scope_ok (hp ! a))"

definition ctrl_wf :: "controller \<Rightarrow> bool" where
  "ctrl_wf c \<longleftrightarrow> distinct (addrs c) \<and> (\<forall>a\<in>set (addrs c). a < length (ct_heap c)) \<and> heap_ok (ct_heap c)"

lemma distinct_submset:
  assumes "mset xs \<subseteq># mset ys" "distinct ys"
  shows "distinct xs"
proof -
  obtain zs where "mset ys = mset (xs @ zs)"
    using assms(1) by (metis ex_mset mset_append subset_mset.le_iff_add)
  then have "distinct (xs @ zs)" using assms(2) mset_eq_imp_distinct_iff by blast
  then show ?thesis by simp
qed

lemma btree_insert_values: "mset (map snd (btree_insert k v m)) \<subseteq># add_mset v (mset (map snd m))"
  by (induction k v m rule: btree_insert.induct) (auto intro: subset_mset.order_trans)

lemma btree_get_value: "btree_get m k = Some a \<Longrightarrow> a \<in> set (map snd m)"
  by (metis btree_get_values btree_values_def)

lemma heap_ok_append: "heap_ok hp \<Longrightarrow> scope_ok s \<Longrightarrow> heap_ok (hp @ [s])"
  by (auto simp: heap_ok_def nth_append less_Suc_eq)

lemma heap_ok_update: "heap_ok hp \<Longrightarrow> (a < length hp \<Longrightarrow> scope_ok s) \<Longrightarrow> heap_ok (hp[a := s])"
  by (cases "a < length hp") (auto simp: heap_ok_def nth_list_update)

lemma scope_new_ok: "scope_ok (scope_new name l now)"
  by (auto simp: scope_ok_def scope_new_def slot_ok_def request_shape_def token_shape_def full_ok shape_capacity)

lemma wf_grow:
  assumes "ctrl_wf c" "mset (addrs c') \<subseteq># add_mset (length (ct_heap c)) (mset (addrs c))"
    and "ct_heap c' = ct_heap c @ [s]" "scope_ok s"
  shows "ctrl_wf c'"
proof -
  have d: "distinct (length (ct_heap c) # addrs c)" using assms(1) by (auto simp: ctrl_wf_def)
  then have "distinct (addrs c')" using distinct_submset [of "addrs c'" "length (ct_heap c) # addrs c"] assms(2) by simp
  moreover have "a < length (ct_heap c')" if "a \<in> set (addrs c')" for a
  proof -
    have "a \<in># add_mset (length (ct_heap c)) (mset (addrs c))" using that assms(2) by (meson in_multiset_in_set mset_subset_eqD)
    then show ?thesis using assms(1,3) by (auto simp: ctrl_wf_def)
  qed
  ultimately show ?thesis using assms by (auto simp: ctrl_wf_def heap_ok_append)
qed

lemma wf_heap:
  "ctrl_wf c \<Longrightarrow> addrs c' = addrs c \<Longrightarrow> length (ct_heap c') = length (ct_heap c) \<Longrightarrow> heap_ok (ct_heap c') \<Longrightarrow> ctrl_wf c'"
  by (simp add: ctrl_wf_def)

text \<open>Scopes are only ever added to the heap, freshly created.\<close>

definition fresh :: "scope \<Rightarrow> bool" where
  "fresh s \<longleftrightarrow> (\<exists>name l now. s = scope_new name l now)"

definition grown :: "scope list \<Rightarrow> scope list \<Rightarrow> bool" where
  "grown hp hp' \<longleftrightarrow> (\<exists>new. hp' = hp @ new \<and> (\<forall>s\<in>set new. fresh s))"

lemma fresh_ok: "fresh s \<Longrightarrow> scope_ok s"
  by (auto simp: fresh_def scope_new_ok)

lemma grown_refl [simp]: "grown hp hp"
  by (simp add: grown_def)

lemma grown_trans: "grown hp hp1 \<Longrightarrow> grown hp1 hp2 \<Longrightarrow> grown hp hp2"
  by (force simp: grown_def)

lemma grown_new [simp]: "grown hp (hp @ [scope_new name l now])"
  by (auto simp: grown_def fresh_def)

lemma grown_nth: "grown hp hp' \<Longrightarrow> a < length hp \<Longrightarrow> hp' ! a = hp ! a"
  by (auto simp: grown_def nth_append)

lemma grown_length: "grown hp hp' \<Longrightarrow> length hp \<le> length hp'"
  by (auto simp: grown_def)

lemma tenant_scope_wf:
  assumes "ctrl_wf c" "tenant_scope t now c = (a, c')"
  shows "ctrl_wf c'" "grown (ct_heap c) (ct_heap c')" "a \<in> set (map snd (ct_tenants c'))"
    "ct_global c' = ct_global c" "ct_principals c' = ct_principals c" "ct_targets c' = ct_targets c"
    "ct_aliases c' = ct_aliases c" "ct_ledgers c' = ct_ledgers c"
proof -
  have c': "c' = (if btree_get (ct_tenants c) t = None
      then c\<lparr>ct_heap := ct_heap c @ [scope_new (tenant_name t) (ct_default_tenant_limits c) now],
             ct_tenants := btree_insert t (length (ct_heap c)) (ct_tenants c)\<rparr> else c)"
    and a: "btree_get (ct_tenants c') t = Some a"
    using assms(2) by (auto simp: tenant_scope_def Let_def btree_get_insert split: option.splits)
  show "ctrl_wf c'"
    unfolding c' using assms(1) btree_insert_values [of t "length (ct_heap c)" "ct_tenants c"]
    by (auto intro!: wf_grow [OF assms(1)] simp: addrs_def scope_new_ok)
  show "a \<in> set (map snd (ct_tenants c'))" using a by (rule btree_get_value)
qed (use assms(2) in \<open>auto simp: tenant_scope_def Let_def split: option.splits\<close>)

lemma principal_scope_wf:
  assumes "ctrl_wf c" "principal_scope p now c = (a, c')"
  shows "ctrl_wf c'" "grown (ct_heap c) (ct_heap c')" "a \<in> set (map snd (ct_principals c'))"
    "ct_global c' = ct_global c" "ct_tenants c' = ct_tenants c" "ct_targets c' = ct_targets c"
    "ct_aliases c' = ct_aliases c" "ct_ledgers c' = ct_ledgers c"
proof -
  have c': "c' = (if btree_get (ct_principals c) p = None
      then c\<lparr>ct_heap := ct_heap c @ [scope_new (principal_name p) (ct_default_principal_limits c) now],
             ct_principals := btree_insert p (length (ct_heap c)) (ct_principals c)\<rparr> else c)"
    and a: "btree_get (ct_principals c') p = Some a"
    using assms(2) by (auto simp: principal_scope_def Let_def btree_get_insert split: option.splits)
  show "ctrl_wf c'"
    unfolding c' using assms(1) btree_insert_values [of p "length (ct_heap c)" "ct_principals c"]
    by (auto intro!: wf_grow [OF assms(1)] simp: addrs_def scope_new_ok)
  show "a \<in> set (map snd (ct_principals c'))" using a by (rule btree_get_value)
qed (use assms(2) in \<open>auto simp: principal_scope_def Let_def split: option.splits\<close>)

lemma opt_list_Some [simp]: "x \<in> set (opt_list o1) \<longleftrightarrow> o1 = Some x"
  by (auto simp: opt_list_def split: option.splits)

lemma opt_list_distinct [simp]: "distinct (opt_list x)"
  by (simp add: opt_list_def split: option.splits)

lemma alias_scope_value: "alias_scope i op c = Some a \<Longrightarrow> a \<in> set (map snd (ct_aliases c))"
  by (auto simp: alias_scope_def split: option.splits dest: btree_get_value)

lemma chain_wf:
  assumes "ctrl_wf c" "chain tenant prin al target now c = (as, c')"
  shows "ctrl_wf c'" "grown (ct_heap c) (ct_heap c')" "distinct as" "\<forall>a\<in>set as. a < length (ct_heap c')"
    "ct_ledgers c' = ct_ledgers c" "ct_global c \<in> set as"
proof -
  obtain ta c1 where t: "tenant_scope tenant now c = (ta, c1)" by fastforce
  obtain pa c2 where p: "principal_scope prin now c1 = (pa, c2)" by fastforce
  note tw = tenant_scope_wf [OF assms(1) t] and pw = principal_scope_wf [OF tenant_scope_wf(1) [OF assms(1) t] p]
  define aa where "aa = (case al of None \<Rightarrow> None | Some (i, op) \<Rightarrow> alias_scope i op c2)"
  have c2: "c' = c2" and as: "as = [ct_global c2, ta, pa] @ opt_list aa @ opt_list (target_scope target c2)"
    using assms(2) t p by (auto simp: chain_def aa_def)
  have al: "set (opt_list aa) \<subseteq> set (map snd (ct_aliases c2))"
    by (auto simp: aa_def simp del: set_map split: option.splits dest: alias_scope_value)
  have tg: "set (opt_list (target_scope target c2)) \<subseteq> set (map snd (ct_targets c2))"
    by (auto simp: target_scope_def simp del: set_map dest: btree_get_value)
  have ta: "ta \<in> set (map snd (ct_tenants c2))" using tw(3) pw(5) by simp
  have d: "distinct (addrs c2)" "\<forall>a\<in>set (addrs c2). a < length (ct_heap c2)" using pw(1) by (simp_all add: ctrl_wf_def)
  show "distinct as" unfolding as using d(1) al tg ta pw(3) by (auto simp: addrs_def simp del: set_map)
  show "\<forall>a\<in>set as. a < length (ct_heap c')"
    unfolding as c2 using d(2) al tg ta pw(3) by (auto simp: addrs_def simp del: set_map)
  show "ctrl_wf c'" "ct_ledgers c' = ct_ledgers c" using tw pw c2 by simp_all
  show "grown (ct_heap c) (ct_heap c')" using tw(2) pw(2) c2 by (blast intro: grown_trans)
  show "ct_global c \<in> set as" using tw pw as by simp
qed

section \<open>A refused reservation leaves nothing behind\<close>

lemma heap_okD: "heap_ok hp \<Longrightarrow> \<forall>a<length hp. scope_ok (hp ! a)"
  by (simp add: heap_ok_def)

lemma try_hold_refused:
  "try_hold t bytes cls key now l = (None, l') \<Longrightarrow> ml_held_bytes l' = ml_held_bytes l \<and> ml_holders l' = ml_holders l"
  by (auto simp: try_hold_def Let_def split: if_splits)

lemma settled_again:
  assumes "grown hp hp1" "map (settled now) hp' = map (settled now) hp1"
  shows "\<exists>new. map (settled now) hp' = map (settled now) (hp @ new) \<and> (\<forall>s\<in>set new. fresh s)"
  using assms by (auto simp: grown_def)

lemma drop_ask_heap [simp]: "ct_heap (drop_ask memory c) = ct_heap c"
  by (cases memory) (simp_all add: return_hold_def)

lemma drop_ask_ledgers: "ct_ledgers c = ct_ledgers c' \<Longrightarrow> ct_ledgers (drop_ask memory c) = ct_ledgers (drop_ask memory c')"
  by (cases memory) (simp_all add: return_hold_def)

lemma acquire_chain_all_or_nothing_parts:
  assumes "ctrl_wf c" "acquire_chain tenant prin al target tokens holder memory now c = (Inl refusal, c')"
  shows "\<exists>new. map (settled now) (ct_heap c') = map (settled now) (ct_heap c @ new) \<and> (\<forall>s\<in>set new. fresh s)"
    "ml_held_bytes (ct_ledgers c' ! m) = ml_held_bytes (ct_ledgers (drop_ask memory c) ! m)"
proof -
  obtain as c1 where ch: "chain tenant prin al target now c = (as, c1)" by fastforce
  note w = chain_wf [OF assms(1) ch]
  obtain res hp where ta: "take_all (try_scope tokens now holder) (scope_rollback tokens) [] as (ct_heap c1) = (res, hp)" by fastforce
  have ok: "\<forall>a<length (ct_heap c1). scope_ok (ct_heap c1 ! a)" using w(1) by (simp add: ctrl_wf_def heap_ok_def)
  have "map (settled now) (ct_heap c') = map (settled now) (ct_heap c1) \<and>
      ml_held_bytes (ct_ledgers c' ! m) = ml_held_bytes (ct_ledgers (drop_ask memory c) ! m)"
  proof (cases res)
    case (Inl ra)
    with assms(2) ch ta have c': "c' = drop_ask memory (c1\<lparr>ct_heap := hp\<rparr>)"
      by (auto simp: acquire_chain_def Let_def split: prod.splits)
    have "ct_ledgers c' = ct_ledgers (drop_ask memory c)"
      unfolding c' by (rule drop_ask_ledgers) (simp add: w(5))
    with c' scope.take_all_none_left [OF ta [unfolded Inl] w(3,4) ok] show ?thesis by simp
  next
    case (Inr held)
    from assms(2) ch ta Inr obtain cls key k bytes cls' l' where
      memory: "memory = MTake cls key" and hold: "try_hold target bytes cls' key now (ct_ledgers c1 ! k) = (None, l')"
      and c': "c' = c1\<lparr>ct_heap := heap_map (scope_rollback tokens) (rev held) hp, ct_ledgers := (ct_ledgers c1)[k := l']\<rparr>"
      by (auto simp: acquire_chain_def Let_def split: memory_ask.splits option.splits prod.splits)
    have "ml_held_bytes ((ct_ledgers c1)[k := l'] ! m) = ml_held_bytes (ct_ledgers c1 ! m)"
      using try_hold_refused [OF hold] by (cases "m = k"; cases "k < length (ct_ledgers c1)") (simp_all add: list_update_beyond)
    with c' memory w(5) scope.take_all_given_back [OF ta [unfolded Inr] w(3,4) ok] show ?thesis by simp
  qed
  then show "\<exists>new. map (settled now) (ct_heap c') = map (settled now) (ct_heap c @ new) \<and> (\<forall>s\<in>set new. fresh s)"
    "ml_held_bytes (ct_ledgers c' ! m) = ml_held_bytes (ct_ledgers (drop_ask memory c) ! m)"
    using settled_again [OF w(2)] by blast+
qed

text \<open>
  C6: a reservation is all or nothing. When any scope of the chain or the machine refuses, every scope reads,
  at that instant, exactly as before: the same slots, waiting line, buckets, spend and outstanding count; the
  only difference are default scopes created for a tenant or principal seen for the first time. Every machine
  holds what it held, less a hold the request brought with it, which is returned.
\<close>

theorem acquire_chain_all_or_nothing:
  assumes "ctrl_wf c" "acquire_chain tenant prin al target tokens holder memory now c = (Inl refusal, c')"
  shows "(\<exists>new. map (settled now) (ct_heap c') = map (settled now) (ct_heap c @ new) \<and> (\<forall>s\<in>set new. fresh s)) \<and>
    (\<forall>m. ml_held_bytes (ct_ledgers c' ! m) = ml_held_bytes (ct_ledgers (drop_ask memory c) ! m))"
  using acquire_chain_all_or_nothing_parts [OF assms] by blast

section \<open>Capacity is conserved under every interleaving\<close>

text \<open>
  What runs concurrently: each element of the multiset is the list of scope addresses one request holds, from
  the first scope its attempt acquired to the last its reservation gives back. A step is one operation on one
  scope, so requests interleave inside their chains; ledgers, rates and classes change freely.
\<close>

type_synonym holders = "nat list multiset"

inductive adm_step :: "controller \<times> holders \<Rightarrow> controller \<times> holders \<Rightarrow> bool" where
  adm_chain: "chain tenant prin al target now c = (as, c') \<Longrightarrow> adm_step (c, M) (c', M)"
| adm_begin: "adm_step (c, M) (c, add_mset [] M)"
| adm_take: "a < length (ct_heap c) \<Longrightarrow> try_scope tokens now holder (ct_heap c ! a) = (None, s) \<Longrightarrow>
    adm_step (c, add_mset as M) (c\<lparr>ct_heap := (ct_heap c)[a := s]\<rparr>, add_mset (as @ [a]) M)"
| adm_refused: "try_scope tokens now holder (ct_heap c ! a) = (Some rej, s) \<Longrightarrow>
    adm_step (c, M) (c\<lparr>ct_heap := (ct_heap c)[a := s]\<rparr>, M)"
| adm_rollback: "adm_step (c, add_mset (as @ [a]) M) (at_scope a (scope_rollback tokens) c, add_mset as M)"
| adm_release: "adm_step (c, add_mset (as @ [a]) M) (at_scope a (scope_release reserved actual now) c, add_mset as M)"
| adm_end: "adm_step (c, add_mset [] M) (c, M)"
| adm_join: "join_queue cls tenant (ct_heap c ! a) = (r, s) \<Longrightarrow> adm_step (c, M) (c\<lparr>ct_heap := (ct_heap c)[a := s]\<rparr>, M)"
| adm_leave: "adm_step (c, M) (leave_line a ticket c, M)"
| adm_spend: "adm_step (c, M) (record_spend tenant prin al tgt units now c, M)"
| adm_apply: "adm_step (c, M) (apply_plan plan now c, M)"
| adm_ledgers: "adm_step (c, M) (c\<lparr>ct_ledgers := ls\<rparr>, M)"
| adm_bytes_in: "try_admit_bytes n now c = (r, c') \<Longrightarrow> adm_step (c, M) (c', M)"
| adm_bytes_out: "adm_step (c, M) (record_output_bytes n now c, M)"
| adm_tenant: "adm_step (c, M) (configure_tenant t l now c, M)"
| adm_principal: "adm_step (c, M) (configure_principal p l now c, M)"
| adm_alias: "adm_step (c, M) (configure_alias al' op l now c, M)"
| adm_target: "adm_step (c, M) (configure_target t l now c, M)"
| adm_byte_rates: "adm_step (c, M) (configure_byte_rates ips ib ops ob now c, M)"
| adm_default_tenant: "adm_step (c, M) (set_default_tenant_limits l c, M)"
| adm_default_principal: "adm_step (c, M) (set_default_principal_limits l c, M)"
| adm_class: "adm_step (c, M) (set_class name cls c, M)"

definition adm_reachable :: "controller \<times> holders \<Rightarrow> bool" where
  "adm_reachable s \<longleftrightarrow> (\<exists>now l. adm_step\<^sup>*\<^sup>* (controller_new now l, {#}) s)"

definition holds_on :: "nat \<Rightarrow> holders \<Rightarrow> nat" where
  "holds_on a M = (\<Sum>as\<in>#M. count_list as a)"

lemma holds_on_simps [simp]: "holds_on a {#} = 0" "holds_on a (add_mset as M) = count_list as a + holds_on a M"
  by (simp_all add: holds_on_def)

text \<open>How the counters of a scope stand to the number of its holders.\<close>

definition counts :: "scope \<Rightarrow> nat \<Rightarrow> bool" where
  "counts s n \<longleftrightarrow> sc_in_flight s = n mod 2 ^ 32 \<and> outstanding (sc_acquired s) (sc_released s) = n mod 2 ^ 64"

definition counters_of :: "scope \<Rightarrow> nat \<times> nat \<times> nat" where
  "counters_of s = (sc_in_flight s, sc_acquired s, sc_released s)"

lemma counts_cong: "counters_of s = counters_of s' \<Longrightarrow> counts s n = counts s' n"
  by (simp add: counters_of_def counts_def)

definition adm_inv :: "controller \<times> holders \<Rightarrow> bool" where
  "adm_inv s \<longleftrightarrow> ctrl_wf (fst s) \<and>
     (\<forall>as\<in>#snd s. \<forall>a\<in>set as. a < length (ct_heap (fst s))) \<and>
     (\<forall>a<length (ct_heap (fst s)). counts (ct_heap (fst s) ! a) (holds_on a (snd s)))"

lemma wrap_inc32_mod: "wrap_inc32 (n mod 2 ^ 32) = Suc n mod 2 ^ 32"
  unfolding wrap_inc32_def by (simp only: mod_add_left_eq Suc_eq_plus1)

lemma wrap_dec32_mod: "wrap_dec32 (Suc n mod 2 ^ 32) = n mod 2 ^ 32"
proof -
  have "wrap_dec32 (Suc n mod 2 ^ 32) = (Suc n + (2 ^ 32 - 1)) mod 2 ^ 32"
    unfolding wrap_dec32_def by (rule mod_add_left_eq)
  also have "\<dots> = (n + 2 ^ 32) mod 2 ^ 32" by simp
  finally show ?thesis by simp
qed

lemma outstanding_acquire: "outstanding (wrap_inc64 a) r = (outstanding a r + 1) mod 2 ^ 64"
proof -
  have "((a + 1) mod 2 ^ 64 + (2 ^ 64 - r)) mod 2 ^ 64 = (a + 1 + (2 ^ 64 - r)) mod (2 ^ 64 :: nat)"
    by (rule mod_add_left_eq)
  also have "a + 1 + (2 ^ 64 - r) = a + (2 ^ 64 - r) + 1" by simp
  also have "\<dots> mod 2 ^ 64 = ((a + (2 ^ 64 - r)) mod 2 ^ 64 + 1) mod (2 ^ 64 :: nat)"
    by (rule mod_add_left_eq [symmetric])
  finally show ?thesis by (simp only: outstanding_def wrap_inc64_def)
qed

lemma Suc_mod_cancel:
  fixes x n m :: nat
  assumes "0 < m" "Suc x mod m = Suc n mod m"
  shows "x mod m = n mod m"
proof -
  have "(Suc x + (m - 1)) mod m = (Suc n + (m - 1)) mod m" using assms(2) by (metis mod_add_left_eq)
  moreover have "Suc x + (m - 1) = x + m" "Suc n + (m - 1) = n + m" using assms(1) by simp_all
  ultimately show ?thesis by simp
qed

lemma outstanding_release:
  assumes "r < 2 ^ 64" "outstanding a r = Suc n mod 2 ^ 64"
  shows "outstanding a (wrap_inc64 r) = n mod 2 ^ 64"
proof -
  let ?m = "2 ^ 64 :: nat"
  have "(outstanding a (wrap_inc64 r) + 1) mod ?m = Suc n mod ?m"
    using outstanding_acquire [of a "wrap_inc64 r"] outstanding_cancel [OF assms(1), of a] assms(2) by simp
  moreover have "outstanding a (wrap_inc64 r) < ?m" unfolding outstanding_def by (rule mod_less_divisor) simp
  ultimately show ?thesis using Suc_mod_cancel [of ?m "outstanding a (wrap_inc64 r)" n] by simp
qed

lemma counts_take:
  assumes "scope_ok s" "try_scope tokens now holder s = (None, s')" "counts s n"
  shows "counts s' (Suc n)"
  using assms(2) [unfolded try_scope_def] assms(1)
proof (cases rule: try_acquire_cases)
  case (granted rb tb)
  with assms(3) show ?thesis
    by (simp add: counts_def wrap_inc32_mod outstanding_acquire mod_Suc_eq del: power_numeral)
qed simp_all

lemma counts_refused:
  assumes "scope_ok s" "try_scope tokens now holder s = (Some rej, s')"
  shows "counters_of s' = counters_of s"
  using assms(2) [unfolded try_scope_def] assms(1)
  by (cases rule: try_acquire_cases) (auto simp: counters_of_def)

lemma counts_back:
  assumes "scope_ok s" "counts s (Suc n)"
  shows "counts (scope_rollback tokens s) n" "counts (scope_release reserved actual now s) n"
  using assms outstanding_release [of "sc_released s" "sc_acquired s" n] wrap_dec32_mod [of n]
  by (simp_all add: counts_def scope_rollback_def scope_release_def scope_ok_def)

subsection \<open>Operations that keep the counters\<close>

lemma slot_charge_ok: "slot_ok slot \<Longrightarrow> slot_ok (map_option (\<lambda>b. if p then bucket_refund n b else if q then bucket_charge k now b else b) slot)"
  by (cases slot) (auto simp: slot_ok_def refund_ok charge_ok)

lemma release_ok: "scope_ok s \<Longrightarrow> scope_ok (scope_release reserved actual now s)"
  by (simp add: scope_ok_def scope_release_def slot_charge_ok wrap_dec32_def wrap_inc64_def)

lemma reshape_ok:
  "slot_ok slot \<Longrightarrow> (\<And>x. sh = Some x \<Longrightarrow> sh_capacity_milli x \<le> u64_max) \<Longrightarrow> slot_ok (reshape sh now slot)"
  by (cases slot; cases sh) (auto simp: reshape_def slot_ok_def retune_ok full_ok)

lemma reconfigure_ok: "scope_ok s \<Longrightarrow> scope_ok (scope_reconfigure l now s)"
  by (auto simp: scope_ok_def scope_reconfigure_def request_shape_def token_shape_def shape_capacity intro!: reshape_ok split: if_splits)

lemma spend_ok: "scope_ok s \<Longrightarrow> scope_ok (scope_record_spend units now s)"
  by (simp add: scope_ok_def scope_record_spend_def Let_def)

lemma leave_ok: "scope_ok s \<Longrightarrow> scope_ok (leave_queue ticket s)"
  by (simp add: scope_ok_def leave_queue_def Let_def)

lemma join_ok: "scope_ok s \<Longrightarrow> scope_ok (snd (join_queue cls tenant s))"
  by (simp add: scope_ok_def join_queue_def Let_def)

lemma counters_keep [simp]:
  "counters_of (scope_reconfigure l now s) = counters_of s"
  "counters_of (scope_record_spend units now s) = counters_of s"
  "counters_of (leave_queue ticket s) = counters_of s"
  "counters_of (snd (join_queue cls tenant s)) = counters_of s"
  "counters_of (scope_new name l now) = (0, 0, 0)"
  by (simp_all add: counters_of_def scope_reconfigure_def scope_record_spend_def leave_queue_def join_queue_def scope_new_def Let_def)

text \<open>The heap may grow by unused scopes; nothing else about the counters changes.\<close>

definition kept :: "scope list \<Rightarrow> scope list \<Rightarrow> bool" where
  "kept hp hp' \<longleftrightarrow> length hp \<le> length hp' \<and> (\<forall>a<length hp. counters_of (hp' ! a) = counters_of (hp ! a)) \<and>
     (\<forall>a<length hp'. length hp \<le> a \<longrightarrow> counters_of (hp' ! a) = (0, 0, 0))"

lemma kept_refl [simp]: "kept hp hp"
  by (simp add: kept_def)

lemma kept_trans: "kept hp hp1 \<Longrightarrow> kept hp1 hp2 \<Longrightarrow> kept hp hp2"
proof -
  assume k: "kept hp hp1" "kept hp1 hp2"
  have "counters_of (hp2 ! a) = (0, 0, 0)" if "a < length hp2" "length hp \<le> a" for a
    using k that by (cases "a < length hp1") (auto simp: kept_def)
  with k show ?thesis by (auto simp: kept_def)
qed

lemma kept_update: "(a < length hp \<Longrightarrow> counters_of s = counters_of (hp ! a)) \<Longrightarrow> kept hp (hp[a := s])"
  by (cases "a < length hp") (auto simp: kept_def nth_list_update)

lemma kept_grown: "grown hp hp' \<Longrightarrow> kept hp hp'"
proof -
  assume "grown hp hp'"
  then obtain new where new: "hp' = hp @ new" "\<forall>s\<in>set new. fresh s" by (auto simp: grown_def)
  have "counters_of (new ! (a - length hp)) = (0, 0, 0)" if "a < length hp'" "length hp \<le> a" for a
  proof -
    have "new ! (a - length hp) \<in> set new" using that new(1) by (intro nth_mem) simp
    with new(2) show ?thesis by (auto simp: fresh_def)
  qed
  with new(1) show ?thesis by (auto simp: kept_def nth_append)
qed

lemma kept_heap_map: "(\<And>s. counters_of (f s) = counters_of s) \<Longrightarrow> kept hp (heap_map f as hp)"
  unfolding heap_map_def
proof (induction as arbitrary: hp)
  case (Cons a as)
  from kept_update [of a hp "f (hp ! a)"] Cons show ?case by (auto intro: kept_trans)
qed simp

lemma heap_ok_map: "heap_ok hp \<Longrightarrow> (\<And>s. scope_ok s \<Longrightarrow> scope_ok (f s)) \<Longrightarrow> heap_ok (heap_map f as hp)"
  unfolding heap_map_def
proof (induction as arbitrary: hp)
  case (Cons a as)
  have "heap_ok (hp[a := f (hp ! a)])" using Cons.prems by (intro heap_ok_update) (auto simp: heap_ok_def)
  with Cons show ?case by simp
qed simp

lemma holds_on_outside: "\<forall>as\<in>#M. \<forall>a\<in>set as. a < n \<Longrightarrow> n \<le> a \<Longrightarrow> holds_on a M = 0"
  by (induction M) (auto simp: count_list_0_iff)

lemma adm_inv_kept:
  assumes "adm_inv (c, M)" "ctrl_wf c'" "kept (ct_heap c) (ct_heap c')"
  shows "adm_inv (c', M)"
proof -
  have le: "length (ct_heap c) \<le> length (ct_heap c')" using assms(3) by (simp add: kept_def)
  have "counts (ct_heap c' ! a) (holds_on a M)" if "a < length (ct_heap c')" for a
  proof (cases "a < length (ct_heap c)")
    case True
    with assms(1,3) counts_cong [of "ct_heap c' ! a" "ct_heap c ! a"] show ?thesis by (simp add: adm_inv_def kept_def)
  next
    case False
    then have "counters_of (ct_heap c' ! a) = (0, 0, 0)" "holds_on a M = 0"
      using assms(1,3) that holds_on_outside [of M "length (ct_heap c)" a] by (auto simp: adm_inv_def kept_def)
    then show ?thesis by (simp add: counts_def counters_of_def outstanding_def)
  qed
  with assms(1,2) le show ?thesis by (fastforce simp: adm_inv_def)
qed

lemma at_scope_sel [simp]:
  "ct_heap (at_scope a f c) = (ct_heap c)[a := f (ct_heap c ! a)]" "addrs (at_scope a f c) = addrs c"
  "length (ct_heap (at_scope a f c)) = length (ct_heap c)" "ct_tenants (at_scope a f c) = ct_tenants c"
  "ct_principals (at_scope a f c) = ct_principals c" "ct_global (at_scope a f c) = ct_global c"
  "ct_aliases (at_scope a f c) = ct_aliases c" "ct_targets (at_scope a f c) = ct_targets c"
  by (simp_all add: at_scope_def addrs_def)

lemma at_scope_wf: "ctrl_wf c \<Longrightarrow> (\<And>s. scope_ok s \<Longrightarrow> scope_ok (f s)) \<Longrightarrow> ctrl_wf (at_scope a f c)"
  by (rule wf_heap, assumption)
    (simp_all add: heap_ok_update ctrl_wf_def, metis heap_ok_def heap_ok_update)

lemma at_scope_kept: "(\<And>s. counters_of (f s) = counters_of s) \<Longrightarrow> kept (ct_heap c) (ct_heap (at_scope a f c))"
  by (simp add: kept_update)

lemma at_opt_wf: "ctrl_wf c \<Longrightarrow> (\<And>s. scope_ok s \<Longrightarrow> scope_ok (f s)) \<Longrightarrow> ctrl_wf (at_opt a f c)"
  by (cases a) (simp_all add: at_opt_def at_scope_wf)

lemma at_opt_kept: "(\<And>s. counters_of (f s) = counters_of s) \<Longrightarrow> kept (ct_heap c) (ct_heap (at_opt a f c))"
  by (cases a) (simp_all add: at_opt_def at_scope_kept del: at_scope_sel)

lemma record_spend_inv:
  assumes "ctrl_wf c"
  shows "ctrl_wf (record_spend tenant prin al target units now c)"
    "kept (ct_heap c) (ct_heap (record_spend tenant prin al target units now c))"
proof -
  let ?f = "scope_record_spend units now"
  define c1 where "c1 = at_scope (ct_global c) ?f c"
  obtain ta c2 where t: "tenant_scope tenant now c1 = (ta, c2)" by fastforce
  define c3 where "c3 = at_scope ta ?f c2"
  obtain pa c4 where p: "principal_scope prin now c3 = (pa, c4)" by fastforce
  define c5 where "c5 = at_scope pa ?f c4"
  define c6 where "c6 = at_opt (case al of None \<Rightarrow> None | Some (i, op) \<Rightarrow> alias_scope i op c5) ?f c5"
  define c7 where "c7 = at_opt (case target of None \<Rightarrow> None | Some t \<Rightarrow> target_scope t c6) ?f c6"
  have eq: "record_spend tenant prin al target units now c = (if units = 0 then c else c7)"
    unfolding record_spend_def Let_def c7_def c6_def c5_def
      t [unfolded c1_def] prod.case p [unfolded c3_def] by (rule refl)
  have w1: "ctrl_wf c1" "kept (ct_heap c) (ct_heap c1)"
    unfolding c1_def by (simp_all only: at_scope_wf assms spend_ok at_scope_kept counters_keep)
  note tw = tenant_scope_wf(1,2) [OF w1(1) t]
  have w3: "ctrl_wf c3" "kept (ct_heap c2) (ct_heap c3)"
    unfolding c3_def by (simp_all only: at_scope_wf tw spend_ok at_scope_kept counters_keep)
  note pw = principal_scope_wf(1,2) [OF w3(1) p]
  have w5: "ctrl_wf c5" "kept (ct_heap c4) (ct_heap c5)"
    unfolding c5_def by (simp_all only: at_scope_wf pw spend_ok at_scope_kept counters_keep)
  have w6: "ctrl_wf c6" "kept (ct_heap c5) (ct_heap c6)"
    unfolding c6_def by (simp_all only: at_opt_wf w5 spend_ok at_opt_kept counters_keep)
  have w7: "ctrl_wf c7" "kept (ct_heap c6) (ct_heap c7)"
    unfolding c7_def by (simp_all only: at_opt_wf w6 spend_ok at_opt_kept counters_keep)
  show "ctrl_wf (record_spend tenant prin al target units now c)" using eq w7(1) assms by simp
  have "kept (ct_heap c) (ct_heap c7)"
    using w1(2) kept_grown [OF tw(2)] w3(2) kept_grown [OF pw(2)] w5(2) w6(2) w7(2) by (meson kept_trans)
  then show "kept (ct_heap c) (ct_heap (record_spend tenant prin al target units now c))" using eq by simp
qed

subsection \<open>Applying a plan\<close>

definition layer_ok :: "nat list \<Rightarrow> ('k, nat) btree_map \<times> scope list \<Rightarrow> bool" where
  "layer_ok rest mh \<longleftrightarrow> distinct (rest @ map snd (fst mh)) \<and>
     (\<forall>a\<in>set (rest @ map snd (fst mh)). a < length (snd mh)) \<and> heap_ok (snd mh)"

lemma layer_ok_insert:
  assumes "layer_ok rest (m, hp)" "scope_ok s"
  shows "layer_ok rest (btree_insert k (length hp) m, hp @ [s])"
proof -
  have sub: "mset (map snd (btree_insert k (length hp) m)) \<subseteq># add_mset (length hp) (mset (map snd m))"
    by (rule btree_insert_values)
  have d: "distinct ((rest @ map snd m) @ [length hp])" using assms(1) by (auto simp: layer_ok_def)
  have "mset (rest @ map snd (btree_insert k (length hp) m)) \<subseteq># mset ((rest @ map snd m) @ [length hp])"
    using sub by simp
  note new = distinct_submset [OF this d] mset_subset_eqD [OF this]
  have "a < Suc (length hp)" if "a \<in> set (rest @ map snd (btree_insert k (length hp) m))" for a
  proof -
    have "a \<in> set ((rest @ map snd m) @ [length hp])" using new(2) that by (metis set_mset_mset)
    then have "a \<in> set (rest @ map snd m) \<or> a = length hp" by auto
    then show ?thesis using assms(1) unfolding layer_ok_def fst_conv snd_conv by (meson less_SucI lessI)
  qed
  with new(1) assms show ?thesis by (auto simp: layer_ok_def heap_ok_append)
qed

lemma apply_key_ok:
  assumes "layer_ok rest mh"
  shows "layer_ok rest (apply_key name now kl mh)" "kept (snd mh) (snd (apply_key name now kl mh))"
proof -
  obtain m hp where mh: "mh = (m, hp)" by fastforce
  have upd: "layer_ok rest (m, hp[a := scope_reconfigure l now (hp ! a)])" for a l
    using assms by (simp add: mh layer_ok_def) (metis heap_ok_def heap_ok_update reconfigure_ok)
  show "layer_ok rest (apply_key name now kl mh)"
    using assms upd by (simp add: apply_key_def mh layer_ok_insert scope_new_ok split: option.split)
  show "kept (snd mh) (snd (apply_key name now kl mh))"
    by (simp add: apply_key_def mh kept_grown kept_update split: option.split)
qed

lemma apply_keys_ok:
  "layer_ok rest mh \<Longrightarrow> layer_ok rest (fold (apply_key name now) planned mh) \<and> kept (snd mh) (snd (fold (apply_key name now) planned mh))"
proof (induction planned arbitrary: mh)
  case (Cons kl planned)
  note step = apply_key_ok [OF Cons.prems, of name now kl]
  from Cons.IH [OF step(1)] kept_trans [OF step(2)] show ?case by simp
qed simp

lemma filter_snd_submset: "mset (map snd (filter P m)) \<subseteq># mset (map snd m)"
  by (induction m) (auto intro: subset_mset.order_trans)

lemma apply_layer_ok:
  assumes "layer_ok rest mh"
  shows "layer_ok rest (apply_layer planned fallback name now mh) \<and> kept (snd mh) (snd (apply_layer planned fallback name now mh))"
proof -
  obtain m hp where mh: "mh = (m, hp)" by fastforce
  define mh1 where "mh1 = (case fallback of
      Some l \<Rightarrow> (m, heap_map (scope_reconfigure l now) (map snd (filter (\<lambda>(k, a). btree_get planned k = None) m)) hp)
    | None \<Rightarrow> (filter (\<lambda>ka. \<not> (case ka of (k, a) \<Rightarrow> btree_get planned k = None)) m, hp))"
  have sub: "mset (rest @ map snd (filter P m)) \<subseteq># mset (rest @ map snd m)" for P
    using filter_snd_submset [of P m] by simp
  have "layer_ok rest mh1 \<and> kept hp (snd mh1)"
  proof (cases fallback)
    case None
    with assms distinct_submset [OF sub] show ?thesis by (auto simp: mh1_def mh layer_ok_def)
  next
    case (Some l)
    with assms show ?thesis
      by (auto simp: mh1_def mh layer_ok_def kept_heap_map intro: heap_ok_map reconfigure_ok)
  qed
  moreover have "apply_layer planned fallback name now mh = fold (apply_key name now) planned mh1"
    unfolding apply_layer_def mh1_def mh Let_def fst_conv snd_conv by (rule refl)
  ultimately show ?thesis using apply_keys_ok [of rest mh1 name now planned] kept_trans mh by auto
qed

text \<open>The addresses of a well-formed controller, seen from one layer.\<close>

lemma layer_swap: "layer_ok rest (m, hp) \<Longrightarrow> mset (rest @ map snd m) = mset (rest' @ map snd m') \<Longrightarrow> layer_ok rest' (m', hp)"
  unfolding layer_ok_def fst_conv snd_conv by (metis mset_eq_imp_distinct_iff mset_eq_setD)

lemma configure_machines_sel [simp]:
  "ct_heap (configure_machines plan c) = ct_heap c" "addrs (configure_machines plan c) = addrs c"
  "ct_global (configure_machines plan c) = ct_global c" "ct_tenants (configure_machines plan c) = ct_tenants c"
  "ct_principals (configure_machines plan c) = ct_principals c" "ct_targets (configure_machines plan c) = ct_targets c"
  "ct_aliases (configure_machines plan c) = ct_aliases c"
  by (simp_all add: configure_machines_def Let_def addrs_def case_prod_beta)

definition planned_heap :: "admission_plan \<Rightarrow> nat \<Rightarrow> controller \<Rightarrow> scope list" where
  "planned_heap plan now c = ct_heap (at_scope (ct_global c) (scope_reconfigure (pl_global plan) now) c)"

lemma apply_plan_layers:
  obtains ts hp1 ps hp2 tg hp3 als where
    "apply_layer (pl_tenants plan) (Some (ct_default_tenant_limits c)) tenant_name now (ct_tenants c, planned_heap plan now c) = (ts, hp1)"
    "apply_layer (pl_principals plan) (Some (ct_default_principal_limits c)) principal_name now (ct_principals c, hp1) = (ps, hp2)"
    "apply_layer (pl_targets plan) None target_name now (ct_targets c, hp2) = (tg, hp3)"
    "apply_layer (pl_aliases plan) None alias_name now (ct_aliases c, hp3) = (als, ct_heap (apply_plan plan now c))"
    "ct_tenants (apply_plan plan now c) = ts" "ct_principals (apply_plan plan now c) = ps"
    "ct_targets (apply_plan plan now c) = tg" "ct_aliases (apply_plan plan now c) = als"
    "ct_global (apply_plan plan now c) = ct_global c"
proof -
  obtain ts hp1 where l1: "apply_layer (pl_tenants plan) (Some (ct_default_tenant_limits c)) tenant_name now (ct_tenants c, planned_heap plan now c) = (ts, hp1)" by fastforce
  obtain ps hp2 where l2: "apply_layer (pl_principals plan) (Some (ct_default_principal_limits c)) principal_name now (ct_principals c, hp1) = (ps, hp2)" by fastforce
  obtain tg hp3 where l3: "apply_layer (pl_targets plan) None target_name now (ct_targets c, hp2) = (tg, hp3)" by fastforce
  obtain als hp4 where l4: "apply_layer (pl_aliases plan) None alias_name now (ct_aliases c, hp3) = (als, hp4)" by fastforce
  show thesis
    by (rule that [OF l1 l2 l3])
      (use l1 l2 l3 l4 in \<open>simp_all add: apply_plan_def Let_def planned_heap_def replace_classes_def\<close>)
qed

lemma planned_heap_ok:
  assumes "ctrl_wf c"
  shows "layer_ok (ct_global c # map snd (ct_principals c) @ map snd (ct_targets c) @ map snd (ct_aliases c)) (ct_tenants c, planned_heap plan now c)"
proof -
  have "ctrl_wf (at_scope (ct_global c) (scope_reconfigure (pl_global plan) now) c)"
    using assms by (rule at_scope_wf) (rule reconfigure_ok)
  then have "layer_ok [] (map (Pair ()) (addrs c), planned_heap plan now c)"
    by (simp add: layer_ok_def ctrl_wf_def planned_heap_def comp_def)
  then show ?thesis by (rule layer_swap) (simp add: addrs_def comp_def)
qed

lemma apply_plan_inv:
  assumes "ctrl_wf c"
  shows "ctrl_wf (apply_plan plan now c)" "kept (ct_heap c) (ct_heap (apply_plan plan now c))"
proof -
  obtain ts hp1 ps hp2 tg hp3 als where
    l1: "apply_layer (pl_tenants plan) (Some (ct_default_tenant_limits c)) tenant_name now (ct_tenants c, planned_heap plan now c) = (ts, hp1)" and
    l2: "apply_layer (pl_principals plan) (Some (ct_default_principal_limits c)) principal_name now (ct_principals c, hp1) = (ps, hp2)" and
    l3: "apply_layer (pl_targets plan) None target_name now (ct_targets c, hp2) = (tg, hp3)" and
    l4: "apply_layer (pl_aliases plan) None alias_name now (ct_aliases c, hp3) = (als, ct_heap (apply_plan plan now c))" and
    maps: "ct_tenants (apply_plan plan now c) = ts" "ct_principals (apply_plan plan now c) = ps"
    "ct_targets (apply_plan plan now c) = tg" "ct_aliases (apply_plan plan now c) = als"
    "ct_global (apply_plan plan now c) = ct_global c" by (rule apply_plan_layers)
  let ?g = "ct_global c" and ?T = "map snd (ct_targets c)" and ?A = "map snd (ct_aliases c)"
  note s1 = apply_layer_ok [OF planned_heap_ok [OF assms, of plan now], of "pl_tenants plan" "Some (ct_default_tenant_limits c)" tenant_name now, unfolded l1 snd_conv]
  have "layer_ok (?g # map snd ts @ ?T @ ?A) (ct_principals c, hp1)" by (rule layer_swap [OF conjunct1 [OF s1]]) simp
  note s2 = apply_layer_ok [OF this, of "pl_principals plan" "Some (ct_default_principal_limits c)" principal_name now, unfolded l2 snd_conv]
  have "layer_ok (?g # map snd ts @ map snd ps @ ?A) (ct_targets c, hp2)" by (rule layer_swap [OF conjunct1 [OF s2]]) simp
  note s3 = apply_layer_ok [OF this, of "pl_targets plan" None target_name now, unfolded l3 snd_conv]
  have "layer_ok (?g # map snd ts @ map snd ps @ map snd tg) (ct_aliases c, hp3)" by (rule layer_swap [OF conjunct1 [OF s3]]) simp
  note s4 = apply_layer_ok [OF this, of "pl_aliases plan" None alias_name now, unfolded l4 snd_conv]
  have "addrs (apply_plan plan now c) = ?g # map snd ts @ map snd ps @ map snd tg @ map snd als" by (simp add: addrs_def maps)
  with conjunct1 [OF s4] show "ctrl_wf (apply_plan plan now c)" by (simp add: ctrl_wf_def layer_ok_def)
  have "kept (ct_heap c) (planned_heap plan now c)" unfolding planned_heap_def by (rule at_scope_kept) simp
  with s1 s2 s3 s4 show "kept (ct_heap c) (ct_heap (apply_plan plan now c))" by (meson kept_trans)
qed

subsection \<open>The invariant\<close>

lemma wf_update: "ctrl_wf c \<Longrightarrow> (a < length (ct_heap c) \<Longrightarrow> scope_ok s) \<Longrightarrow> ctrl_wf (c\<lparr>ct_heap := (ct_heap c)[a := s]\<rparr>)"
  by (simp add: ctrl_wf_def addrs_def heap_ok_update)

lemma adm_inv_at:
  assumes "adm_inv (c, add_mset bs M)" "set bs \<subseteq> set as \<union> {a}" "set as \<subseteq> set bs \<union> {a}" "a < length (ct_heap c)"
    and "\<And>b. b \<noteq> a \<Longrightarrow> count_list as b = count_list bs b" "scope_ok s" "counts s (count_list as a + holds_on a M)"
  shows "adm_inv (c\<lparr>ct_heap := (ct_heap c)[a := s]\<rparr>, add_mset as M)"
proof -
  let ?hp = "(ct_heap c)[a := s]"
  have wf: "ctrl_wf (c\<lparr>ct_heap := ?hp\<rparr>)"
    using assms(1,6) by (simp add: adm_inv_def wf_update)
  have counts: "counts (?hp ! b) (count_list as b + holds_on b M)" if "b < length ?hp" for b
  proof (cases "b = a")
    case True
    with assms(4,7) show ?thesis by simp
  next
    case False
    with assms(1) assms(5) [of b] that show ?thesis by (simp add: adm_inv_def)
  qed
  have "b < length ?hp" if "b \<in> set as" for b using assms(1,3,4) that by (auto simp: adm_inv_def)
  with wf counts assms(1) show ?thesis by (simp add: adm_inv_def)
qed

lemma wf_configure:
  assumes "ctrl_wf c"
  shows "ctrl_wf (configure_tenant t l now c)" "ctrl_wf (configure_principal p l now c)"
    "ctrl_wf (configure_alias al op l now c)" "ctrl_wf (configure_target tg l now c)"
  using btree_insert_values [of t "length (ct_heap c)" "ct_tenants c"] btree_insert_values [of p "length (ct_heap c)" "ct_principals c"]
    btree_insert_values [of "(al, op)" "length (ct_heap c)" "ct_aliases c"] btree_insert_values [of tg "length (ct_heap c)" "ct_targets c"]
  by (auto intro!: wf_grow [OF assms] simp: addrs_def scope_new_ok alloc_def configure_tenant_def configure_principal_def
      configure_alias_def configure_target_def)

lemma adm_inv_update:
  assumes "adm_inv (c, M)" "a < length (ct_heap c) \<Longrightarrow> scope_ok s \<and> counters_of s = counters_of (ct_heap c ! a)"
  shows "adm_inv (c\<lparr>ct_heap := (ct_heap c)[a := s]\<rparr>, M)"
proof -
  have "ctrl_wf (c\<lparr>ct_heap := (ct_heap c)[a := s]\<rparr>)"
    using assms by (simp add: adm_inv_def wf_update)
  with assms show ?thesis by (intro adm_inv_kept [OF assms(1)]) (auto intro!: kept_update)
qed

lemma adm_inv_quiet:
  "adm_inv (c, M) \<Longrightarrow> ct_heap c' = ct_heap c \<Longrightarrow> addrs c' = addrs c \<Longrightarrow> adm_inv (c', M)"
  by (auto simp: adm_inv_def ctrl_wf_def)

lemma adm_inv_ok: "adm_inv (c, M) \<Longrightarrow> a < length (ct_heap c) \<Longrightarrow> scope_ok (ct_heap c ! a)"
  by (simp add: adm_inv_def ctrl_wf_def heap_ok_def)

lemma adm_inv_counts: "adm_inv (c, M) \<Longrightarrow> a < length (ct_heap c) \<Longrightarrow> counts (ct_heap c ! a) (holds_on a M)"
  by (simp add: adm_inv_def)

lemma adm_inv_wf: "adm_inv (c, M) \<Longrightarrow> ctrl_wf c"
  by (simp add: adm_inv_def)

lemma adm_inv_back:
  assumes inv: "adm_inv (c, add_mset (as @ [a]) M)"
    and f: "\<And>s n. scope_ok s \<Longrightarrow> counts s (Suc n) \<Longrightarrow> scope_ok (f s) \<and> counts (f s) n"
  shows "adm_inv (at_scope a f c, add_mset as M)"
proof -
  have a: "a < length (ct_heap c)" using inv by (simp add: adm_inv_def)
  then have "counts (ct_heap c ! a) (Suc (count_list as a + holds_on a M))" using adm_inv_counts [OF inv a] by simp
  then show ?thesis
    unfolding at_scope_def using f [OF adm_inv_ok [OF inv a]] a by (intro adm_inv_at [OF inv]) auto
qed

lemma admit_bytes_quiet: "try_admit_bytes n now c = (r, c') \<Longrightarrow> ct_heap c' = ct_heap c \<and> addrs c' = addrs c"
  by (cases "ct_inbound_bytes c") (auto simp: try_admit_bytes_def Let_def addrs_def case_prod_beta)

lemma adm_inv_step: "adm_step s s' \<Longrightarrow> adm_inv s \<Longrightarrow> adm_inv s'"
proof (induction rule: adm_step.induct)
  case (adm_chain tenant prin al target now c as c' M)
  from chain_wf(1,2) [OF adm_inv_wf [OF adm_chain(2)] adm_chain(1)] show ?case
    by (intro adm_inv_kept [OF adm_chain(2)]) (auto intro: kept_grown)
next
  case (adm_take a c tokens now holder s as M)
  note ok = adm_inv_ok [OF adm_take(3,1)]
  have "counts s (Suc (count_list as a + holds_on a M))"
    using counts_take [OF ok adm_take(2)] adm_inv_counts [OF adm_take(3,1)] by simp
  then show ?case
    using try_scope_ok [OF ok, of tokens now holder] adm_take(1,2) by (intro adm_inv_at [OF adm_take(3)]) auto
next
  case (adm_refused tokens now holder c a rej s M)
  then show ?case
    using try_scope_ok [of "ct_heap c ! a" tokens now holder] counts_refused [of "ct_heap c ! a"] adm_inv_ok [of c M a]
    by (intro adm_inv_update) auto
next
  case (adm_rollback c as a M tokens)
  then show ?case by (rule adm_inv_back) (simp add: rollback_ok counts_back)
next
  case (adm_release c as a M reserved actual now)
  then show ?case by (rule adm_inv_back) (simp add: release_ok counts_back)
next
  case (adm_join cls tenant c a r s M)
  then show ?case
    using join_ok [of "ct_heap c ! a" cls tenant] counters_keep(4) [of cls tenant "ct_heap c ! a"] adm_inv_ok [of c M a]
    by (intro adm_inv_update) auto
next
  case (adm_leave c M a ticket)
  then show ?case unfolding leave_line_def by (intro adm_inv_update) (auto simp: leave_ok dest: adm_inv_ok)
next
  case (adm_spend c M tenant prin al tgt units now)
  then show ?case using record_spend_inv [OF adm_inv_wf] by (blast intro: adm_inv_kept)
next
  case (adm_apply c M plan now)
  then show ?case using apply_plan_inv [OF adm_inv_wf] by (blast intro: adm_inv_kept)
next
  case (adm_bytes_in n now c r c' M)
  from adm_inv_quiet [OF adm_bytes_in(2)] admit_bytes_quiet [OF adm_bytes_in(1)] show ?case by blast
next
  case (adm_bytes_out c M n now)
  then show ?case by (rule adm_inv_quiet) (auto simp: record_output_bytes_def addrs_def split: option.splits)
next
  case (adm_tenant c M t l now)
  from this wf_configure(1) [OF adm_inv_wf [OF this]] show ?case
    by (rule adm_inv_kept) (simp add: configure_tenant_def alloc_def kept_grown)
next
  case (adm_principal c M p l now)
  from this wf_configure(2) [OF adm_inv_wf [OF this]] show ?case
    by (rule adm_inv_kept) (simp add: configure_principal_def alloc_def kept_grown)
next
  case (adm_alias c M al' op l now)
  from this wf_configure(3) [OF adm_inv_wf [OF this]] show ?case
    by (rule adm_inv_kept) (simp add: configure_alias_def alloc_def kept_grown)
next
  case (adm_target c M t l now)
  from this wf_configure(4) [OF adm_inv_wf [OF this]] show ?case
    by (rule adm_inv_kept) (simp add: configure_target_def alloc_def kept_grown)
qed (auto simp: adm_inv_def ctrl_wf_def addrs_def configure_byte_rates_def set_default_tenant_limits_def
    set_default_principal_limits_def set_class_def)

lemma outstanding_zero:
  assumes "a < 2 ^ 64" "r < 2 ^ 64" "outstanding a r = 0"
  shows "a = r"
proof -
  define m :: nat where "m = 2 ^ 64"
  have b: "a < m" "r < m" using assms(1,2) unfolding m_def by blast+
  have "(a + (m - r)) mod m = 0" using assms(3) unfolding outstanding_def m_def .
  then obtain k where k: "a + (m - r) = m * k" by (auto simp: mod_eq_0_iff_dvd elim: dvdE)
  have "0 < m * k" "m * k < m * 2" using k b by linarith+
  then have "k = 1" by auto
  then show ?thesis using k b by simp
qed

lemma new_counts: "counts (scope_new name l now) 0"
  by (simp add: counts_def scope_new_def outstanding_def)

lemma adm_inv_new: "adm_inv (controller_new now l, {#})"
  by (simp add: adm_inv_def ctrl_wf_def controller_new_def addrs_def heap_ok_def scope_new_ok new_counts)

lemma adm_reachable_inv: "adm_reachable s \<Longrightarrow> adm_inv s"
proof -
  assume "adm_reachable s"
  then obtain now l where run: "adm_step\<^sup>*\<^sup>* (controller_new now l, {#}) s" by (auto simp: adm_reachable_def)
  from run show ?thesis
    by (induction rule: rtranclp_induct) (auto intro: adm_inv_new adm_inv_step)
qed

lemma capacity_conserved_parts:
  assumes "adm_reachable (c, M)" "a < length (ct_heap c)"
  shows "sc_in_flight (ct_heap c ! a) = holds_on a M mod 2 ^ 32"
    "outstanding (sc_acquired (ct_heap c ! a)) (sc_released (ct_heap c ! a)) = holds_on a M mod 2 ^ 64"
    "M = {#} \<Longrightarrow> sc_in_flight (ct_heap c ! a) = 0 \<and> sc_acquired (ct_heap c ! a) = sc_released (ct_heap c ! a)"
proof -
  note inv = adm_reachable_inv [OF assms(1)]
  note n = adm_inv_counts [OF inv assms(2), unfolded counts_def]
  show "sc_in_flight (ct_heap c ! a) = holds_on a M mod 2 ^ 32"
    "outstanding (sc_acquired (ct_heap c ! a)) (sc_released (ct_heap c ! a)) = holds_on a M mod 2 ^ 64" using n by blast+
  have ok: "sc_acquired (ct_heap c ! a) < 2 ^ 64" "sc_released (ct_heap c ! a) < 2 ^ 64"
    using adm_inv_ok [OF inv assms(2)] by (simp_all only: scope_ok_def)
  assume "M = {#}"
  then have "sc_in_flight (ct_heap c ! a) = 0" "outstanding (sc_acquired (ct_heap c ! a)) (sc_released (ct_heap c ! a)) = 0"
    using n by simp_all
  with outstanding_zero [OF ok] show "sc_in_flight (ct_heap c ! a) = 0 \<and> sc_acquired (ct_heap c ! a) = sc_released (ct_heap c ! a)"
    by blast
qed

text \<open>
  C4: capacity is conserved. In every reachable state, whatever requests interleave inside their chains and
  whatever is published meanwhile, a scope's in-flight counter is the number of holds on it and its acquisitions
  exceed its releases by the same number, at the width of the counters; with nobody holding anything, every scope
  counts zero in flight and as many releases as acquisitions.
\<close>

theorem capacity_conserved:
  assumes "adm_reachable (c, M)" "a < length (ct_heap c)"
  shows "sc_in_flight (ct_heap c ! a) = holds_on a M mod 2 ^ 32 \<and>
    outstanding (sc_acquired (ct_heap c ! a)) (sc_released (ct_heap c ! a)) = holds_on a M mod 2 ^ 64 \<and>
    (M = {#} \<longrightarrow> sc_in_flight (ct_heap c ! a) = 0 \<and> sc_acquired (ct_heap c ! a) = sc_released (ct_heap c ! a))"
  using capacity_conserved_parts [OF assms] by blast

text \<open>
  C8: a scope with a concurrency limit never admits past it. When a scope grants a request, in whatever reachable
  state, the requests that hold it, this one included, are at most the limit in force.
\<close>

theorem concurrency_bound:
  assumes "adm_reachable (c, add_mset as M)" "a < length (ct_heap c)"
    and "try_scope tokens now holder (ct_heap c ! a) = (None, s')"
    and "0 < max_concurrency (sc_limits (ct_heap c ! a))" "holds_on a (add_mset as M) < 2 ^ 32"
  shows "holds_on a (add_mset (as @ [a]) M) \<le> max_concurrency (sc_limits (ct_heap c ! a))"
proof -
  note inv = adm_reachable_inv [OF assms(1)]
  have "scope_has_capacity (ct_heap c ! a)"
    using assms(3) [unfolded try_scope_def] adm_inv_ok [OF inv assms(2)] by (cases rule: try_acquire_cases) simp_all
  then have "sc_in_flight (ct_heap c ! a) < max_concurrency (sc_limits (ct_heap c ! a))"
    using assms(4) by (simp add: scope_has_capacity_def)
  moreover have "sc_in_flight (ct_heap c ! a) = holds_on a (add_mset as M)"
    using adm_inv_counts [OF inv assms(2)] assms(5) by (simp add: counts_def)
  ultimately show ?thesis by simp
qed

section \<open>Reserving is a sequence of scope operations\<close>

lemma heap_map_snoc: "heap_map f (rev (as @ [a])) hp = heap_map f (rev as) (hp[a := f (hp ! a)])"
  by (simp add: heap_map_def)

lemma give_back_steps:
  assumes "\<And>c as a M. adm_step (c, add_mset (as @ [a]) M) (at_scope a f c, add_mset as M)"
  shows "adm_step\<^sup>*\<^sup>* (c\<lparr>ct_heap := hp\<rparr>, add_mset as M) (c\<lparr>ct_heap := heap_map f (rev as) hp\<rparr>, add_mset [] M)"
proof (induction as arbitrary: hp rule: rev_induct)
  case (snoc a as)
  from assms [of "c\<lparr>ct_heap := hp\<rparr>" as a M]
  have "adm_step (c\<lparr>ct_heap := hp\<rparr>, add_mset (as @ [a]) M) (c\<lparr>ct_heap := hp[a := f (hp ! a)]\<rparr>, add_mset as M)"
    by (simp add: at_scope_def)
  with snoc show ?case unfolding heap_map_snoc by (meson converse_rtranclp_into_rtranclp)
qed (simp add: heap_map_def)

lemma take_all_steps:
  assumes "take_all (try_scope tokens now holder) (scope_rollback tokens) held as hp = (res, hp')" "\<forall>a\<in>set as. a < length hp"
  shows "adm_step\<^sup>*\<^sup>* (c\<lparr>ct_heap := hp\<rparr>, add_mset held M)
    (c\<lparr>ct_heap := hp'\<rparr>, add_mset (case res of Inl _ \<Rightarrow> [] | Inr held' \<Rightarrow> held') M)"
  using assms
proof (induction as arbitrary: held hp)
  case (Cons a as)
  obtain x s where t: "try_scope tokens now holder (hp ! a) = (x, s)" by fastforce
  show ?case
  proof (cases x)
    case None
    have "adm_step (c\<lparr>ct_heap := hp\<rparr>, add_mset held M) (c\<lparr>ct_heap := hp[a := s]\<rparr>, add_mset (held @ [a]) M)"
      using adm_take [of a "c\<lparr>ct_heap := hp\<rparr>" tokens now holder s held M] Cons.prems(2) t None by simp
    moreover have "take_all (try_scope tokens now holder) (scope_rollback tokens) (held @ [a]) as (hp[a := s]) = (res, hp')"
      using Cons.prems(1) t None by simp
    ultimately show ?thesis
      using Cons.IH [of "held @ [a]" "hp[a := s]"] Cons.prems(2) by (simp add: converse_rtranclp_into_rtranclp)
  next
    case (Some r)
    have "adm_step (c\<lparr>ct_heap := hp\<rparr>, add_mset held M) (c\<lparr>ct_heap := hp[a := s]\<rparr>, add_mset held M)"
      using adm_refused [of tokens now holder "c\<lparr>ct_heap := hp\<rparr>" a r s "add_mset held M"] t Some by simp
    also have "adm_step\<^sup>*\<^sup>* \<dots> (c\<lparr>ct_heap := heap_map (scope_rollback tokens) (rev held) (hp[a := s])\<rparr>, add_mset [] M)"
      by (rule give_back_steps) (rule adm_rollback)
    finally show ?thesis using Cons.prems(1) t Some by auto
  qed
qed auto

lemma return_hold_step: "adm_step (c, M) (return_hold h c, M)"
  unfolding return_hold_def by (rule adm_ledgers)

lemma drop_ask_steps: "adm_step\<^sup>*\<^sup>* (c, M) (drop_ask memory c, M)"
  by (cases memory) (auto intro: return_hold_step)

lemma acquire_chain_cases:
  assumes "acquire_chain tenant prin al target tokens holder memory now c = (out, c')"
    and ch: "chain tenant prin al target now c = (as, c1)"
    and ta: "take_all (try_scope tokens now holder) (scope_rollback tokens) [] as (ct_heap c1) = (res, hp)"
  obtains (refused) r where "res = Inl r" "\<exists>e. out = Inl e" "c' = drop_ask memory (c1\<lparr>ct_heap := hp\<rparr>)"
  | (memory) held ls where "res = Inr held" "\<exists>e. out = Inl e"
      "c' = c1\<lparr>ct_heap := heap_map (scope_rollback tokens) (rev held) hp, ct_ledgers := ls\<rparr>"
  | (granted) held ls rv where "res = Inr held" "out = Inr rv" "rv_scopes rv = held" "\<not> rv_released rv"
      "rv_reserved_tokens rv = tokens" "c' = c1\<lparr>ct_heap := hp, ct_ledgers := ls\<rparr>"
proof (cases res)
  case (Inl r)
  with assms show thesis by (intro that(1)) (auto simp: acquire_chain_def Let_def split: prod.splits)
next
  case (Inr held)
  note eq = assms(1) [unfolded acquire_chain_def ch ta Let_def prod.case Inr sum.case]
  show thesis
  proof (cases memory)
    case (MHeld h)
    with eq that(3) [OF Inr, of _ "ct_ledgers c1"] show thesis by auto
  next
    case (MTake cls key)
    note eq = eq [unfolded MTake memory_ask.case]
    show thesis
    proof (cases "machine_for target cls (c1\<lparr>ct_heap := hp\<rparr>)")
      case None
      with eq that(3) [OF Inr, of _ "ct_ledgers c1"] show thesis by auto
    next
      case (Some x)
      obtain m bytes cls' where x: "x = (m, bytes, cls')" by (cases x)
      obtain oh l where h: "try_hold target bytes cls' key now (ct_ledgers c1 ! m) = (oh, l)" by fastforce
      show thesis
      proof (cases oh)
        case None
        with eq Some x h that(2) [OF Inr, of "(ct_ledgers c1)[m := l]"] show thesis by auto
      next
        case (Some y)
        with eq \<open>machine_for target cls (c1\<lparr>ct_heap := hp\<rparr>) = Some x\<close> x h that(3) [OF Inr, of _ "(ct_ledgers c1)[m := l]"]
        show thesis by auto
      qed
    qed
  qed
qed

lemma reservation_refines_parts:
  assumes "ctrl_wf c"
  shows "acquire_chain tenant prin al target tokens holder memory now c = (Inr r, c') \<Longrightarrow>
      adm_step\<^sup>*\<^sup>* (c, M) (c', add_mset (rv_scopes r) M)"
    "acquire_chain tenant prin al target tokens holder memory now c = (Inl refusal, c') \<Longrightarrow> adm_step\<^sup>*\<^sup>* (c, M) (c', M)"
    "\<not> rv_released r \<Longrightarrow> adm_step\<^sup>*\<^sup>* (c, add_mset (rv_scopes r) M) (snd (reservation_finish actual now r c), M)"
proof -
  obtain as c1 where ch: "chain tenant prin al target now c = (as, c1)" by fastforce
  note w = chain_wf [OF assms ch]
  obtain res hp where ta: "take_all (try_scope tokens now holder) (scope_rollback tokens) [] as (ct_heap c1) = (res, hp)" by fastforce
  have start: "adm_step\<^sup>*\<^sup>* (c, M) (c1, add_mset [] M)" for M
    using adm_chain [OF ch, of M] adm_begin [of c1 M] by (meson r_into_rtranclp rtranclp.rtrancl_into_rtrancl)
  have run: "adm_step\<^sup>*\<^sup>* (c, M) (c1\<lparr>ct_heap := hp\<rparr>, add_mset (case res of Inl _ \<Rightarrow> [] | Inr held' \<Rightarrow> held') M)" for M
    using rtranclp_trans [OF start] take_all_steps [OF ta w(4), of c1 M] by simp
  have ledgers: "adm_step\<^sup>*\<^sup>* (d\<lparr>ct_heap := h\<rparr>, N) (d\<lparr>ct_heap := h, ct_ledgers := ls\<rparr>, N)" for d h ls N
    using adm_ledgers [of "d\<lparr>ct_heap := h\<rparr>" N ls] by simp
  show "adm_step\<^sup>*\<^sup>* (c, M) (c', add_mset (rv_scopes r) M)"
    if "acquire_chain tenant prin al target tokens holder memory now c = (Inr r, c')"
    using that ch ta
  proof (cases rule: acquire_chain_cases)
    case (granted held ls rv)
    with rtranclp_trans [OF run ledgers, of M ls] show ?thesis by simp
  qed auto
  show "adm_step\<^sup>*\<^sup>* (c, M) (c', M)"
    if "acquire_chain tenant prin al target tokens holder memory now c = (Inl refusal, c')"
    using that ch ta
  proof (cases rule: acquire_chain_cases)
    case (refused r')
    with run [of M] have "adm_step\<^sup>*\<^sup>* (c, M) (c1\<lparr>ct_heap := hp\<rparr>, add_mset [] M)" by simp
    from rtranclp.rtrancl_into_rtrancl [OF this adm_end] drop_ask_steps refused(3) show ?thesis by (metis rtranclp_trans)
  next
    case (memory held ls)
    with run [of M] have "adm_step\<^sup>*\<^sup>* (c, M) (c1\<lparr>ct_heap := hp\<rparr>, add_mset held M)" by simp
    also have "adm_step\<^sup>*\<^sup>* \<dots> (c1\<lparr>ct_heap := heap_map (scope_rollback tokens) (rev held) hp\<rparr>, add_mset [] M)"
      by (rule give_back_steps) (rule adm_rollback)
    also have "adm_step\<^sup>*\<^sup>* \<dots> (c1\<lparr>ct_heap := heap_map (scope_rollback tokens) (rev held) hp\<rparr>, M)" by (blast intro: adm_end)
    finally show ?thesis using ledgers memory(3) by (metis rtranclp_trans)
  qed auto
  show "adm_step\<^sup>*\<^sup>* (c, add_mset (rv_scopes r) M) (snd (reservation_finish actual now r c), M)" if "\<not> rv_released r"
  proof -
    define d where "d = (case rv_machine r of None \<Rightarrow> c | Some h \<Rightarrow> return_hold h c)"
    have "adm_step\<^sup>*\<^sup>* (c, add_mset (rv_scopes r) M) (d, add_mset (rv_scopes r) M)"
      by (auto simp: d_def intro: return_hold_step split: option.splits)
    also have "adm_step\<^sup>*\<^sup>* (d, add_mset (rv_scopes r) M)
        (d\<lparr>ct_heap := heap_map (scope_release (rv_reserved_tokens r) actual now) (rev (rv_scopes r)) (ct_heap d)\<rparr>, add_mset [] M)"
      using give_back_steps [where f = "scope_release (rv_reserved_tokens r) actual now" and c = d and hp = "ct_heap d" and as = "rv_scopes r" and M = M] adm_release by simp
    also have "adm_step\<^sup>*\<^sup>* \<dots>
        (d\<lparr>ct_heap := heap_map (scope_release (rv_reserved_tokens r) actual now) (rev (rv_scopes r)) (ct_heap d)\<rparr>, M)"
      by (blast intro: adm_end)
    finally show ?thesis using that by (simp add: reservation_finish_def d_def Let_def)
  qed
qed

text \<open>
  C31: the controller's operations refine the interleaved system. A reservation that is granted is a sequence of
  single-scope acquisitions that ends with its scopes held; one that is refused is a sequence that ends with
  nothing held; finishing a reservation gives its scopes back one by one. So the laws of the interleaved system
  hold of the controller's own operations.
\<close>

theorem reservation_refines:
  assumes "ctrl_wf c"
  shows "(acquire_chain tenant prin al target tokens holder memory now c = (Inr r, c') \<longrightarrow>
      adm_step\<^sup>*\<^sup>* (c, M) (c', add_mset (rv_scopes r) M)) \<and>
    (acquire_chain tenant prin al target tokens holder memory now c = (Inl refusal, c') \<longrightarrow> adm_step\<^sup>*\<^sup>* (c, M) (c', M)) \<and>
    (\<not> rv_released r \<longrightarrow> adm_step\<^sup>*\<^sup>* (c, add_mset (rv_scopes r) M) (snd (reservation_finish actual now r c), M))"
  by (intro conjI impI) (erule reservation_refines_parts [OF assms])+

section \<open>A publication is enforced at once and forgets nothing\<close>

text \<open>What reconfiguration keeps of a scope, and what that makes a publication keep.\<close>

locale scope_memory =
  fixes view :: "scope \<Rightarrow> 'v"
  assumes view_reconfigure: "view (scope_reconfigure l now s) = view s"
begin

definition remembers :: "scope list \<Rightarrow> scope list \<Rightarrow> bool" where
  "remembers hp hp' \<longleftrightarrow> length hp \<le> length hp' \<and> (\<forall>a<length hp. view (hp' ! a) = view (hp ! a))"

lemma remembers_trans: "remembers hp hp1 \<Longrightarrow> remembers hp1 hp2 \<Longrightarrow> remembers hp hp2"
  by (auto simp: remembers_def)

lemma remembers_update: "remembers hp (hp[a := scope_reconfigure l now (hp ! a)])"
  by (cases "a < length hp") (auto simp: remembers_def nth_list_update view_reconfigure)

lemma remembers_map: "remembers hp (heap_map (scope_reconfigure l now) as hp)"
  unfolding heap_map_def
proof (induction as arbitrary: hp)
  case (Cons a as)
  from remembers_trans [OF remembers_update Cons.IH] show ?case by simp
qed (simp add: remembers_def)

lemma remembers_key: "remembers (snd mh) (snd (apply_key name now kl mh))"
  using remembers_update [of "snd mh"]
  by (auto simp: apply_key_def remembers_def nth_append split: option.split)

lemma remembers_keys: "remembers (snd mh) (snd (fold (apply_key name now) planned mh))"
proof (induction planned arbitrary: mh)
  case (Cons kl planned)
  from remembers_trans [OF remembers_key Cons.IH] show ?case by simp
qed (simp add: remembers_def)

lemma remembers_layer: "remembers (snd mh) (snd (apply_layer planned fallback name now mh))"
proof -
  define mh1 where "mh1 = (case fallback of
      Some l \<Rightarrow> (fst mh, heap_map (scope_reconfigure l now) (map snd (filter (\<lambda>(k, a). btree_get planned k = None) (fst mh))) (snd mh))
    | None \<Rightarrow> (filter (\<lambda>ka. \<not> (case ka of (k, a) \<Rightarrow> btree_get planned k = None)) (fst mh), snd mh))"
  have "remembers (snd mh) (snd mh1)"
    using remembers_map by (cases fallback) (auto simp: mh1_def remembers_def)
  from remembers_trans [OF this remembers_keys] show ?thesis
    unfolding apply_layer_def Let_def mh1_def by blast
qed

lemma plan_remembers: "remembers (ct_heap c) (ct_heap (apply_plan plan now c))"
proof -
  obtain ts hp1 ps hp2 tg hp3 als where
    l1: "apply_layer (pl_tenants plan) (Some (ct_default_tenant_limits c)) tenant_name now (ct_tenants c, planned_heap plan now c) = (ts, hp1)" and
    l2: "apply_layer (pl_principals plan) (Some (ct_default_principal_limits c)) principal_name now (ct_principals c, hp1) = (ps, hp2)" and
    l3: "apply_layer (pl_targets plan) None target_name now (ct_targets c, hp2) = (tg, hp3)" and
    l4: "apply_layer (pl_aliases plan) None alias_name now (ct_aliases c, hp3) = (als, ct_heap (apply_plan plan now c))"
    by (rule apply_plan_layers)
  have "remembers (ct_heap c) (planned_heap plan now c)"
    unfolding planned_heap_def using remembers_update by (simp add: at_scope_def)
  moreover have "remembers (planned_heap plan now c) hp1" "remembers hp1 hp2" "remembers hp2 hp3"
    "remembers hp3 (ct_heap (apply_plan plan now c))"
    using remembers_layer [of "(ct_tenants c, planned_heap plan now c)"] remembers_layer [of "(ct_principals c, hp1)"]
      remembers_layer [of "(ct_targets c, hp2)"] remembers_layer [of "(ct_aliases c, hp3)"] l1 l2 l3 l4 by (metis snd_conv)+
  ultimately show ?thesis by (metis remembers_trans)
qed

end

text \<open>Everything a scope has counted: slots, waiting line, spend, period and the conservation counters.\<close>

definition accounting :: "scope \<Rightarrow> string \<times> nat \<times> nat \<times> queue_state \<times> nat \<times> nat \<times> nat \<times> nat" where
  "accounting s = (sc_name s, sc_in_flight s, sc_queued s, sc_queue s, sc_spent s, sc_period_start s, sc_acquired s, sc_released s)"

interpretation publication: scope_memory accounting
  by unfold_locales (simp add: accounting_def scope_reconfigure_def)

subsection \<open>Enforcement\<close>

lemma value_key:
  assumes "distinct (map snd m)" "btree_get m k = Some a" "btree_get m k' = Some a"
  shows "k = k'"
proof -
  have "(k, a) \<in> set m" "(k', a) \<in> set m" using assms(2,3) by (auto simp: btree_get_def dest: map_of_SomeD)
  with assms(1) show ?thesis by (metis distinct_map inj_onD prod.inject snd_conv)
qed

lemma layer_okD:
  assumes "layer_ok rest (m, hp)"
  shows "distinct (map snd m)" "btree_get m k = Some a \<Longrightarrow> a < length hp" "b \<in> set rest \<Longrightarrow> b < length hp"
    "b \<in> set rest \<Longrightarrow> btree_get m k \<noteq> Some b"
proof -
  have d: "distinct (rest @ map snd m)" "\<forall>a\<in>set (rest @ map snd m). a < length hp" using assms by (simp_all add: layer_ok_def)
  show "distinct (map snd m)" "b \<in> set rest \<Longrightarrow> b < length hp" using d by auto
  show "btree_get m k = Some a \<Longrightarrow> a < length hp" using d(2) btree_get_value [of m k a] by auto
  show "b \<in> set rest \<Longrightarrow> btree_get m k \<noteq> Some b" using d(1) btree_get_value [of m k b] by auto
qed

lemma apply_key_same:
  assumes "layer_ok rest mh"
  shows "btree_get (fst mh) k = Some a \<Longrightarrow> btree_get (fst (apply_key name now (k, l) mh)) k = Some a \<and>
      snd (apply_key name now (k, l) mh) ! a = scope_reconfigure l now (snd mh ! a)"
    and "btree_get (fst mh) k = None \<Longrightarrow> \<exists>a. btree_get (fst (apply_key name now (k, l) mh)) k = Some a \<and>
      snd (apply_key name now (k, l) mh) ! a = scope_new (name k) l now"
  using assms layer_okD(2) [of rest "fst mh" "snd mh" k]
  by (auto simp: apply_key_def btree_get_insert)

lemma apply_key_other:
  assumes "layer_ok rest mh" "btree_get (fst mh) k = Some a" "k \<noteq> fst kl"
  shows "btree_get (fst (apply_key name now kl mh)) k = Some a \<and> snd (apply_key name now kl mh) ! a = snd mh ! a"
proof -
  obtain m hp where mh: "mh = (m, hp)" by fastforce
  note ok = layer_okD [OF assms(1) [unfolded mh]]
  show ?thesis
  proof (cases "btree_get m (fst kl)")
    case None
    with assms(2,3) ok(2) [of k a] show ?thesis by (simp add: apply_key_def mh btree_get_insert nth_append)
  next
    case (Some b)
    with value_key [OF ok(1), of k a "fst kl"] assms(2,3) mh have "b \<noteq> a" by auto
    with Some assms(2) show ?thesis by (simp add: apply_key_def mh)
  qed
qed

lemma apply_keys_other:
  "layer_ok rest mh \<Longrightarrow> btree_get (fst mh) k = Some a \<Longrightarrow> k \<notin> set (map fst planned) \<Longrightarrow>
     btree_get (fst (fold (apply_key name now) planned mh)) k = Some a \<and> snd (fold (apply_key name now) planned mh) ! a = snd mh ! a"
proof (induction planned arbitrary: mh)
  case (Cons kl planned)
  note step = apply_key_ok(1) [OF Cons.prems(1), of name now kl]
  from apply_key_other [OF Cons.prems(1,2), of kl name now] Cons.prems(3) Cons.IH [OF step] show ?case by simp
qed simp

lemma apply_key_fresh: "btree_get (fst mh) k = None \<Longrightarrow> k \<noteq> fst kl \<Longrightarrow> btree_get (fst (apply_key name now kl mh)) k = None"
  by (auto simp: apply_key_def btree_get_insert split: option.split)

text \<open>Every planned key ends up with a scope: the one it had, reconfigured once, or a new one.\<close>

lemma apply_keys_existing:
  "layer_ok rest mh \<Longrightarrow> distinct (map fst planned) \<Longrightarrow> (k, l) \<in> set planned \<Longrightarrow> btree_get (fst mh) k = Some a \<Longrightarrow>
     btree_get (fst (fold (apply_key name now) planned mh)) k = Some a \<and>
     snd (fold (apply_key name now) planned mh) ! a = scope_reconfigure l now (snd mh ! a)"
proof (induction planned arbitrary: mh)
  case (Cons kl planned)
  note step = apply_key_ok(1) [OF Cons.prems(1), of name now kl]
  show ?case
  proof (cases "kl = (k, l)")
    case True
    with apply_key_same(1) [OF Cons.prems(1,4), of name now l] apply_keys_other [OF step, of k a planned name now] Cons.prems(2)
    show ?thesis by simp
  next
    case False
    with Cons.prems(3) have p: "(k, l) \<in> set planned" by simp
    then have "k \<noteq> fst kl" using Cons.prems(2) by (metis distinct.simps(2) fst_conv image_eqI list.map(2) set_map)
    with p Cons.IH [OF step] apply_key_other [OF Cons.prems(1,4), of kl name now] Cons.prems(2) show ?thesis by simp
  qed
qed simp

lemma apply_keys_created:
  "layer_ok rest mh \<Longrightarrow> distinct (map fst planned) \<Longrightarrow> (k, l) \<in> set planned \<Longrightarrow> btree_get (fst mh) k = None \<Longrightarrow>
     \<exists>a. btree_get (fst (fold (apply_key name now) planned mh)) k = Some a \<and>
       snd (fold (apply_key name now) planned mh) ! a = scope_new (name k) l now"
proof (induction planned arbitrary: mh)
  case (Cons kl planned)
  note step = apply_key_ok(1) [OF Cons.prems(1), of name now kl]
  show ?case
  proof (cases "kl = (k, l)")
    case True
    with apply_key_same(2) [OF Cons.prems(1,4), of name now l] apply_keys_other [OF step, of k _ planned name now] Cons.prems(2)
    show ?thesis by fastforce
  next
    case False
    with Cons.prems(3) have p: "(k, l) \<in> set planned" by simp
    then have "k \<noteq> fst kl" using Cons.prems(2) by (metis distinct.simps(2) fst_conv image_eqI list.map(2) set_map)
    with p Cons.IH [OF step] apply_key_fresh [OF Cons.prems(4), of kl name now] Cons.prems(2) show ?thesis by simp
  qed
qed simp

lemma apply_key_rest:
  assumes "layer_ok rest mh" "b \<in> set rest"
  shows "snd (apply_key name now kl mh) ! b = snd mh ! b"
proof -
  obtain m hp where mh: "mh = (m, hp)" by fastforce
  note ok = layer_okD [OF assms(1) [unfolded mh]]
  from ok(4) [OF assms(2), of "fst kl"] ok(3) [OF assms(2)] show ?thesis
    by (cases "btree_get m (fst kl)") (auto simp: apply_key_def mh nth_append)
qed

lemma apply_keys_rest: "layer_ok rest mh \<Longrightarrow> b \<in> set rest \<Longrightarrow> snd (fold (apply_key name now) planned mh) ! b = snd mh ! b"
proof (induction planned arbitrary: mh)
  case (Cons kl planned)
  from Cons.IH [OF apply_key_ok(1) [OF Cons.prems(1)] Cons.prems(2)] apply_key_rest [OF Cons.prems] show ?case by simp
qed simp

lemma apply_layer_start:
  assumes "layer_ok rest mh"
  obtains mh1 where "apply_layer planned fallback name now mh = fold (apply_key name now) planned mh1" "layer_ok rest mh1"
    "\<And>b. b \<in> set rest \<Longrightarrow> snd mh1 ! b = snd mh ! b"
    "\<And>k. btree_get planned k \<noteq> None \<Longrightarrow> btree_get (fst mh1) k = btree_get (fst mh) k"
    "\<And>k a. btree_get planned k \<noteq> None \<Longrightarrow> btree_get (fst mh) k = Some a \<Longrightarrow> snd mh1 ! a = snd mh ! a"
proof -
  obtain m hp where mh: "mh = (m, hp)" by fastforce
  let ?un = "\<lambda>(k, a :: nat). btree_get planned k = None"
  have d: "distinct (rest @ map snd m)" "\<forall>a\<in>set (rest @ map snd m). a < length hp" using assms by (simp_all add: mh layer_ok_def)
  show thesis
  proof (cases fallback)
    case None
    have "mset (rest @ map snd (filter (\<lambda>ka. \<not> ?un ka) m)) \<subseteq># mset (rest @ map snd m)"
      using filter_snd_submset [of "\<lambda>ka. \<not> ?un ka" m] by simp
    from distinct_submset [OF this d(1)] assms have "layer_ok rest (filter (\<lambda>ka. \<not> ?un ka) m, hp)"
      by (auto simp: mh layer_ok_def)
    moreover have "btree_get (filter (\<lambda>ka. \<not> ?un ka) m) k = btree_get m k" if "btree_get planned k \<noteq> None" for k
      using that by (induction m) (auto simp: btree_get_def)
    ultimately show thesis
      using None that [of "(filter (\<lambda>ka. \<not> ?un ka) m, hp)"] by (simp add: apply_layer_def mh Let_def)
  next
    case (Some l)
    let ?as = "map snd (filter ?un m)"
    have as: "distinct ?as" "set ?as \<subseteq> set (map snd m)"
      using d(1) distinct_submset [OF filter_snd_submset, of m] by auto
    have "layer_ok rest (m, heap_map (scope_reconfigure l now) ?as hp)"
      using assms by (auto simp: mh layer_ok_def intro: heap_ok_map reconfigure_ok)
    moreover have same: "heap_map (scope_reconfigure l now) ?as hp ! b = hp ! b" if "b \<notin> set ?as" for b
    proof -
      have "\<forall>a\<in>set ?as. a < length hp" using as(2) d(2) by auto
      with that show ?thesis using heap_map_nth [OF as(1), of hp _ b] by simp
    qed
    moreover have "b \<notin> set ?as" if "b \<in> set rest" for b using that d(1) as(2) by auto
    moreover have "a \<notin> set ?as" if "btree_get planned k \<noteq> None" "btree_get m k = Some a" for k a
    proof
      assume "a \<in> set ?as"
      then obtain k' where "(k', a) \<in> set m" "btree_get planned k' = None" by auto
      moreover have "(k, a) \<in> set m" using that(2) by (auto simp: btree_get_def dest: map_of_SomeD)
      moreover have "inj_on snd (set m)" using d(1) by (simp add: distinct_map)
      ultimately show False using that(1) by (metis inj_onD prod.inject snd_conv)
    qed
    ultimately show thesis
      using Some that [of "(m, heap_map (scope_reconfigure l now) ?as hp)"] by (simp add: apply_layer_def mh Let_def)
  qed
qed

lemma apply_layer_rest:
  "layer_ok rest mh \<Longrightarrow> b \<in> set rest \<Longrightarrow> snd (apply_layer planned fallback name now mh) ! b = snd mh ! b"
  by (metis apply_layer_start apply_keys_rest)

text \<open>
  A scope enforces limits when it carries them and its buckets are those of the stated rates: requests per second and
  tokens per minute refill at their rate up to their burst, a rate of zero has no bucket.
\<close>

definition rate_in_force :: "nat \<Rightarrow> nat \<Rightarrow> nat \<Rightarrow> bucket option \<Rightarrow> bool" where
  "rate_in_force rate refill capacity slot \<longleftrightarrow>
     (if rate = 0 then slot = None
      else \<exists>b. slot = Some b \<and> bk_refill_milli_per_ms b = refill \<and> bk_capacity_milli b = capacity \<and> bk_level_milli b \<le> capacity)"

definition in_force :: "scope_limits \<Rightarrow> scope \<Rightarrow> bool" where
  "in_force l s \<longleftrightarrow> sc_limits s = l \<and>
     rate_in_force (requests_per_second l) (requests_per_second l)
       (sat_mul64 (max (max (request_burst l) (requests_per_second l)) 1) 1000) (sc_request_bucket s) \<and>
     rate_in_force (tokens_per_minute l) (sat_mul64 (tokens_per_minute l) 1000 div 60000)
       (sat_mul64 (max (max (token_burst l) (div_ceil (tokens_per_minute l) 60)) 1) 1000) (sc_token_bucket s)"

text \<open>A bucket that stays keeps what is in it, up to the new capacity, and what it owes.\<close>

definition slot_kept :: "nat \<Rightarrow> bucket option \<Rightarrow> bucket option \<Rightarrow> bool" where
  "slot_kept now slot slot' \<longleftrightarrow> (\<forall>b b'. slot = Some b \<and> slot' = Some b' \<longrightarrow>
     bk_level_milli b' = min (bk_level_milli (bucket_refill now b)) (bk_capacity_milli b') \<and>
     bk_debt_milli b' = bk_debt_milli (bucket_refill now b))"

definition buckets_kept :: "nat \<Rightarrow> scope \<Rightarrow> scope \<Rightarrow> bool" where
  "buckets_kept now s s' \<longleftrightarrow>
     slot_kept now (sc_request_bucket s) (sc_request_bucket s') \<and> slot_kept now (sc_token_bucket s) (sc_token_bucket s')"

lemmas rate_defs = rate_in_force_def request_shape_def token_shape_def shape_per_second_def shape_per_minute_def

lemma reconfigure_in_force: "in_force l (scope_reconfigure l now s)" "buckets_kept now s (scope_reconfigure l now s)"
  by (auto simp: in_force_def rate_defs scope_reconfigure_def reshape_def bucket_retune_def bucket_full_def
      buckets_kept_def slot_kept_def Let_def split: option.split)

lemma new_in_force: "in_force l (scope_new name l now)"
  by (auto simp: in_force_def rate_defs scope_new_def bucket_full_def)

lemma apply_layer_planned:
  assumes "layer_ok rest mh" "btree_wf planned" "(k, l) \<in> set planned"
  shows "\<exists>a. btree_get (fst (apply_layer planned fallback name now mh)) k = Some a \<and>
     in_force l (snd (apply_layer planned fallback name now mh) ! a) \<and>
     (\<forall>a0. btree_get (fst mh) k = Some a0 \<longrightarrow>
        a = a0 \<and> buckets_kept now (snd mh ! a) (snd (apply_layer planned fallback name now mh) ! a))"
proof -
  have d: "distinct (map fst planned)" using assms(2) by (simp add: btree_wf_def strict_sorted_iff)
  have k: "btree_get planned k \<noteq> None" using weak_map_of_SomeI [OF assms(3)] by (simp add: btree_get_def)
  obtain mh1 where mh1: "apply_layer planned fallback name now mh = fold (apply_key name now) planned mh1" "layer_ok rest mh1"
    "btree_get (fst mh1) k = btree_get (fst mh) k" "\<And>a. btree_get (fst mh) k = Some a \<Longrightarrow> snd mh1 ! a = snd mh ! a"
    by (rule apply_layer_start [OF assms(1), of planned fallback name now]) (use k in blast)
  show ?thesis
  proof (cases "btree_get (fst mh) k")
    case None
    then show ?thesis using apply_keys_created [OF mh1(2) d assms(3), of name now] mh1(1,3) new_in_force by force
  next
    case (Some a)
    then show ?thesis
      using apply_keys_existing [OF mh1(2) d assms(3), of a name now] mh1(3) mh1(4) [OF Some]
      by (intro exI [of _ a]) (simp add: mh1(1) reconfigure_in_force)
  qed
qed

definition plan_wf :: "admission_plan \<Rightarrow> bool" where
  "plan_wf plan \<longleftrightarrow> btree_wf (pl_tenants plan) \<and> btree_wf (pl_principals plan) \<and> btree_wf (pl_targets plan) \<and> btree_wf (pl_aliases plan)"

definition enforced ::
  "nat \<Rightarrow> ('k, scope_limits) btree_map \<Rightarrow> ('k, nat) btree_map \<times> scope list \<Rightarrow> ('k, nat) btree_map \<times> scope list \<Rightarrow> bool" where
  "enforced now planned old new \<longleftrightarrow> (\<forall>(k, l)\<in>set planned. \<exists>a. btree_get (fst new) k = Some a \<and> in_force l (snd new ! a) \<and>
     (\<forall>a0. btree_get (fst old) k = Some a0 \<longrightarrow> a = a0 \<and> buckets_kept now (snd old ! a) (snd new ! a)))"

lemma layer_enforced:
  "layer_ok rest mh \<Longrightarrow> btree_wf planned \<Longrightarrow> enforced now planned mh (apply_layer planned fallback name now mh)"
  using apply_layer_planned [of rest mh planned] by (fastforce simp: enforced_def)

text \<open>What happens to the scopes of the other layers does not matter.\<close>

lemma enforced_rest:
  assumes "enforced now planned (m0, hp0) (m, hp)" "\<And>b. b \<in> set (map snd m) \<Longrightarrow> hp' ! b = hp ! b"
    "\<And>b. b \<in> set (map snd m0) \<Longrightarrow> hp0 ! b = hp0' ! b"
  shows "enforced now planned (m0, hp0') (m, hp')"
  unfolding enforced_def
proof (clarify, unfold fst_conv snd_conv)
  fix k l assume kl: "(k, l) \<in> set planned"
  obtain a where a: "btree_get m k = Some a" "in_force l (hp ! a)"
    "\<forall>a0. btree_get m0 k = Some a0 \<longrightarrow> a = a0 \<and> buckets_kept now (hp0 ! a) (hp ! a)"
    using bspec [OF assms(1) [unfolded enforced_def fst_conv snd_conv] kl] unfolding prod.case by blast
  from assms(2) [OF btree_get_value [OF a(1)]] have hp: "hp' ! a = hp ! a" .
  have "a = a0 \<and> buckets_kept now (hp0' ! a) (hp' ! a)" if a0: "btree_get m0 k = Some a0" for a0
  proof -
    have "a = a0" and b: "buckets_kept now (hp0 ! a) (hp ! a)" using a(3) a0 by blast+
    with assms(3) [OF btree_get_value [OF a0]] have "hp0 ! a = hp0' ! a" by simp
    with b hp \<open>a = a0\<close> show ?thesis by metis
  qed
  with a(1,2) hp show "\<exists>a. btree_get m k = Some a \<and> in_force l (hp' ! a) \<and>
      (\<forall>a0. btree_get m0 k = Some a0 \<longrightarrow> a = a0 \<and> buckets_kept now (hp0' ! a) (hp' ! a))"
    by metis
qed

lemma planned_heap_rest: "b \<noteq> ct_global c \<Longrightarrow> planned_heap plan now c ! b = ct_heap c ! b"
  by (simp add: planned_heap_def at_scope_def)

lemma publication_enforced_parts:
  assumes "ctrl_wf c" "plan_wf plan" "c' = apply_plan plan now c"
  shows "enforced now (pl_tenants plan) (ct_tenants c, ct_heap c) (ct_tenants c', ct_heap c')"
    "enforced now (pl_principals plan) (ct_principals c, ct_heap c) (ct_principals c', ct_heap c')"
    "enforced now (pl_targets plan) (ct_targets c, ct_heap c) (ct_targets c', ct_heap c')"
    "enforced now (pl_aliases plan) (ct_aliases c, ct_heap c) (ct_aliases c', ct_heap c')"
    "in_force (pl_global plan) (ct_heap c' ! ct_global c')"
    "buckets_kept now (ct_heap c ! ct_global c) (ct_heap c' ! ct_global c')" "ct_global c' = ct_global c"
    "\<And>a. a < length (ct_heap c) \<Longrightarrow> accounting (ct_heap c' ! a) = accounting (ct_heap c ! a)"
proof -
  obtain ts hp1 ps hp2 tg hp3 als where
    l1: "apply_layer (pl_tenants plan) (Some (ct_default_tenant_limits c)) tenant_name now (ct_tenants c, planned_heap plan now c) = (ts, hp1)" and
    l2: "apply_layer (pl_principals plan) (Some (ct_default_principal_limits c)) principal_name now (ct_principals c, hp1) = (ps, hp2)" and
    l3: "apply_layer (pl_targets plan) None target_name now (ct_targets c, hp2) = (tg, hp3)" and
    l4: "apply_layer (pl_aliases plan) None alias_name now (ct_aliases c, hp3) = (als, ct_heap c')" and
    c': "ct_tenants c' = ts" "ct_principals c' = ps" "ct_targets c' = tg" "ct_aliases c' = als" "ct_global c' = ct_global c"
    unfolding assms(3) by (rule apply_plan_layers)
  let ?g = "ct_global c"
  note k1 = planned_heap_ok [OF assms(1), of plan now]
  have k2: "layer_ok (?g # map snd ts @ map snd (ct_targets c) @ map snd (ct_aliases c)) (ct_principals c, hp1)"
    by (rule layer_swap [OF conjunct1 [OF apply_layer_ok [OF k1, of "pl_tenants plan" "Some (ct_default_tenant_limits c)" tenant_name now, unfolded l1]]]) simp
  have k3: "layer_ok (?g # map snd ts @ map snd ps @ map snd (ct_aliases c)) (ct_targets c, hp2)"
    by (rule layer_swap [OF conjunct1 [OF apply_layer_ok [OF k2, of "pl_principals plan" "Some (ct_default_principal_limits c)" principal_name now, unfolded l2]]]) simp
  have k4: "layer_ok (?g # map snd ts @ map snd ps @ map snd tg) (ct_aliases c, hp3)"
    by (rule layer_swap [OF conjunct1 [OF apply_layer_ok [OF k3, of "pl_targets plan" None target_name now, unfolded l3]]]) simp
  note r1 = apply_layer_rest [OF k1, of _ "pl_tenants plan" "Some (ct_default_tenant_limits c)" tenant_name now, unfolded l1 snd_conv]
  note r2 = apply_layer_rest [OF k2, of _ "pl_principals plan" "Some (ct_default_principal_limits c)" principal_name now, unfolded l2 snd_conv]
  note r3 = apply_layer_rest [OF k3, of _ "pl_targets plan" None target_name now, unfolded l3 snd_conv]
  note r4 = apply_layer_rest [OF k4, of _ "pl_aliases plan" None alias_name now, unfolded l4 snd_conv]
  note d = assms(2) [unfolded plan_wf_def]
  have "distinct (addrs c)" using assms(1) by (simp add: ctrl_wf_def)
  then have g: "planned_heap plan now c ! b = ct_heap c ! b"
    if "b \<in> set (map snd (ct_tenants c) @ map snd (ct_principals c) @ map snd (ct_targets c) @ map snd (ct_aliases c))" for b
    using that by (intro planned_heap_rest) (auto simp: addrs_def)
  note e1 = layer_enforced [OF k1, of "pl_tenants plan" now "Some (ct_default_tenant_limits c)" tenant_name, unfolded l1]
  show "enforced now (pl_tenants plan) (ct_tenants c, ct_heap c) (ct_tenants c', ct_heap c')"
    unfolding c' by (rule enforced_rest [OF e1]) (use d in \<open>simp_all add: r2 r3 r4 g\<close>)
  note e2 = layer_enforced [OF k2, of "pl_principals plan" now "Some (ct_default_principal_limits c)" principal_name, unfolded l2]
  show "enforced now (pl_principals plan) (ct_principals c, ct_heap c) (ct_principals c', ct_heap c')"
    unfolding c' by (rule enforced_rest [OF e2]) (use d in \<open>simp_all add: r1 r3 r4 g\<close>)
  note e3 = layer_enforced [OF k3, of "pl_targets plan" now None target_name, unfolded l3]
  show "enforced now (pl_targets plan) (ct_targets c, ct_heap c) (ct_targets c', ct_heap c')"
    unfolding c' by (rule enforced_rest [OF e3]) (use d in \<open>simp_all add: r1 r2 r4 g\<close>)
  note e4 = layer_enforced [OF k4, of "pl_aliases plan" now None alias_name, unfolded l4]
  show "enforced now (pl_aliases plan) (ct_aliases c, ct_heap c) (ct_aliases c', ct_heap c')"
    unfolding c' by (rule enforced_rest [OF e4]) (use d in \<open>simp_all add: r1 r2 r3 g\<close>)
  have "?g < length (ct_heap c)" using assms(1) by (simp add: ctrl_wf_def addrs_def)
  then have "ct_heap c' ! ?g = scope_reconfigure (pl_global plan) now (ct_heap c ! ?g)"
    using r1 r2 r3 r4 by (simp add: planned_heap_def at_scope_def)
  then show "in_force (pl_global plan) (ct_heap c' ! ct_global c')"
    "buckets_kept now (ct_heap c ! ct_global c) (ct_heap c' ! ct_global c')"
    unfolding c' by (simp_all add: reconfigure_in_force)
  show "ct_global c' = ct_global c" by (rule c')
  show "accounting (ct_heap c' ! a) = accounting (ct_heap c ! a)" if "a < length (ct_heap c)" for a
    using publication.plan_remembers [of c plan now] that unfolding publication.remembers_def assms(3) by blast
qed

text \<open>
  C30: a publication takes effect at once and forgets nothing. After \<open>apply\<close>, every limit the plan states is in force on
  the scope its tenant, principal, target or alias is admitted through, and the plan's global limits on the global scope:
  the scope carries the limits, its request and token buckets refill at the stated rates up to the stated bursts, and
  a rate of zero has no bucket. A scope that existed is still the scope of its key, a bucket it keeps has what was left
  in it (at most the new capacity) and what it owed, so that a publication hands out no new burst; and every scope keeps its
  slots, waiting line, spend, budget period and counters.
\<close>

theorem publication_enforced:
  assumes "ctrl_wf c" "plan_wf plan" "c' = apply_plan plan now c"
  shows "enforced now (pl_tenants plan) (ct_tenants c, ct_heap c) (ct_tenants c', ct_heap c') \<and>
    enforced now (pl_principals plan) (ct_principals c, ct_heap c) (ct_principals c', ct_heap c') \<and>
    enforced now (pl_targets plan) (ct_targets c, ct_heap c) (ct_targets c', ct_heap c') \<and>
    enforced now (pl_aliases plan) (ct_aliases c, ct_heap c) (ct_aliases c', ct_heap c') \<and>
    ct_global c' = ct_global c \<and> in_force (pl_global plan) (ct_heap c' ! ct_global c') \<and>
    buckets_kept now (ct_heap c ! ct_global c) (ct_heap c' ! ct_global c') \<and>
    (\<forall>a<length (ct_heap c). accounting (ct_heap c' ! a) = accounting (ct_heap c ! a))"
  using publication_enforced_parts [OF assms] by blast

section \<open>Concrete runs\<close>

definition ex_controller :: controller where
  "ex_controller = at_scope 1 (\<lambda>s. s\<lparr>sc_in_flight := 1\<rparr>)
     (configure_target ''gpu'' ex_limits 0 (controller_new 0 (UNLIMITED\<lparr>max_concurrency := 4\<rparr>)))"

lemma ex_controller_wf: "ctrl_wf ex_controller"
  unfolding ex_controller_def
  by (intro at_scope_wf wf_configure adm_inv_wf [OF adm_inv_new]) (simp add: scope_ok_def)

lemmas admission_eval = ex_controller_def ex_limits_def UNLIMITED_def controller_new_def configure_target_def alloc_def at_scope_def
  acquire_chain_def chain_def tenant_scope_def principal_scope_def target_scope_def btree_get_def opt_list_def
  try_scope_def scope_ticket_def try_acquire_as_def scope_new_def request_shape_def token_shape_def slot_take_def
  queue_head_def min_by_key_def heap_map_def scope_rollback_def Let_def

lemma ex_refused: "\<exists>c'. acquire_chain ''acme'' ''alice'' None ''gpu'' 100 None (MTake Standard None) 7 ex_controller =
   (Inl (ConcurrencyExhausted, target_name ''gpu''), c')"
  by (simp add: admission_eval)

theorem acquire_chain_all_or_nothing_witness:
  "\<exists>c' new. fst (acquire_chain ''acme'' ''alice'' None ''gpu'' 100 None (MTake Standard None) 7 ex_controller) =
       Inl (ConcurrencyExhausted, target_name ''gpu'') \<and>
     c' = snd (acquire_chain ''acme'' ''alice'' None ''gpu'' 100 None (MTake Standard None) 7 ex_controller) \<and>
     map (settled 7) (ct_heap c') = map (settled 7) (ct_heap ex_controller @ new)"
proof -
  from ex_refused obtain c' where c': "acquire_chain ''acme'' ''alice'' None ''gpu'' 100 None (MTake Standard None) 7 ex_controller =
      (Inl (ConcurrencyExhausted, target_name ''gpu''), c')" by blast
  from acquire_chain_all_or_nothing [OF ex_controller_wf c'] c' show ?thesis by auto
qed

lemma ex_taken: "\<exists>s. try_scope 100 7 None (ct_heap (controller_new 0 ex_limits) ! 0) = (None, s)"
  by (simp add: admission_eval)

lemma ex_begun: "adm_reachable (controller_new 0 l, {#[]#})"
  using adm_begin [of "controller_new 0 l" "{#}"] by (auto simp: adm_reachable_def)

theorem capacity_conserved_witness:
  "\<exists>c. adm_reachable (c, {#[0]#}) \<and> sc_in_flight (ct_heap c ! 0) = 1"
proof -
  let ?c = "controller_new 0 ex_limits"
  obtain s where s: "try_scope 100 7 None (ct_heap ?c ! 0) = (None, s)" using ex_taken by blast
  define c where "c = ?c\<lparr>ct_heap := (ct_heap ?c)[0 := s]\<rparr>"
  have len: "0 < length (ct_heap ?c)" by (simp add: controller_new_def)
  from adm_take [OF len s, of "[]" "{#}"] have "adm_step (?c, {#[]#}) (c, {#[0]#})" by (simp add: c_def)
  with ex_begun [of ex_limits] have r: "adm_reachable (c, {#[0]#})"
    by (auto simp: adm_reachable_def intro: rtranclp.rtrancl_into_rtrancl)
  have "0 < length (ct_heap c)" using len by (simp add: c_def)
  from capacity_conserved [OF r this] r show ?thesis by auto
qed

theorem concurrency_bound_witness: "holds_on 0 {#[0]#} \<le> max_concurrency (sc_limits (ct_heap (controller_new 0 ex_limits) ! 0))"
proof -
  obtain s where s: "try_scope 100 7 None (ct_heap (controller_new 0 ex_limits) ! 0) = (None, s)" using ex_taken by blast
  from concurrency_bound [OF ex_begun _ s] show ?thesis
    by (simp add: controller_new_def scope_new_def ex_limits_def)
qed

lemma ex_granted: "\<exists>r c'. acquire_chain ''acme'' ''alice'' None ''gpu'' 100 None (MTake Standard None) 7 (controller_new 0 ex_limits) =
   (Inr r, c') \<and> rv_scopes r = [0, 1, 2]"
  by (simp add: admission_eval machine_for_def)

theorem reservation_refines_witness:
  "\<exists>c'. adm_step\<^sup>*\<^sup>* (controller_new 0 ex_limits, {#}) (c', {#[0, 1, 2]#})"
proof -
  from ex_granted obtain r c' where
    g: "acquire_chain ''acme'' ''alice'' None ''gpu'' 100 None (MTake Standard None) 7 (controller_new 0 ex_limits) = (Inr r, c')"
    and r: "rv_scopes r = [0, 1, 2]" by blast
  from reservation_refines [OF adm_inv_wf [OF adm_inv_new]] g r show ?thesis by metis
qed

definition ex_plan :: admission_plan where
  "ex_plan = (plan_new ex_limits)\<lparr>pl_tenants := [(''acme'', ex_limits\<lparr>requests_per_second := 7\<rparr>)]\<rparr>"

theorem publication_enforced_witness:
  "\<exists>a b. btree_get (ct_tenants (apply_plan ex_plan 5 ex_controller)) ''acme'' = Some a \<and>
     sc_request_bucket (ct_heap (apply_plan ex_plan 5 ex_controller) ! a) = Some b \<and>
     bk_refill_milli_per_ms b = 7 \<and> bk_capacity_milli b = 7000"
proof -
  have "plan_wf ex_plan" by (simp add: plan_wf_def ex_plan_def plan_new_def btree_wf_def)
  from publication_enforced [OF ex_controller_wf this refl, of 5] show ?thesis
    by (auto simp: ex_plan_def enforced_def in_force_def rate_in_force_def ex_limits_def UNLIMITED_def sat_mul64_def
        sat_u64_def u64_max_def)
qed

end
