(* ===== verification/Clock.thy ===== *)
theory Clock
  imports Prelude
begin

text \<open>
  Time arithmetic (\<open>hypellm-core/src/time.rs\<close>): deadlines, the fixed-point moving average, fixed-bucket
  histograms, calendar conversion and the clock-step monitor. Clock readings are arguments; the clocks
  themselves are the operating system's. Atomic counters that wrap are written with \<open>mod\<close>.
\<close>

section \<open>Deadlines\<close>

record deadline_at =
  at_millis :: nat

definition deadline_after :: "nat \<Rightarrow> nat \<Rightarrow> deadline_at" where
  "deadline_after now budget_ms = \<lparr>at_millis = sat_add64 now (sat_u64 budget_ms)\<rparr>"

definition is_expired :: "deadline_at \<Rightarrow> nat \<Rightarrow> bool" where
  "is_expired d now = (now \<ge> at_millis d)"

definition deadline_remaining :: "deadline_at \<Rightarrow> nat \<Rightarrow> nat" where
  "deadline_remaining d now = at_millis d - now"

definition deadline_min :: "deadline_at \<Rightarrow> deadline_at \<Rightarrow> deadline_at" where
  "deadline_min d e = \<lparr>at_millis = min (at_millis d) (at_millis e)\<rparr>"

definition deadline_cap :: "deadline_at \<Rightarrow> nat \<Rightarrow> nat \<Rightarrow> nat" where
  "deadline_cap d now proposed = min proposed (deadline_remaining d now)"

section \<open>Moving average\<close>

definition EWMA_SCALE :: nat where "EWMA_SCALE = 1024"

record ewma =
  ew_scaled :: nat
  ew_alpha :: nat
  ew_initialised :: bool

definition ewma_new :: "nat \<Rightarrow> ewma" where
  "ewma_new alpha = \<lparr>ew_scaled = 0, ew_alpha = clamp_n 1 EWMA_SCALE alpha, ew_initialised = False\<rparr>"

definition ewma_smooth :: ewma where
  "ewma_smooth = ewma_new 102"

definition ewma_observe :: "nat \<Rightarrow> ewma \<Rightarrow> ewma" where
  "ewma_observe sample e =
     (let scaled_sample = sat_mul64 sample EWMA_SCALE
      in if \<not> ew_initialised e then e\<lparr>ew_initialised := True, ew_scaled := scaled_sample\<rparr>
         else e\<lparr>ew_scaled := sat_add64 (sat_mul64 (ew_scaled e) (EWMA_SCALE - ew_alpha e))
                               (sat_mul64 scaled_sample (ew_alpha e)) div EWMA_SCALE\<rparr>)"

definition ewma_value :: "ewma \<Rightarrow> nat option" where
  "ewma_value e = (if ew_initialised e then Some (ew_scaled e div EWMA_SCALE) else None)"

definition ewma_value_or :: "nat \<Rightarrow> ewma \<Rightarrow> nat" where
  "ewma_value_or d e = unwrap_or d (ewma_value e)"

section \<open>Histogram\<close>

definition LATENCY_BUCKETS_MS :: "nat list" where
  "LATENCY_BUCKETS_MS = [1, 2, 5, 10, 25, 50, 100, 250, 500, 1000, 2500, 5000, 10000, 30000, 60000, 120000]"

record histogram =
  hg_bounds :: "nat list"
  hg_counts :: "nat list"
  hg_sum :: nat
  hg_total :: nat

definition histogram_new :: "nat list \<Rightarrow> histogram" where
  "histogram_new bounds =
     \<lparr>hg_bounds = bounds, hg_counts = replicate (length bounds + 1) 0, hg_sum = 0, hg_total = 0\<rparr>"

definition latency_ms :: histogram where
  "latency_ms = histogram_new LATENCY_BUCKETS_MS"

text \<open>\<open>Iterator::position\<close>, with the length when no element qualifies.\<close>

fun position_or_end :: "('a \<Rightarrow> bool) \<Rightarrow> 'a list \<Rightarrow> nat" where
  "position_or_end p [] = 0"
| "position_or_end p (x # xs) = (if p x then 0 else Suc (position_or_end p xs))"

definition histogram_observe :: "nat \<Rightarrow> histogram \<Rightarrow> histogram" where
  "histogram_observe v h =
     (let idx = position_or_end (\<lambda>b. v \<le> b) (hg_bounds h)
      in h\<lparr>hg_counts := (if idx < length (hg_counts h)
                         then (hg_counts h)[idx := (hg_counts h ! idx + 1) mod 2 ^ 64] else hg_counts h),
           hg_sum := (hg_sum h + v) mod 2 ^ 64, hg_total := (hg_total h + 1) mod 2 ^ 64\<rparr>)"

fun cumulate :: "nat \<Rightarrow> nat list \<Rightarrow> nat list" where
  "cumulate acc [] = []"
| "cumulate acc (c # cs) = (acc + c) # cumulate (acc + c) cs"

definition histogram_buckets :: "histogram \<Rightarrow> (nat option \<times> nat) list" where
  "histogram_buckets h =
     zip (map Some (hg_bounds h) @ replicate (length (hg_counts h) - length (hg_bounds h)) None)
       (cumulate 0 (hg_counts h))"

fun quantile_scan :: "nat list \<Rightarrow> nat \<Rightarrow> nat \<Rightarrow> nat list \<Rightarrow> nat option" where
  "quantile_scan bounds target acc [] = None"
| "quantile_scan bounds target acc (c # cs) =
     (if acc + c \<ge> target then Some (case bounds of [] \<Rightarrow> u64_max | b # _ \<Rightarrow> b)
      else quantile_scan (case bounds of [] \<Rightarrow> [] | _ # bs \<Rightarrow> bs) target (acc + c) cs)"

definition quantile_upper_bound :: "nat \<Rightarrow> nat \<Rightarrow> histogram \<Rightarrow> nat option" where
  "quantile_upper_bound num den h =
     (if hg_total h = 0 \<or> den = 0 then None
      else quantile_scan (hg_bounds h) (max (div_ceil (sat_mul64 (hg_total h) num) den) 1) 0 (hg_counts h))"

section \<open>Calendar\<close>

definition civil_from_days :: "nat \<Rightarrow> nat \<times> nat \<times> nat" where
  "civil_from_days days =
     (let z = days + 719468;
          era = z div 146097;
          doe = z mod 146097;
          yoe = (doe - doe div 1460 + doe div 36524 - doe div 146096) div 365;
          y = yoe + era * 400;
          doy = doe - (365 * yoe + yoe div 4 - yoe div 100);
          mp = (5 * doy + 2) div 153;
          d = doy - (153 * mp + 2) div 5 + 1;
          m = (if mp < 10 then mp + 3 else mp - 9);
          y' = (if m \<le> 2 then y + 1 else y)
      in (y', m, d))"

text \<open>Rust's zero-padded formatting of an unsigned integer.\<close>

definition pad_nat :: "nat \<Rightarrow> nat \<Rightarrow> string" where
  "pad_nat width n = replicate (width - length (show_nat n)) CHR ''0'' @ show_nat n"

definition format_rfc3339 :: "nat \<Rightarrow> string" where
  "format_rfc3339 wall_millis =
     (let secs = wall_millis div 1000;
          millis = wall_millis mod 1000;
          days = secs div 86400;
          secs_of_day = secs mod 86400;
          (year, month, day) = civil_from_days days
      in pad_nat 4 year @ ''-'' @ pad_nat 2 month @ ''-'' @ pad_nat 2 day @ ''T'' @
         pad_nat 2 (secs_of_day div 3600) @ '':'' @ pad_nat 2 (secs_of_day mod 3600 div 60) @ '':'' @
         pad_nat 2 (secs_of_day mod 60) @ ''.'' @ pad_nat 3 millis @ ''Z'')"

section \<open>Stopwatch, signal and clock-step monitor\<close>

definition elapsed_micros :: "nat \<Rightarrow> nat \<Rightarrow> nat" where
  "elapsed_micros start now = now - start"

definition elapsed_millis :: "nat \<Rightarrow> nat \<Rightarrow> nat" where
  "elapsed_millis start now = elapsed_micros start now div 1000"

definition signal_notify :: "64 word \<Rightarrow> 64 word" where
  "signal_notify generation = generation + 1"

record clock_sync_monitor =
  cs_last :: "(nat \<times> nat) option"
  cs_max_skew :: nat
  cs_skew_events :: nat

definition monitor_new :: "nat \<Rightarrow> clock_sync_monitor" where
  "monitor_new max_skew = \<lparr>cs_last = None, cs_max_skew = max_skew, cs_skew_events = 0\<rparr>"

definition abs_diff :: "nat \<Rightarrow> nat \<Rightarrow> nat" where
  "abs_diff a b = (a - b) + (b - a)"

definition monitor_sample :: "nat \<Rightarrow> nat \<Rightarrow> clock_sync_monitor \<Rightarrow> bool \<times> clock_sync_monitor" where
  "monitor_sample mono_ms wall m =
     (let stepped = (case cs_last m of None \<Rightarrow> False
            | Some (prev_mono, prev_wall) \<Rightarrow>
                abs_diff (abs_diff wall prev_wall) (mono_ms - prev_mono) > cs_max_skew m)
      in (stepped, m\<lparr>cs_last := Some (mono_ms, wall),
                     cs_skew_events := (if stepped then (cs_skew_events m + 1) mod 2 ^ 64 else cs_skew_events m)\<rparr>))"

section \<open>The calendar is Gregorian\<close>

text \<open>The reference: the day after a date, by the lengths of the months and the leap-year rule.\<close>

definition leap_year :: "nat \<Rightarrow> bool" where
  "leap_year y \<longleftrightarrow> y mod 4 = 0 \<and> (y mod 100 \<noteq> 0 \<or> y mod 400 = 0)"

definition days_in_month :: "nat \<Rightarrow> nat \<Rightarrow> nat" where
  "days_in_month y m =
     (if m = 2 then (if leap_year y then 29 else 28)
      else if m \<in> {4, 6, 9, 11} then 30 else 31)"

fun next_day :: "nat \<times> nat \<times> nat \<Rightarrow> nat \<times> nat \<times> nat" where
  "next_day (y, m, d) =
     (if d < days_in_month y m then (y, m, d + 1)
      else if m < 12 then (y, m + 1, 1)
      else (y + 1, 1, 1))"

text \<open>Years count from March here: \<open>year_len\<close> is the length of the year that ends with February of \<open>y + 1\<close>.\<close>

definition year_start :: "nat \<Rightarrow> nat" where
  "year_start y = 365 * y + y div 4 - y div 100"

definition year_len :: "nat \<Rightarrow> nat" where
  "year_len y = (if leap_year (y + 1) then 366 else 365)"

lemma divmod_nat: "j < n \<Longrightarrow> (n * k + j) div n = (k :: nat)" "j < n \<Longrightarrow> (n * k + j) mod n = j"
  by simp_all

text \<open>A year of the 400-year cycle as century, leap cycle and year of the leap cycle.\<close>

definition cycle_year :: "nat \<Rightarrow> nat \<Rightarrow> nat \<Rightarrow> nat" where
  "cycle_year c q r = 100 * c + 4 * q + r"

lemma year_split: "(y :: nat) < 400 \<Longrightarrow> \<exists>c q r. c < 4 \<and> q < 25 \<and> r < 4 \<and> y = cycle_year c q r"
proof -
  assume y: "y < 400"
  have "y div 100 < 4" "y mod 100 div 4 < 25" "y mod 100 mod 4 < 4" using y by (simp_all add: less_mult_imp_div_less)
  moreover have "y = cycle_year (y div 100) (y mod 100 div 4) (y mod 100 mod 4)"
    unfolding cycle_year_def using div_mult_mod_eq [of y 100] div_mult_mod_eq [of "y mod 100" 4] by linarith
  ultimately show ?thesis by blast
qed

lemma cycle_year_start:
  assumes "q < 25" "r < 4"
  shows "year_start (cycle_year c q r) = 36524 * c + 1461 * q + 365 * r"
proof -
  have "cycle_year c q r div 4 = 25 * c + q"
    using divmod_nat(1) [of r 4 "25 * c + q"] assms by (simp add: cycle_year_def add_mult_distrib2)
  moreover have "cycle_year c q r div 100 = c"
    using divmod_nat(1) [of "4 * q + r" 100 c] assms by (simp add: cycle_year_def add.assoc)
  ultimately show ?thesis by (simp add: year_start_def cycle_year_def)
qed

lemma cycle_year_len:
  assumes "c < 4" "q < 25" "r < 4"
  shows "year_len (cycle_year c q r) = (if r = 3 \<and> (q \<noteq> 24 \<or> c = 3) then 366 else 365)"
proof -
  let ?y = "cycle_year c q r + 1"
  have m4: "?y mod 4 = (if r = 3 then 0 else r + 1)"
  proof (cases "r = 3")
    case True
    then have "?y = 4 * (25 * c + q + 1)" by (simp add: cycle_year_def)
    then show ?thesis using True by (metis mod_mult_self1_is_0)
  next
    case False
    then show ?thesis
      using divmod_nat(2) [of "r + 1" 4 "25 * c + q"] assms(3) by (simp add: cycle_year_def add_mult_distrib2)
  qed
  have m100: "?y mod 100 = (if r = 3 \<and> q = 24 then 0 else 4 * q + r + 1)"
  proof (cases "r = 3 \<and> q = 24")
    case True
    then have "?y = 100 * (c + 1)" by (simp add: cycle_year_def)
    then show ?thesis using True by (metis mod_mult_self1_is_0)
  next
    case False
    then have "4 * q + r + 1 < 100" using assms by auto
    with False show ?thesis using divmod_nat(2) [of "4 * q + r + 1" 100 c] by (auto simp: cycle_year_def add.assoc)
  qed
  have "?y mod 400 = 0 \<longleftrightarrow> c = 3 \<and> q = 24 \<and> r = 3"
  proof (cases "c = 3 \<and> q = 24 \<and> r = 3")
    case False
    then have "?y < 400" using assms by (auto simp: cycle_year_def)
    then show ?thesis using False by (simp add: cycle_year_def)
  qed (simp add: cycle_year_def)
  with m4 m100 show ?thesis by (auto simp: year_len_def leap_year_def)
qed

lemma year_start_Suc:
  assumes "y < 399"
  shows "year_start (Suc y) = year_start y + year_len y"
proof -
  obtain c q r where y: "c < 4" "q < 25" "r < 4" "y = cycle_year c q r" using year_split [of y] assms by auto
  consider "r < 3" | "r = 3" "q < 24" | "r = 3" "q = 24" "c < 3" using y assms by (force simp: cycle_year_def)
  then show ?thesis
  proof cases
    case 1
    then have "Suc y = cycle_year c q (r + 1)" using y by (simp add: cycle_year_def)
    with 1 y show ?thesis by (simp add: cycle_year_start cycle_year_len)
  next
    case 2
    then have "Suc y = cycle_year c (q + 1) 0" using y by (simp add: cycle_year_def)
    with 2 y show ?thesis by (simp add: cycle_year_start cycle_year_len)
  next
    case 3
    then have "Suc y = cycle_year (c + 1) 0 0" using y by (simp add: cycle_year_def)
    with 3 y show ?thesis by (simp add: cycle_year_start cycle_year_len)
  qed
qed

lemma year_start_399: "year_start 399 + year_len 399 = 146097"
  by (simp add: year_start_def year_len_def leap_year_def)

lemma year_start_le: "y < 400 \<Longrightarrow> year_start y + year_len y \<le> 146097"
proof (induction "399 - y" arbitrary: y)
  case 0
  then have "y = 399" by simp
  then show ?case using year_start_399 by simp
next
  case (Suc n)
  then have "year_start (Suc y) + year_len (Suc y) \<le> 146097" by (intro Suc(1)) simp_all
  with Suc(2) year_start_Suc [of y] show ?case by simp
qed

definition year_of_era :: "nat \<Rightarrow> nat" where
  "year_of_era doe = (doe - doe div 1460 + doe div 36524 - doe div 146096) div 365"

lemma year_of_era_correct:
  assumes "y < 400" "doy < year_len y"
  shows "year_of_era (year_start y + doy) = y"
proof -
  obtain c q r where y: "c < 4" "q < 25" "r < 4" "y = cycle_year c q r" using year_split [OF assms(1)] by blast
  define doe where "doe = year_start y + doy"
  have st: "doe = 36524 * c + 1461 * q + 365 * r + doy" using y by (simp add: doe_def cycle_year_start)
  have len: "doy \<le> 365" "doy = 365 \<Longrightarrow> r = 3 \<and> (q \<noteq> 24 \<or> c = 3)"
    using assms(2) y by (auto simp: cycle_year_len split: if_splits)
  define x where "x = 24 * c + q + 365 * r + doy"
  have x: "x < 2920" "doy = 365 \<Longrightarrow> 1460 \<le> x" "doy = 0 \<Longrightarrow> x < 1460" using y len by (auto simp: x_def)
  have "doe = 1460 * (25 * c + q) + x" by (simp add: st x_def)
  then have d1: "doe div 1460 = 25 * c + q + x div 1460" by simp
  have x1: "x div 1460 = (if x < 1460 then 0 else 1)" using x(1) by (auto intro: div_nat_eqI)
  have rest: "1461 * q + 365 * r + doy \<le> 36524" "c < 3 \<Longrightarrow> 1461 * q + 365 * r + doy < 36524"
    using y len by (cases "doy = 365"; auto)+
  have d2: "doe div 36524 - doe div 146096 = c \<and> doe div 146096 \<le> doe div 36524"
  proof (cases "1461 * q + 365 * r + doy = 36524")
    case True
    then have "c = 3" using rest(2) y(1) by (cases "c < 3") auto
    with True have "doe = 146096" by (simp add: st)
    then show ?thesis using \<open>c = 3\<close> by simp
  next
    case False
    then have "1461 * q + 365 * r + doy < 36524" using rest(1) by simp
    then have "doe div 36524 = c" "doe < 146096"
      using y(1) by (auto simp: st add.assoc intro: div_nat_eqI)
    then show ?thesis by simp
  qed
  have "doe - doe div 1460 + doe div 36524 - doe div 146096 = doe - doe div 1460 + c" using d2 by linarith
  moreover have "x div 1460 \<le> doy" using x x1 by (cases "doy = 0") auto
  then have "doe - doe div 1460 + c = 365 * y + (doy - x div 1460)"
    using d1 st y(4) unfolding cycle_year_def by linarith
  moreover have "doy - x div 1460 < 365" using x x1 len by (cases "doy = 365") auto
  ultimately show ?thesis
    unfolding year_of_era_def doe_def [symmetric] using divmod_nat(1) [of "doy - x div 1460" 365 y] by simp
qed

text \<open>The day of the year, counted from the first of March, as month and day.\<close>

definition month_day :: "nat \<Rightarrow> nat \<Rightarrow> nat \<times> nat \<times> nat" where
  "month_day y doy =
     (let mp = (5 * doy + 2) div 153;
          m = (if mp < 10 then mp + 3 else mp - 9)
      in (if m \<le> 2 then y + 1 else y, m, doy - (153 * mp + 2) div 5 + 1))"

lemma civil_from_days_eq:
  assumes "days + 719468 = 146097 * era + (year_start yoe + doy)" "yoe < 400" "doy < year_len yoe"
  shows "civil_from_days days = month_day (400 * era + yoe) doy"
proof -
  have "year_start yoe + year_len yoe \<le> 146097"
    using assms(2) year_start_le [of yoe] by simp
  then have lt: "year_start yoe + doy < 146097" using assms(3) by simp
  have dm: "(days + 719468) div 146097 = era" "(days + 719468) mod 146097 = year_start yoe + doy"
    unfolding assms(1) using divmod_nat [OF lt, of era] by blast+
  have y: "(year_start yoe + doy - (year_start yoe + doy) div 1460 + (year_start yoe + doy) div 36524
      - (year_start yoe + doy) div 146096) div 365 = yoe"
    using year_of_era_correct [OF assms(2,3)] by (simp only: year_of_era_def)
  show ?thesis
    unfolding civil_from_days_def dm Let_def y year_start_def [symmetric] month_day_def
    by (simp add: add.commute mult.commute)
qed

definition month_start :: "nat \<Rightarrow> nat" where
  "month_start k = (153 * k + 2) div 5"

lemma month_index:
  assumes "month_start k \<le> doy" "doy < month_start (Suc k)"
  shows "(5 * doy + 2) div 153 = k"
proof (rule div_nat_eqI)
  show "153 * k \<le> 5 * doy + 2" using assms(1) unfolding month_start_def by linarith
  have "5 * ((153 * Suc k + 2) div 5) \<le> 153 * Suc k + 2" by simp
  then show "5 * doy + 2 < 153 * Suc k" using assms(2) unfolding month_start_def by linarith
qed

lemma month_of:
  assumes "doy < 366"
  obtains k where "k < 12" "month_start k \<le> doy" "doy < month_start (Suc k)"
proof
  let ?k = "(5 * doy + 2) div 153"
  have b: "153 * ?k \<le> 5 * doy + 2" "5 * doy + 2 < 153 * Suc ?k" by (simp_all add: dividend_less_times_div)
  show "?k < 12" using assms by linarith
  show "month_start ?k \<le> doy" using b(1) unfolding month_start_def by linarith
  show "doy < month_start (Suc ?k)" using b(2) unfolding month_start_def by linarith
qed

lemma month_day_eq:
  assumes "month_start k \<le> doy" "doy < month_start (Suc k)" "k < 12"
  shows "month_day y doy = (if k < 10 then y else y + 1, if k < 10 then k + 3 else k - 9, doy - month_start k + 1)"
  unfolding month_day_def Let_def month_index [OF assms(1,2)] month_start_def using assms(3) by auto

lemma nat_12_cases:
  "(k :: nat) < 12 \<Longrightarrow> k = 0 \<or> k = 1 \<or> k = 2 \<or> k = 3 \<or> k = 4 \<or> k = 5 \<or> k = 6 \<or> k = 7 \<or> k = 8 \<or> k = 9 \<or> k = 10 \<or> k = 11"
  by arith

lemma month_step:
  assumes "doy + 1 < year_len y"
  shows "month_day y (doy + 1) = next_day (month_day y doy)"
proof -
  have len: "year_len y = (if leap_year (y + 1) then 366 else 365)" by (simp add: year_len_def)
  then have "doy < 366" using assms by (simp split: if_splits)
  then obtain k where k: "k < 12" "month_start k \<le> doy" "doy < month_start (Suc k)" by (rule month_of)
  have size: "month_start (Suc k) - month_start k = days_in_month (if k < 10 then y else y + 1) (if k < 10 then k + 3 else k - 9)" if "k \<noteq> 11"
    using nat_12_cases [OF k(1)] that by (auto simp: month_start_def days_in_month_def)
  note md = month_day_eq [OF k(2,3,1), of y]
  show ?thesis
  proof (cases "doy + 1 < month_start (Suc k)")
    case True
    have small: "doy - month_start k + 1 < days_in_month (if k < 10 then y else y + 1) (if k < 10 then k + 3 else k - 9)"
    proof (cases "k = 11")
      case True
      then show ?thesis using assms k len by (auto simp: month_start_def days_in_month_def split: if_splits)
    next
      case False
      from size [OF this] True k(2) show ?thesis by linarith
    qed
    from month_day_eq [OF _ True k(1)] k(2) have "month_day y (doy + 1) = (if k < 10 then y else y + 1, if k < 10 then k + 3 else k - 9, doy - month_start k + 2)"
      by simp
    with md small show ?thesis by simp
  next
    case False
    then have last: "doy + 1 = month_start (Suc k)" using k(3) by simp
    have "k \<noteq> 11" using last assms len by (auto simp: month_start_def split: if_splits)
    then have k': "Suc k < 12" using k(1) by simp
    have "(153 * Suc k + 2 + 5) div 5 \<le> (153 * Suc (Suc k) + 2) div 5" by (rule div_le_mono) simp
    then have grow: "month_start (Suc k) < month_start (Suc (Suc k))" unfolding month_start_def by simp
    from month_day_eq [of "Suc k" "doy + 1" y] last grow k'
    have "month_day y (doy + 1) = (if Suc k < 10 then y else y + 1, if Suc k < 10 then Suc k + 3 else Suc k - 9, 1)" by simp
    moreover have "doy - month_start k + 1 = days_in_month (if k < 10 then y else y + 1) (if k < 10 then k + 3 else k - 9)"
      using size [OF \<open>k \<noteq> 11\<close>] last k(2) by linarith
    ultimately show ?thesis using md k' by (auto simp: not_less)
  qed
qed

lemma year_step: "month_day (y + 1) 0 = next_day (month_day y (year_len y - 1))"
proof -
  have "month_start 11 \<le> year_len y - 1" "year_len y - 1 < month_start (Suc 11)" "11 < (12 :: nat)"
    by (simp_all add: month_start_def year_len_def)
  note last = month_day_eq [OF this, of y]
  have first: "month_day (y + 1) 0 = (y + 1, 3, 1)" using month_day_eq [of 0 0 "y + 1"] by (simp add: month_start_def)
  show ?thesis unfolding first last by (simp add: month_start_def year_len_def days_in_month_def)
qed

lemma leap_year_era: "leap_year (400 * era + y) = leap_year y"
proof -
  have "(400 * era + y) mod 4 = y mod 4" "(400 * era + y) mod 100 = y mod 100"
    using mod_mult_self4 [of 4 "100 * era" y] mod_mult_self4 [of 100 "4 * era" y] by (simp_all add: mult.assoc [symmetric])
  then show ?thesis by (simp add: leap_year_def)
qed

lemma year_len_era: "year_len (400 * era + y) = year_len y"
  using leap_year_era [of era "y + 1"] by (simp add: year_len_def)

text \<open>Every day number lies in exactly one March year of one era.\<close>

lemma day_split:
  "\<exists>era yoe doy. z = 146097 * era + (year_start yoe + doy) \<and> yoe < 400 \<and> doy < year_len yoe"
proof (induction z)
  case 0
  have "year_start 0 = 0" "0 < year_len 0" by (simp_all add: year_start_def year_len_def)
  then show ?case by (metis add_0 mult_0_right zero_less_numeral)
next
  case (Suc z)
  then obtain era yoe doy where z: "z = 146097 * era + (year_start yoe + doy)" "yoe < 400" "doy < year_len yoe" by blast
  consider "Suc doy < year_len yoe" | "Suc doy = year_len yoe" "yoe < 399" | "Suc doy = year_len yoe" "yoe = 399" using z by linarith
  then show ?case
  proof cases
    case 1
    with z show ?thesis by (intro exI [of _ era] exI [of _ yoe] exI [of _ "Suc doy"]) simp
  next
    case 2
    with z year_start_Suc [of yoe] show ?thesis
      by (intro exI [of _ era] exI [of _ "Suc yoe"] exI [of _ 0]) (simp add: year_len_def)
  next
    case 3
    with z year_start_399 show ?thesis
      by (intro exI [of _ "Suc era"] exI [of _ 0] exI [of _ 0]) (simp add: year_len_def year_start_def)
  qed
qed

text \<open>
  \<open>civil_from_days\<close> is the Gregorian calendar. Day zero is the first of January 1970, and every next day
  number is the next date by the lengths of the months and the leap-year rule, for all time.
\<close>

theorem calendar_correct: "civil_from_days 0 = (1970, 1, 1) \<and> civil_from_days (n + 1) = next_day (civil_from_days n)"
proof
  show "civil_from_days 0 = (1970, 1, 1)" by (simp add: civil_from_days_def Let_def)
  obtain era yoe doy where z: "n + 719468 = 146097 * era + (year_start yoe + doy)" "yoe < 400" "doy < year_len yoe"
    using day_split by blast
  note now = civil_from_days_eq [OF z]
  let ?y = "400 * era + yoe"
  consider "Suc doy < year_len yoe" | "Suc doy = year_len yoe" "yoe < 399" | "Suc doy = year_len yoe" "yoe = 399" using z by linarith
  then show "civil_from_days (n + 1) = next_day (civil_from_days n)"
  proof cases
    case 1
    from civil_from_days_eq [of "n + 1" era yoe "doy + 1"] z 1 month_step [of doy ?y] show ?thesis
      by (simp add: now year_len_era)
  next
    case 2
    from civil_from_days_eq [of "n + 1" era "yoe + 1" 0] z 2 year_start_Suc [of yoe] year_step [of ?y]
    have "civil_from_days (n + 1) = month_day (?y + 1) 0" by (simp add: year_len_def)
    also have "\<dots> = next_day (month_day ?y doy)" using year_step [of ?y] unfolding year_len_era 2(1) [symmetric] by simp
    finally show ?thesis by (simp add: now)
  next
    case 3
    from civil_from_days_eq [of "n + 1" "era + 1" 0 0] z 3 year_start_399
    have "civil_from_days (n + 1) = month_day (?y + 1) 0" by (simp add: year_len_def year_start_def)
    also have "\<dots> = next_day (month_day ?y doy)" using year_step [of ?y] unfolding year_len_era 3(1) [symmetric] by simp
    finally show ?thesis by (simp add: now)
  qed
qed

section \<open>The moving average and the histogram\<close>

lemma ewma_observe_between:
  assumes "ew_initialised e" "ew_alpha e \<le> EWMA_SCALE" "lo * EWMA_SCALE \<le> ew_scaled e" "ew_scaled e \<le> hi * EWMA_SCALE"
    and "lo \<le> x" "x \<le> hi" "hi * 2 ^ 21 \<le> u64_max"
  shows "lo * EWMA_SCALE \<le> ew_scaled (ewma_observe x e) \<and> ew_scaled (ewma_observe x e) \<le> hi * EWMA_SCALE"
proof -
  let ?a = "ew_alpha e" and ?s = "ew_scaled e" and ?x = "x * EWMA_SCALE"
  have a: "?a \<le> 1024" using assms(2) by (simp add: EWMA_SCALE_def)
  have xs: "lo * 1024 \<le> ?x" "?x \<le> hi * 1024" using assms(5,6) by (simp_all add: EWMA_SCALE_def)
  have ss: "lo * 1024 \<le> ?s" "?s \<le> hi * 1024" using assms(3,4) by (simp_all add: EWMA_SCALE_def)
  have big: "hi * 1024 * 1024 + hi * 1024 * 1024 \<le> u64_max" using assms(7) by simp
  have p1: "?s * (1024 - ?a) \<le> hi * 1024 * 1024" using ss(2) by (intro mult_le_mono) simp_all
  have p2: "?x * ?a \<le> hi * 1024 * 1024" using mult_le_mono [OF xs(2) a] .
  have exact: "ew_scaled (ewma_observe x e) = (?s * (1024 - ?a) + ?x * ?a) div 1024"
    using assms(1) p1 p2 big xs(2)
    by (simp add: ewma_observe_def Let_def sat_mul64_def sat_add64_def sat_u64_def EWMA_SCALE_def)
  have "lo * 1024 * (1024 - ?a) + lo * 1024 * ?a \<le> ?s * (1024 - ?a) + ?x * ?a"
    using ss(1) xs(1) by (intro add_mono mult_le_mono1)
  moreover have "lo * 1024 * (1024 - ?a) + lo * 1024 * ?a = lo * 1024 * 1024"
    using a by (simp add: add_mult_distrib2 [symmetric] del: mult.assoc)
  ultimately have low: "lo * 1024 * 1024 \<le> ?s * (1024 - ?a) + ?x * ?a" by linarith
  have "?s * (1024 - ?a) + ?x * ?a \<le> hi * 1024 * (1024 - ?a) + hi * 1024 * ?a"
    using ss(2) xs(2) by (intro add_mono mult_le_mono1)
  moreover have "hi * 1024 * (1024 - ?a) + hi * 1024 * ?a = hi * 1024 * 1024"
    using a by (simp add: add_mult_distrib2 [symmetric] del: mult.assoc)
  ultimately have high: "?s * (1024 - ?a) + ?x * ?a \<le> hi * 1024 * 1024" by linarith
  show ?thesis
    unfolding exact using div_le_mono [OF low, of 1024] div_le_mono [OF high, of 1024] by (simp add: EWMA_SCALE_def mult.commute)
qed

lemma ewma_run_between:
  assumes "ew_initialised e" "ew_alpha e \<le> EWMA_SCALE" "lo * EWMA_SCALE \<le> ew_scaled e" "ew_scaled e \<le> hi * EWMA_SCALE"
    and "\<forall>x\<in>set xs. lo \<le> x \<and> x \<le> hi" "hi * 2 ^ 21 \<le> u64_max"
  shows "ew_initialised (fold ewma_observe xs e) \<and>
    lo * EWMA_SCALE \<le> ew_scaled (fold ewma_observe xs e) \<and> ew_scaled (fold ewma_observe xs e) \<le> hi * EWMA_SCALE"
  using assms
proof (induction xs arbitrary: e)
  case (Cons x xs)
  from ewma_observe_between [OF Cons.prems(1-4), of x] Cons.prems(5,6)
  have step: "lo * EWMA_SCALE \<le> ew_scaled (ewma_observe x e)" "ew_scaled (ewma_observe x e) \<le> hi * EWMA_SCALE" by simp_all
  have "ew_initialised (ewma_observe x e)" "ew_alpha (ewma_observe x e) = ew_alpha e"
    using Cons.prems(1) by (simp_all add: ewma_observe_def Let_def)
  with step Cons show ?case by simp
qed simp

text \<open>The moving average of any non-empty run of samples stays between the least and the greatest of them.\<close>

lemma ewma_between:
  assumes "\<forall>y\<in>set (x # xs). lo \<le> y \<and> y \<le> hi" "hi * 2 ^ 21 \<le> u64_max"
  shows "\<exists>v. ewma_value (fold ewma_observe (x # xs) (ewma_new alpha)) = Some v \<and> lo \<le> v \<and> v \<le> hi"
proof -
  let ?e = "ewma_observe x (ewma_new alpha)"
  have "hi * 1024 \<le> u64_max" using assms(2) by simp
  then have "x * 1024 \<le> u64_max" using assms(1) by (metis le_trans list.set_intros(1) mult_le_mono1)
  then have e: "ew_initialised ?e" "ew_alpha ?e \<le> EWMA_SCALE" "ew_scaled ?e = x * EWMA_SCALE"
    by (simp_all add: ewma_observe_def ewma_new_def Let_def sat_mul64_def sat_u64_def EWMA_SCALE_def clamp_n_def)
  have "lo * EWMA_SCALE \<le> ew_scaled ?e" "ew_scaled ?e \<le> hi * EWMA_SCALE" using assms(1) e(3) by simp_all
  from ewma_run_between [OF e(1,2) this, of xs] assms
  have "ew_initialised (fold ewma_observe xs ?e)" "lo * 1024 \<le> ew_scaled (fold ewma_observe xs ?e)"
    "ew_scaled (fold ewma_observe xs ?e) \<le> hi * 1024" by (simp_all add: EWMA_SCALE_def)
  then show ?thesis
    using div_le_mono [of "lo * 1024" _ 1024] div_le_mono [of _ "hi * 1024" 1024]
    by (simp add: ewma_value_def EWMA_SCALE_def)
qed

subsection \<open>Quantiles\<close>

text \<open>How many samples fall into each bucket, from the samples themselves.\<close>

definition in_bucket :: "nat list \<Rightarrow> nat \<Rightarrow> nat \<Rightarrow> bool" where
  "in_bucket bounds i v \<longleftrightarrow> position_or_end (\<lambda>b. v \<le> b) bounds = i"

definition histogram_of :: "nat list \<Rightarrow> nat list \<Rightarrow> histogram" where
  "histogram_of bounds xs = fold histogram_observe xs (histogram_new bounds)"

lemma position_le: "position_or_end p xs \<le> length xs"
  by (induction xs) auto

definition tally :: "nat list \<Rightarrow> nat list \<Rightarrow> nat list" where
  "tally bounds xs = map (\<lambda>i. length (filter (in_bucket bounds i) xs)) [0..<length bounds + 1]"

lemma histogram_counts:
  assumes "length xs < 2 ^ 64"
  shows "hg_counts (histogram_of bounds xs) = tally bounds xs \<and> hg_total (histogram_of bounds xs) = length xs \<and>
    hg_bounds (histogram_of bounds xs) = bounds"
  using assms
proof (induction xs rule: rev_induct)
  case Nil
  show ?case by (simp add: histogram_of_def histogram_new_def tally_def map_replicate_const)
next
  case (snoc x xs)
  let ?i = "position_or_end (\<lambda>b. x \<le> b) bounds"
  have i: "?i < length bounds + 1" using position_le [of "\<lambda>b. x \<le> b" bounds] by simp
  have le: "length (filter (in_bucket bounds ?i) xs) + 1 < 2 ^ 64"
    using snoc.prems le_less_trans [OF length_filter_le [of "in_bucket bounds ?i" xs]] by simp
  have IH: "hg_counts (histogram_of bounds xs) = tally bounds xs" "hg_total (histogram_of bounds xs) = length xs"
    "hg_bounds (histogram_of bounds xs) = bounds" using snoc by simp_all
  have "tally bounds (xs @ [x]) = (tally bounds xs)[?i := tally bounds xs ! ?i + 1]"
    using i by (intro nth_equalityI) (auto simp: tally_def in_bucket_def nth_list_update simp del: upt_Suc)
  moreover have "tally bounds xs ! ?i = length (filter (in_bucket bounds ?i) xs)"
    using i by (simp add: tally_def del: upt_Suc)
  moreover have "histogram_of bounds (xs @ [x]) = histogram_observe x (histogram_of bounds xs)" by (simp add: histogram_of_def)
  ultimately show ?case
    using IH i le snoc.prems by (simp add: histogram_observe_def Let_def tally_def del: upt_Suc)
qed

definition below :: "nat list \<Rightarrow> nat \<Rightarrow> nat list \<Rightarrow> nat" where
  "below bounds i xs = length (filter (\<lambda>v. position_or_end (\<lambda>b. v \<le> b) bounds < i) xs)"

lemma below_Suc: "below bounds (Suc i) xs = below bounds i xs + length (filter (in_bucket bounds i) xs)"
  by (induction xs) (auto simp: below_def in_bucket_def)

lemma below_all: "below bounds (length bounds + 1) xs = length xs"
proof -
  have "filter (\<lambda>v. position_or_end (\<lambda>b. v \<le> b) bounds < length bounds + 1) xs = xs"
    using position_le by (auto simp: filter_id_conv less_Suc_eq_le)
  then show ?thesis by (simp only: below_def)
qed

lemma position_less: "sorted bounds \<Longrightarrow> i < length bounds \<Longrightarrow> position_or_end (\<lambda>b. v \<le> b) bounds < Suc i \<longleftrightarrow> v \<le> bounds ! i"
proof (induction bounds arbitrary: i)
  case (Cons b bs)
  show ?case
  proof (cases i)
    case (Suc j)
    have "b \<le> bs ! j" using Cons.prems Suc by simp
    with Cons Suc show ?thesis by (auto intro: order_trans)
  qed simp
qed simp

lemma length_filter_mono': "(\<And>x. P x \<Longrightarrow> Q x) \<Longrightarrow> length (filter P xs) \<le> length (filter Q xs)"
  by (induction xs) auto

lemma below_bound:
  "sorted bounds \<Longrightarrow> i < length bounds \<Longrightarrow> below bounds (Suc i) xs = length (filter (\<lambda>v. v \<le> bounds ! i) xs)"
  by (simp add: below_def position_less)

lemma quantile_scan_from:
  assumes "i \<le> length bounds" "below bounds i xs < target" "target \<le> length xs"
  shows "\<exists>j\<ge>i. j \<le> length bounds \<and> below bounds j xs < target \<and> target \<le> below bounds (Suc j) xs \<and>
    quantile_scan (drop i bounds) target (below bounds i xs) (drop i (tally bounds xs)) =
      Some (if j < length bounds then bounds ! j else u64_max)"
  using assms
proof (induction "length bounds - i" arbitrary: i)
  case 0
  then have i: "i = length bounds" by simp
  have "drop i (tally bounds xs) = [length (filter (in_bucket bounds i) xs)]" by (simp add: tally_def i)
  moreover have "target \<le> below bounds (Suc i) xs" using 0 below_all [of bounds xs] i by simp
  ultimately show ?case using 0 i by (auto simp: below_Suc)
next
  case (Suc n)
  then have i: "i < length bounds" by simp
  then have lt: "i < length (tally bounds xs)" by (simp add: tally_def)
  have d: "drop i (tally bounds xs) = length (filter (in_bucket bounds i) xs) # drop (Suc i) (tally bounds xs)"
    using Cons_nth_drop_Suc [OF lt] i by (simp add: tally_def del: upt_Suc)
  have b: "drop i bounds = bounds ! i # drop (Suc i) bounds" using Cons_nth_drop_Suc [OF i] by simp
  show ?case
  proof (cases "target \<le> below bounds (Suc i) xs")
    case True
    then show ?thesis using i Suc.prems by (intro exI [of _ i]) (simp add: b d below_Suc)
  next
    case False
    have "n = length bounds - Suc i" "Suc i \<le> length bounds" "below bounds (Suc i) xs < target"
      using Suc(2) i False by simp_all
    from Suc(1) [OF this Suc.prems(3)] obtain j where "j \<ge> Suc i" "j \<le> length bounds" "below bounds j xs < target" "target \<le> below bounds (Suc j) xs"
      "quantile_scan (drop (Suc i) bounds) target (below bounds (Suc i) xs) (drop (Suc i) (tally bounds xs)) =
         Some (if j < length bounds then bounds ! j else u64_max)"
      by blast
    with False show ?thesis by (intro exI [of _ j]) (simp add: b d below_Suc)
  qed
qed

text \<open>
  The reported quantile is the smallest bucket bound that covers it. For samples recorded into sorted
  buckets, the answer is a bound at or below which at least the required number of samples fall and below
  every smaller bound fewer do, or the overflow value when no bound covers enough of them. The rank is
  rounded up, so the slowest sample is never hidden.
\<close>

theorem quantile_correct:
  assumes "sorted bounds" "xs \<noteq> []" "length xs * num \<le> u64_max" "length xs < 2 ^ 64" "0 < den" "num \<le> den"
  shows "\<exists>B. quantile_upper_bound num den (histogram_of bounds xs) = Some B \<and>
    (let target = max (div_ceil (length xs * num) den) 1; at_most = (\<lambda>b. length (filter (\<lambda>v. v \<le> b) xs)) in
       (B \<in> set bounds \<and> target \<le> at_most B \<and> (\<forall>b\<in>set bounds. b < B \<longrightarrow> at_most b < target)) \<or>
       (B = u64_max \<and> (\<forall>b\<in>set bounds. at_most b < target)))"
proof -
  define target where "target = max (div_ceil (length xs * num) den) 1"
  have "div_ceil (length xs * num) den \<le> div_ceil (length xs * den) den"
    using assms(5,6) by (intro div_ceil_mono mult_le_mono2)
  also have "\<dots> = length xs" using assms(5) by (simp add: div_ceil_def)
  finally have t: "target \<le> length xs" "0 < target" using assms(2) by (auto simp: target_def Suc_le_eq)
  have zero: "below bounds 0 xs = 0" by (simp add: below_def)
  obtain j where j: "j \<le> length bounds" "below bounds j xs < target" "target \<le> below bounds (Suc j) xs"
    "quantile_scan bounds target 0 (tally bounds xs) = Some (if j < length bounds then bounds ! j else u64_max)"
    using quantile_scan_from [of 0 bounds xs target] t zero by auto
  have q: "quantile_upper_bound num den (histogram_of bounds xs) = Some (if j < length bounds then bounds ! j else u64_max)"
    using histogram_counts [OF assms(4), of bounds] assms(2,3,5) j(4)
    by (simp add: quantile_upper_bound_def target_def sat_mul64_def sat_u64_def)
  have small: "length (filter (\<lambda>v. v \<le> bounds ! i) xs) < target" if "i < j" for i
  proof -
    have "below bounds (Suc i) xs \<le> below bounds j xs"
      unfolding below_def using that by (intro length_filter_mono') auto
    then show ?thesis using j(1,2) that below_bound [OF assms(1), of i xs] by simp
  qed
  show ?thesis
  proof (cases "j < length bounds")
    case True
    have "length (filter (\<lambda>v. v \<le> b) xs) < target" if "b \<in> set bounds" "b < bounds ! j" for b
    proof -
      obtain i where i: "i < length bounds" "b = bounds ! i" using \<open>b \<in> set bounds\<close> by (metis in_set_conv_nth)
      then have "i < j" using \<open>b < bounds ! j\<close> assms(1) True by (metis linorder_not_le sorted_nth_mono)
      with small i show ?thesis by simp
    qed
    with True j(3) q below_bound [OF assms(1) True, of xs] show ?thesis
      by (intro exI [of _ "bounds ! j"]) (simp add: Let_def target_def)
  next
    case False
    then have "j = length bounds" using j(1) by simp
    with small have "\<forall>b\<in>set bounds. length (filter (\<lambda>v. v \<le> b) xs) < target" by (metis in_set_conv_nth)
    with False q show ?thesis by (intro exI [of _ u64_max]) (simp add: Let_def target_def)
  qed
qed

theorem quantile_correct_witness:
  "quantile_upper_bound 99 100 (histogram_of [1, 5, 10] [3, 4, 7]) = Some 10"
proof -
  have "\<exists>B. quantile_upper_bound 99 100 (histogram_of [1, 5, 10] [3, 4, 7]) = Some B \<and>
    (let target = max (div_ceil (length [3, 4, 7 :: nat] * 99) 100) 1; at_most = (\<lambda>b. length (filter (\<lambda>v. v \<le> b) [3, 4, 7 :: nat])) in
       (B \<in> set [1, 5, 10] \<and> target \<le> at_most B \<and> (\<forall>b\<in>set [1, 5, 10]. b < B \<longrightarrow> at_most b < target)) \<or>
       (B = u64_max \<and> (\<forall>b\<in>set [1, 5, 10]. at_most b < target)))"
    by (rule quantile_correct) (simp_all add: u64_max_def)
  then show ?thesis by (auto simp: Let_def div_ceil_def)
qed

section \<open>Clock steps\<close>

text \<open>
  The monitor compares how far the wall clock moved with how far the monotonic clock moved, both as distances.
  A forward step beyond the allowed skew is always flagged; a backward step that lands as far behind the last
  reading as monotonic time advanced is not.
\<close>

lemma forward_step_flagged:
  "cs_last m = Some (t, w) \<Longrightarrow> t \<le> t' \<Longrightarrow> cs_max_skew m < step \<Longrightarrow>
     fst (monitor_sample t' (w + (t' - t) + step) m)"
  by (simp add: monitor_sample_def Let_def abs_diff_def)

lemma backward_step_missed:
  "\<exists>m t w. cs_last m = Some (t, w) \<and> cs_max_skew m = 1000 \<and> \<not> fst (monitor_sample (t + 60000) (w + 60000 - 120000) m)"
  by (rule exI [of _ "\<lparr>cs_last = Some (0, 1000000), cs_max_skew = 1000, cs_skew_events = 0\<rparr>"])
    (simp add: monitor_sample_def Let_def abs_diff_def)

end
