(* ===== verification/Breaker.thy ===== *)
theory Breaker
  imports Clock Events
begin

text \<open>
  The circuit breaker of one target and operation (\<open>hypellm-core/src/health.rs\<close>): its rolling window of
  outcomes, the closed/open/half-open machine with its cooldown, and the permits that hold half-open probe
  slots. Every operation runs under the breaker's mutex, so an execution is a sequence of whole operations;
  the time each of them reads is its argument.
\<close>

section \<open>Configuration and rolling window\<close>

record breaker_config =
  min_samples :: nat
  failure_threshold_percent :: nat
  window_millis :: nat
  base_cooldown_millis :: nat
  max_cooldown_millis :: nat
  half_open_probes :: nat
  half_open_successes_to_close :: nat

definition breaker_default :: breaker_config where
  "breaker_default =
     \<lparr>min_samples = 20, failure_threshold_percent = 50, window_millis = 30000, base_cooldown_millis = 1000,
      max_cooldown_millis = 60000, half_open_probes = 1, half_open_successes_to_close = 3\<rparr>"

datatype breaker_state = Closed | Open | HalfOpen

fun breaker_state_as_str :: "breaker_state \<Rightarrow> string" where
  "breaker_state_as_str Closed = ''closed''"
| "breaker_state_as_str Open = ''open''"
| "breaker_state_as_str HalfOpen = ''half_open''"

definition WEIGHT_RESTORATION_MILLIS :: nat where "WEIGHT_RESTORATION_MILLIS = 30000"
definition PROBE_LEASE_MILLIS :: nat where "PROBE_LEASE_MILLIS = 300000"

definition ramp_permille :: "nat \<Rightarrow> nat \<Rightarrow> nat" where
  "ramp_permille since_ms now_ms =
     (let elapsed = now_ms - since_ms
      in if elapsed \<ge> WEIGHT_RESTORATION_MILLIS then 1000
         else sat_add64 100 (sat_mul64 elapsed 900 div max WEIGHT_RESTORATION_MILLIS 1))"

record rolling_counts =
  rc_window :: nat
  rc_start :: nat
  rc_cur_ok :: nat
  rc_cur_fail :: nat
  rc_prev_ok :: nat
  rc_prev_fail :: nat

definition rolling_new :: "nat \<Rightarrow> nat \<Rightarrow> rolling_counts" where
  "rolling_new window now =
     \<lparr>rc_window = window, rc_start = now, rc_cur_ok = 0, rc_cur_fail = 0, rc_prev_ok = 0, rc_prev_fail = 0\<rparr>"

definition rotate_if_needed :: "nat \<Rightarrow> rolling_counts \<Rightarrow> rolling_counts" where
  "rotate_if_needed now c =
     (let elapsed = now - rc_start c
      in if elapsed < rc_window c then c
         else (if elapsed \<ge> sat_mul64 (rc_window c) 2
               then c\<lparr>rc_prev_ok := 0, rc_prev_fail := 0\<rparr>
               else c\<lparr>rc_prev_ok := rc_cur_ok c, rc_prev_fail := rc_cur_fail c\<rparr>)
                \<lparr>rc_cur_ok := 0, rc_cur_fail := 0, rc_start := now\<rparr>)"

definition rolling_record :: "bool \<Rightarrow> nat \<Rightarrow> rolling_counts \<Rightarrow> rolling_counts" where
  "rolling_record success now c =
     (let c = rotate_if_needed now c
      in if success then c\<lparr>rc_cur_ok := sat_add32 (rc_cur_ok c) 1\<rparr>
         else c\<lparr>rc_cur_fail := sat_add32 (rc_cur_fail c) 1\<rparr>)"

definition rolling_totals :: "nat \<Rightarrow> rolling_counts \<Rightarrow> (nat \<times> nat) \<times> rolling_counts" where
  "rolling_totals now c =
     (let c = rotate_if_needed now c
      in ((sat_add32 (rc_cur_ok c) (rc_prev_ok c), sat_add32 (rc_cur_fail c) (rc_prev_fail c)), c))"

section \<open>The breaker\<close>

record breaker =
  br_config :: breaker_config
  br_state :: breaker_state
  br_counts :: rolling_counts
  br_open_until :: nat
  br_opens :: nat
  br_probes :: nat
  br_last_probe :: nat
  br_epoch :: nat
  br_successes :: nat
  br_closed_at :: "nat option"

definition breaker_new :: "breaker_config \<Rightarrow> nat \<Rightarrow> breaker" where
  "breaker_new config now =
     \<lparr>br_config = config, br_state = Closed, br_counts = rolling_new (window_millis config) now,
      br_open_until = 0, br_opens = 0, br_probes = 0, br_last_probe = 0, br_epoch = 0, br_successes = 0,
      br_closed_at = None\<rparr>"

definition bump_epoch :: "breaker \<Rightarrow> breaker" where
  "bump_epoch b = b\<lparr>br_epoch := (br_epoch b + 1) mod 2 ^ 64\<rparr>"

definition transition_if_cooled :: "nat \<Rightarrow> breaker \<Rightarrow> breaker" where
  "transition_if_cooled now b =
     (if br_state b = Open \<and> now \<ge> br_open_until b
      then bump_epoch (b\<lparr>br_state := HalfOpen, br_probes := 0, br_successes := 0\<rparr>) else b)"

definition breaker_look :: "nat \<Rightarrow> breaker \<Rightarrow> breaker_state \<times> breaker" where
  "breaker_look now b = (let b = transition_if_cooled now b in (br_state b, b))"

definition restoration_permille :: "nat \<Rightarrow> breaker \<Rightarrow> nat" where
  "restoration_permille now b =
     (case br_closed_at b of None \<Rightarrow> 1000 | Some closed_at \<Rightarrow> ramp_permille closed_at now)"

text \<open>A permit; that it is finished at most once is that it is consumed.\<close>

record breaker_permit =
  pm_probe :: bool
  pm_epoch :: nat

definition reclaim_lease :: "nat \<Rightarrow> breaker \<Rightarrow> breaker" where
  "reclaim_lease now b =
     (if br_probes b \<ge> half_open_probes (br_config b) \<and> br_probes b > 0 \<and>
         now - br_last_probe b \<ge> PROBE_LEASE_MILLIS
      then bump_epoch (b\<lparr>br_probes := 0, br_successes := 0\<rparr>) else b)"

definition breaker_admit :: "nat \<Rightarrow> breaker \<Rightarrow> breaker_permit option \<times> breaker" where
  "breaker_admit now b =
     (let b = transition_if_cooled now b
      in case br_state b of
           Closed \<Rightarrow> (Some \<lparr>pm_probe = False, pm_epoch = br_epoch b\<rparr>, b)
         | Open \<Rightarrow> (None, b)
         | HalfOpen \<Rightarrow>
             (let b = reclaim_lease now b
              in if br_probes b < half_open_probes (br_config b)
                 then (Some \<lparr>pm_probe = True, pm_epoch = br_epoch b\<rparr>,
                       b\<lparr>br_probes := sat_add32 (br_probes b) 1, br_last_probe := now\<rparr>)
                 else (None, b)))"

definition breaker_open :: "nat \<Rightarrow> breaker \<Rightarrow> breaker" where
  "breaker_open now b =
     (let opens = sat_add32 (br_opens b) 1;
          cooldown = min (sat_mul64 (base_cooldown_millis (br_config b)) (2 ^ min (opens - 1) 16))
                         (max_cooldown_millis (br_config b))
      in (bump_epoch b)\<lparr>br_state := Open, br_probes := 0, br_successes := 0, br_opens := opens,
                         br_open_until := sat_add64 now cooldown\<rparr>)"

definition failure_percent_of :: "nat \<Rightarrow> nat \<Rightarrow> nat" where
  "failure_percent_of fail seen = (if seen = 0 then 0 else sat_mul64 fail 100 div seen)"

definition open_if_over_threshold :: "nat \<Rightarrow> breaker \<Rightarrow> breaker" where
  "open_if_over_threshold now b =
     (let ((ok, fail), counts) = rolling_totals now (br_counts b);
          b = b\<lparr>br_counts := counts\<rparr>;
          seen = sat_add32 ok fail
      in if seen \<ge> min_samples (br_config b) \<and>
            failure_percent_of fail seen \<ge> failure_threshold_percent (br_config b)
         then breaker_open now b else b)"

definition count_outcome :: "bool \<Rightarrow> nat \<Rightarrow> breaker \<Rightarrow> breaker" where
  "count_outcome success now b = b\<lparr>br_counts := rolling_record success now (br_counts b)\<rparr>"

definition breaker_record :: "bool \<Rightarrow> nat \<Rightarrow> breaker \<Rightarrow> breaker" where
  "breaker_record success now b =
     (let b = count_outcome success now (transition_if_cooled now b)
      in if br_state b = Closed \<and> \<not> success then open_if_over_threshold now b else b)"

definition breaker_close :: "nat \<Rightarrow> breaker \<Rightarrow> breaker" where
  "breaker_close now b =
     (bump_epoch b)\<lparr>br_state := Closed, br_opens := 0, br_successes := 0, br_closed_at := Some now,
                     br_counts := rolling_new (window_millis (br_config b)) now\<rparr>"

definition finish_probe :: "bool option \<Rightarrow> nat \<Rightarrow> breaker \<Rightarrow> breaker" where
  "finish_probe outcome now b =
     (let b = b\<lparr>br_probes := br_probes b - 1\<rparr>
      in case outcome of None \<Rightarrow> b
         | Some success \<Rightarrow>
             (let b = count_outcome success now b
              in if success
                 then (let b = b\<lparr>br_successes := sat_add32 (br_successes b) 1\<rparr>
                       in if br_successes b \<ge> half_open_successes_to_close (br_config b)
                          then breaker_close now b else b)
                 else breaker_open now b))"

definition finish_permit :: "breaker_permit \<Rightarrow> bool option \<Rightarrow> nat \<Rightarrow> breaker \<Rightarrow> breaker" where
  "finish_permit p outcome now b =
     (let b = transition_if_cooled now b;
          current = (pm_epoch p = br_epoch b)
      in if pm_probe p
         then (if \<not> current \<or> br_state b \<noteq> HalfOpen then b else finish_probe outcome now b)
         else (case outcome of None \<Rightarrow> b
               | Some success \<Rightarrow>
                   if \<not> current \<or> br_state b \<noteq> Closed then b
                   else (let b = count_outcome success now b
                         in if \<not> success then open_if_over_threshold now b else b)))"

definition force_open :: "nat \<Rightarrow> nat \<Rightarrow> breaker \<Rightarrow> breaker" where
  "force_open now duration b =
     (bump_epoch b)\<lparr>br_state := Open, br_open_until := sat_add64 now duration, br_probes := 0, br_successes := 0\<rparr>"

definition force_close :: "nat \<Rightarrow> breaker \<Rightarrow> breaker" where
  "force_close now b =
     (bump_epoch b)\<lparr>br_state := Closed, br_opens := 0, br_probes := 0, br_successes := 0,
                     br_counts := rolling_new (window_millis (br_config b)) now\<rparr>"

definition breaker_failure_percent :: "nat \<Rightarrow> breaker \<Rightarrow> nat \<times> breaker" where
  "breaker_failure_percent now b =
     (let ((ok, fail), counts) = rolling_totals now (br_counts b);
          seen = sat_add32 ok fail;
          b = b\<lparr>br_counts := counts\<rparr>
      in if seen = 0 then (0, b)
         else (let pct = sat_mul64 fail 100 div seen in (if pct \<le> u32_max then pct else 100, b)))"

section \<open>Interleaved executions\<close>

text \<open>
  A breaker with the permits its callers still hold. Requests hold permits for any time and finish them in any
  order; dropping a permit is finishing it with no outcome at time zero.
\<close>

record breaker_sys =
  bs_breaker :: breaker
  bs_permits :: "breaker_permit multiset"

datatype breaker_action =
    Look nat
  | Percent nat
  | Admit nat
  | Record bool nat
  | Finish breaker_permit "bool option" nat
  | ForceOpen nat nat
  | ForceClose nat

inductive breaker_step :: "breaker_action \<Rightarrow> breaker_sys \<Rightarrow> breaker_sys \<Rightarrow> bool" where
  looked: "breaker_step (Look now) s (s\<lparr>bs_breaker := snd (breaker_look now (bs_breaker s))\<rparr>)"
| percent_read: "breaker_step (Percent now) s (s\<lparr>bs_breaker := snd (breaker_failure_percent now (bs_breaker s))\<rparr>)"
| admitted: "breaker_admit now (bs_breaker s) = (r, b) \<Longrightarrow>
    breaker_step (Admit now) s \<lparr>bs_breaker = b, bs_permits = bs_permits s + (case r of None \<Rightarrow> {#} | Some p \<Rightarrow> {#p#})\<rparr>"
| recorded: "breaker_step (Record ok now) s (s\<lparr>bs_breaker := breaker_record ok now (bs_breaker s)\<rparr>)"
| finished: "p \<in># bs_permits s \<Longrightarrow>
    breaker_step (Finish p oc now) s
      \<lparr>bs_breaker = finish_permit p oc now (bs_breaker s), bs_permits = bs_permits s - {#p#}\<rparr>"
| forced_open: "breaker_step (ForceOpen now d) s (s\<lparr>bs_breaker := force_open now d (bs_breaker s)\<rparr>)"
| forced_close: "breaker_step (ForceClose now) s (s\<lparr>bs_breaker := force_close now (bs_breaker s)\<rparr>)"

inductive_cases breaker_stepE: "breaker_step a s s'"

inductive breaker_run :: "breaker_config \<Rightarrow> nat \<Rightarrow> breaker_sys \<Rightarrow> bool" for c where
  init: "breaker_run c 0 \<lparr>bs_breaker = breaker_new c now, bs_permits = {#}\<rparr>"
| step: "breaker_run c n s \<Longrightarrow> breaker_step a s s' \<Longrightarrow> breaker_run c (Suc n) s'"

section \<open>Probe slots\<close>

text \<open>
  The slot accounting: permits carry no future epoch, a permit of the current epoch matches the current state,
  and in the half-open state the slots counted are the permits that hold one.
\<close>

definition slots_ok :: "breaker_sys \<Rightarrow> bool" where
  "slots_ok s \<longleftrightarrow>
     (let b = bs_breaker s; ps = bs_permits s in
      (\<forall>p\<in>#ps. pm_epoch p \<le> br_epoch b) \<and>
      (\<forall>p\<in>#ps. pm_epoch p = br_epoch b \<longrightarrow> br_state b \<noteq> Open \<and> pm_probe p = (br_state b = HalfOpen)) \<and>
      (br_state b = HalfOpen \<longrightarrow>
         br_probes b = count ps \<lparr>pm_probe = True, pm_epoch = br_epoch b\<rparr> \<and>
         br_probes b \<le> half_open_probes (br_config b)))"

text \<open>What a breaker operation may do to the slot accounting without touching the permits.\<close>

definition same_slots :: "breaker \<Rightarrow> breaker \<Rightarrow> bool" where
  "same_slots b b' \<longleftrightarrow> br_state b' = br_state b \<and> br_epoch b' = br_epoch b \<and> br_probes b' = br_probes b"

definition fresh_slots :: "nat \<Rightarrow> breaker \<Rightarrow> breaker \<Rightarrow> bool" where
  "fresh_slots k b b' \<longleftrightarrow>
     br_epoch b < br_epoch b' \<and> br_epoch b' \<le> br_epoch b + k \<and> (br_state b' = HalfOpen \<longrightarrow> br_probes b' = 0)"

definition moves :: "nat \<Rightarrow> breaker \<Rightarrow> breaker \<Rightarrow> bool" where
  "moves k b b' \<longleftrightarrow> br_config b' = br_config b \<and> (same_slots b b' \<or> fresh_slots k b b')"

lemmas moves_defs = moves_def same_slots_def fresh_slots_def

lemma moves_refl [simp]: "moves k b b"
  by (simp add: moves_defs)

lemma moves_trans: "moves j b b' \<Longrightarrow> moves k b' b'' \<Longrightarrow> moves (j + k) b b''"
  by (auto simp: moves_defs)

lemma moves_mono: "moves j b b' \<Longrightarrow> j \<le> k \<Longrightarrow> moves k b b'"
  by (auto simp: moves_defs)

lemma moves_epoch: "moves k b b' \<Longrightarrow> br_epoch b' \<le> br_epoch b + k" "moves k b b' \<Longrightarrow> br_config b' = br_config b"
  by (auto simp: moves_defs)

lemma moves_ok:
  assumes "slots_ok s" "moves k (bs_breaker s) b'"
  shows "slots_ok (s\<lparr>bs_breaker := b'\<rparr>)"
proof (cases "same_slots (bs_breaker s) b'")
  case True
  with assms show ?thesis by (auto simp: slots_ok_def moves_def same_slots_def Let_def)
next
  case False
  then have f: "fresh_slots k (bs_breaker s) b'" using assms(2) by (simp add: moves_def)
  have old: "pm_epoch p < br_epoch b'" if "p \<in># bs_permits s" for p
    using assms(1) f that by (fastforce simp: slots_ok_def fresh_slots_def Let_def)
  then have "\<lparr>pm_probe = True, pm_epoch = br_epoch b'\<rparr> \<notin># bs_permits s"
    by (metis breaker_permit.select_convs(2) less_irrefl)
  then have "count (bs_permits s) \<lparr>pm_probe = True, pm_epoch = br_epoch b'\<rparr> = 0" by (simp add: not_in_iff)
  moreover have "pm_epoch p \<le> br_epoch b'" "pm_epoch p \<noteq> br_epoch b'" if "p \<in># bs_permits s" for p
    using old [OF that] by simp_all
  ultimately show ?thesis using f by (simp add: slots_ok_def fresh_slots_def Let_def)
qed

text \<open>Every operation of the breaker, as a move of the slot accounting.\<close>

lemma moves_bump:
  assumes "br_epoch b + 1 < 2 ^ 64"
  shows moves_transition: "moves 1 b (transition_if_cooled now b)"
    and moves_reclaim: "moves 1 b (reclaim_lease now b)"
    and moves_open: "moves 1 b (breaker_open now b)"
    and moves_close: "moves 1 b (breaker_close now b)"
    and moves_force_open: "moves 1 b (force_open now d b)"
    and moves_force_close: "moves 1 b (force_close now b)"
  using assms
  by (simp_all add: moves_defs bump_epoch_def transition_if_cooled_def reclaim_lease_def breaker_open_def
      breaker_close_def force_open_def force_close_def Let_def)

lemma moves_count: "moves 0 b (count_outcome ok now b)"
  by (simp add: count_outcome_def moves_defs)

lemma moves_percent: "moves 0 b (snd (breaker_failure_percent now b))"
  by (simp add: breaker_failure_percent_def moves_defs Let_def case_prod_beta)

lemma moves_threshold:
  assumes "br_epoch b + 1 < 2 ^ 64"
  shows "moves 1 b (open_if_over_threshold now b)"
proof -
  let ?b = "b\<lparr>br_counts := snd (rolling_totals now (br_counts b))\<rparr>"
  have "moves 0 b ?b" by (simp add: moves_defs)
  moreover have "moves 1 ?b (breaker_open now ?b)" using assms by (intro moves_open) simp
  ultimately have "moves 1 b (breaker_open now ?b)" "moves 1 b ?b"
    using moves_trans [of 0 b ?b 1] moves_mono [of 0 b ?b 1] by simp_all
  then show ?thesis by (simp add: open_if_over_threshold_def Let_def case_prod_beta)
qed

lemma moves_record:
  assumes "br_epoch b + 2 < 2 ^ 64"
  shows "moves 2 b (breaker_record ok now b)"
proof -
  let ?b = "count_outcome ok now (transition_if_cooled now b)"
  have m: "moves 1 b ?b"
    using moves_trans [OF moves_transition [of b now] moves_count [of _ ok now]] assms by simp
  then have "br_epoch ?b + 1 < 2 ^ 64" using moves_epoch(1) [OF m] assms by simp
  from moves_trans [OF m moves_threshold [OF this, of now]] moves_mono [OF m, of 2]
  show ?thesis by (cases ok) (simp_all add: breaker_record_def Let_def numeral_2_eq_2)
qed

lemma remove_permit_ok:
  assumes "slots_ok s" "pm_probe p \<and> pm_epoch p = br_epoch (bs_breaker s) \<Longrightarrow> br_state (bs_breaker s) \<noteq> HalfOpen"
  shows "slots_ok \<lparr>bs_breaker = bs_breaker s, bs_permits = bs_permits s - {#p#}\<rparr>"
proof -
  have "br_state (bs_breaker s) = HalfOpen \<Longrightarrow> p \<noteq> \<lparr>pm_probe = True, pm_epoch = br_epoch (bs_breaker s)\<rparr>"
    using assms(2) by auto
  with assms(1) show ?thesis by (auto simp: slots_ok_def Let_def dest: in_diffD)
qed

lemma return_slot_ok:
  assumes "slots_ok s" "p \<in># bs_permits s" "pm_probe p" "pm_epoch p = br_epoch (bs_breaker s)"
    "br_state (bs_breaker s) = HalfOpen"
  shows "slots_ok \<lparr>bs_breaker = (bs_breaker s)\<lparr>br_probes := br_probes (bs_breaker s) - 1\<rparr>,
    bs_permits = bs_permits s - {#p#}\<rparr>"
proof -
  have "p = \<lparr>pm_probe = True, pm_epoch = br_epoch (bs_breaker s)\<rparr>" using assms(3,4) by simp
  with assms(1,2,5) show ?thesis by (auto simp: slots_ok_def Let_def dest: in_diffD)
qed

lemma slots_finish:
  assumes "slots_ok s" "p \<in># bs_permits s" "br_epoch (bs_breaker s) + 2 < 2 ^ 64"
  shows "slots_ok \<lparr>bs_breaker = finish_permit p oc now (bs_breaker s), bs_permits = bs_permits s - {#p#}\<rparr> \<and>
    br_epoch (finish_permit p oc now (bs_breaker s)) \<le> br_epoch (bs_breaker s) + 2 \<and>
    br_config (finish_permit p oc now (bs_breaker s)) = br_config (bs_breaker s)"
proof -
  define b where "b = transition_if_cooled now (bs_breaker s)"
  define s1 where "s1 = s\<lparr>bs_breaker := b\<rparr>"
  define b' where "b' = finish_permit p oc now (bs_breaker s)"
  have m: "moves 1 (bs_breaker s) b" unfolding b_def using assms(3) by (intro moves_transition) simp
  then have s1: "slots_ok s1" "bs_permits s1 = bs_permits s" "bs_breaker s1 = b"
    using moves_ok [OF assms(1)] by (simp_all add: s1_def)
  have e: "br_epoch b + 1 < 2 ^ 64" "br_epoch b \<le> br_epoch (bs_breaker s) + 1" "br_config b = br_config (bs_breaker s)"
    using moves_epoch [OF m] assms(3) by simp_all
  have "\<exists>b1. slots_ok \<lparr>bs_breaker = b1, bs_permits = bs_permits s - {#p#}\<rparr> \<and> moves 1 b1 b' \<and> br_epoch b1 = br_epoch b \<and> br_config b1 = br_config b"
  proof (cases "pm_probe p \<and> pm_epoch p = br_epoch b \<and> br_state b = HalfOpen")
    case True
    let ?b = "b\<lparr>br_probes := br_probes b - 1\<rparr>"
    have "slots_ok \<lparr>bs_breaker = ?b, bs_permits = bs_permits s - {#p#}\<rparr>"
      using return_slot_ok [OF s1(1), of p] True s1(2,3) assms(2) by simp
    moreover have "moves 1 ?b b'"
    proof -
      have count: "moves 0 ?b (count_outcome ok now ?b)" for ok by (rule moves_count)
      have opened: "moves 1 ?b (breaker_open now (count_outcome ok now ?b))" for ok
        using moves_trans [OF count moves_open, of ok now] e(1) by (simp add: count_outcome_def)
      let ?k = "\<lambda>ok. (count_outcome ok now ?b)\<lparr>br_successes := sat_add32 (br_successes (count_outcome ok now ?b)) 1\<rparr>"
      have k: "moves 0 ?b (?k ok)" for ok by (simp add: count_outcome_def moves_defs)
      have "moves 1 ?b (breaker_close now (?k ok))" for ok
        using moves_trans [OF k moves_close, of ok now] e(1) by (simp add: count_outcome_def)
      with opened k [THEN moves_mono] True show ?thesis
        by (simp add: b'_def finish_permit_def b_def [symmetric] finish_probe_def Let_def split: option.split)
    qed
    ultimately show ?thesis by (intro exI [of _ ?b]) simp
  next
    case False
    have "slots_ok \<lparr>bs_breaker = b, bs_permits = bs_permits s - {#p#}\<rparr>"
      using remove_permit_ok [OF s1(1), of p] False s1(2,3) by auto
    moreover have "moves 1 b b'"
    proof -
      have count: "moves 0 b (count_outcome ok now b)" for ok by (rule moves_count)
      have "moves 1 b (open_if_over_threshold now (count_outcome ok now b))" for ok
        using moves_trans [OF count moves_threshold, of ok now] e(1) by (simp add: count_outcome_def)
      with False moves_mono [OF count, of 1] show ?thesis
        by (simp add: b'_def finish_permit_def b_def [symmetric] Let_def split: option.split)
    qed
    ultimately show ?thesis by blast
  qed
  then obtain b1 where b1: "slots_ok \<lparr>bs_breaker = b1, bs_permits = bs_permits s - {#p#}\<rparr>" "moves 1 b1 b'"
    "br_epoch b1 = br_epoch b" "br_config b1 = br_config b" by blast
  from moves_ok [OF b1(1)] b1(2) have "slots_ok \<lparr>bs_breaker = b', bs_permits = bs_permits s - {#p#}\<rparr>" by simp
  with moves_epoch [OF b1(2)] b1(3,4) e show ?thesis by (simp add: b'_def)
qed

lemma slots_admit:
  assumes "slots_ok s" "breaker_admit now (bs_breaker s) = (r, b')" "br_epoch (bs_breaker s) + 2 < 2 ^ 64"
    "half_open_probes (br_config (bs_breaker s)) \<le> u32_max"
  shows "slots_ok \<lparr>bs_breaker = b', bs_permits = bs_permits s + (case r of None \<Rightarrow> {#} | Some p \<Rightarrow> {#p#})\<rparr> \<and>
    br_epoch b' \<le> br_epoch (bs_breaker s) + 2 \<and> br_config b' = br_config (bs_breaker s)"
proof -
  define b where "b = transition_if_cooled now (bs_breaker s)"
  have m: "moves 1 (bs_breaker s) b" unfolding b_def using assms(3) by (intro moves_transition) simp
  have s1: "slots_ok (s\<lparr>bs_breaker := b\<rparr>)" using moves_ok [OF assms(1) m] .
  have e: "br_epoch b + 1 < 2 ^ 64" "br_config b = br_config (bs_breaker s)"
    using moves_epoch [OF m] assms(3) by simp_all
  define b1 where "b1 = reclaim_lease now b"
  have m1: "moves 2 (bs_breaker s) b1"
    unfolding b1_def using moves_trans [OF m moves_reclaim [OF e(1)]] by (simp add: numeral_2_eq_2)
  have s2: "slots_ok (s\<lparr>bs_breaker := b1\<rparr>)" using moves_ok [OF assms(1) m1] .
  have st: "br_state b1 = br_state b" by (simp add: b1_def reclaim_lease_def bump_epoch_def)
  show ?thesis
  proof (cases "br_state b")
    case HalfOpen
    have "slots_ok \<lparr>bs_breaker = b1\<lparr>br_probes := sat_add32 (br_probes b1) 1, br_last_probe := now\<rparr>,
      bs_permits = add_mset \<lparr>pm_probe = True, pm_epoch = br_epoch b1\<rparr> (bs_permits s)\<rparr>"
      if "br_probes b1 < half_open_probes (br_config b1)"
      using s2 that HalfOpen st assms(4) moves_epoch(2) [OF m1]
      by (auto simp: slots_ok_def Let_def sat_add32_def)
    moreover have "slots_ok \<lparr>bs_breaker = b1, bs_permits = bs_permits s\<rparr>" using s2 by (simp add: slots_ok_def)
    ultimately show ?thesis using HalfOpen assms(2) moves_epoch [OF m1]
      by (auto simp: breaker_admit_def b_def [symmetric] b1_def [symmetric] Let_def split: if_splits)
  qed (use assms(2) s1 moves_epoch [OF m] in
      \<open>auto simp: breaker_admit_def b_def [symmetric] Let_def slots_ok_def\<close>)
qed

lemma slots_step:
  assumes "slots_ok s" "breaker_step a s s'" "br_epoch (bs_breaker s) + 2 < 2 ^ 64"
    "half_open_probes (br_config (bs_breaker s)) \<le> u32_max"
  shows "slots_ok s' \<and> br_epoch (bs_breaker s') \<le> br_epoch (bs_breaker s) + 2 \<and>
    br_config (bs_breaker s') = br_config (bs_breaker s)"
proof -
  have move: ?thesis if "s' = s\<lparr>bs_breaker := b'\<rparr>" "moves 2 (bs_breaker s) b'" for b'
    using moves_ok [OF assms(1) that(2)] moves_epoch [OF that(2)] that(1) by simp
  have one: "br_epoch (bs_breaker s) + 1 < 2 ^ 64" using assms(3) by simp
  note bump = moves_bump [OF one, THEN moves_mono, of 2, simplified]
  from assms(2) show ?thesis
  proof (cases rule: breaker_step.cases)
    case (looked now)
    then show ?thesis using bump by (intro move) (simp_all add: breaker_look_def Let_def)
  next
    case (percent_read now)
    then show ?thesis using moves_mono [OF moves_percent] by (intro move) simp_all
  next
    case (admitted now r b)
    with slots_admit [OF assms(1) admitted(3) assms(3,4)] show ?thesis by simp
  next
    case (recorded ok now)
    then show ?thesis using move moves_record [OF assms(3)] by blast
  next
    case (finished p oc now)
    with slots_finish [OF assms(1) _ assms(3), of p oc now] show ?thesis by simp
  next
    case (forced_open now d)
    then show ?thesis using move bump(5) by blast
  next
    case (forced_close now)
    then show ?thesis using move bump(6) by blast
  qed
qed

lemma slots_run:
  assumes "breaker_run c n s" "half_open_probes c \<le> u32_max" "2 * n < 2 ^ 64"
  shows "slots_ok s \<and> br_epoch (bs_breaker s) \<le> 2 * n \<and> br_config (bs_breaker s) = c"
  using assms
proof (induction rule: breaker_run.induct)
  case (init now)
  show ?case by (simp add: breaker_new_def slots_ok_def)
next
  case (step n s a s')
  then have IH: "slots_ok s" "br_epoch (bs_breaker s) \<le> 2 * n" "br_config (bs_breaker s) = c" by simp_all
  from slots_step [OF IH(1) step(2)] IH step.prems show ?case by simp
qed

text \<open>
  C10: half-open probe slots are exact. After any sequence of operations by any number of callers, a half-open
  breaker counts exactly the permits of the current epoch that hold a probe slot, never more than configured;
  every other permit still held belongs to an earlier state and matches neither the current epoch nor its
  slots.
\<close>

theorem breaker_slots_exact:
  assumes "breaker_run c n s" "half_open_probes c \<le> u32_max" "2 * n < 2 ^ 64"
  shows "(br_state (bs_breaker s) = HalfOpen \<longrightarrow>
       br_probes (bs_breaker s) = size {#p \<in># bs_permits s. pm_epoch p = br_epoch (bs_breaker s)#} \<and>
       br_probes (bs_breaker s) \<le> half_open_probes c) \<and>
     (\<forall>p\<in>#bs_permits s. pm_epoch p = br_epoch (bs_breaker s) \<longrightarrow>
        br_state (bs_breaker s) \<noteq> Open \<and> pm_probe p = (br_state (bs_breaker s) = HalfOpen))"
proof -
  have s: "slots_ok s" "br_config (bs_breaker s) = c" using slots_run [OF assms] by simp_all
  have "{#p \<in># bs_permits s. pm_epoch p = br_epoch (bs_breaker s)#} =
      {#p \<in># bs_permits s. p = \<lparr>pm_probe = True, pm_epoch = br_epoch (bs_breaker s)\<rparr>#}"
    if "br_state (bs_breaker s) = HalfOpen"
    using s(1) that by (intro filter_mset_cong refl) (auto simp: slots_ok_def Let_def)
  with s show ?thesis by (auto simp: slots_ok_def Let_def filter_eq_replicate_mset)
qed

theorem breaker_slots_exact_witness:
  "\<exists>s. breaker_run breaker_default 3 s \<and> br_state (bs_breaker s) = HalfOpen \<and> size (bs_permits s) = 1 \<and>
     br_probes (bs_breaker s) = size {#p \<in># bs_permits s. pm_epoch p = br_epoch (bs_breaker s)#}"
proof -
  define s0 where "s0 = \<lparr>bs_breaker = breaker_new breaker_default 0, bs_permits = {#}\<rparr>"
  define s1 where "s1 = s0\<lparr>bs_breaker := force_open 0 10 (bs_breaker s0)\<rparr>"
  define s2 where "s2 = s1\<lparr>bs_breaker := snd (breaker_look 20 (bs_breaker s1))\<rparr>"
  define p where "p = \<lparr>pm_probe = True, pm_epoch = 2\<rparr>"
  define s3 where "s3 = \<lparr>bs_breaker = snd (breaker_admit 20 (bs_breaker s2)), bs_permits = bs_permits s2 + {#p#}\<rparr>"
  note defs = s3_def s2_def s1_def s0_def p_def
  note ops = breaker_new_def breaker_default_def force_open_def breaker_look_def transition_if_cooled_def
    breaker_admit_def reclaim_lease_def bump_epoch_def Let_def sat_add64_def u64_max_def sat_u64_def
  have a: "breaker_admit 20 (bs_breaker s2) = (Some p, bs_breaker s3)"
    and h: "br_state (bs_breaker s3) = HalfOpen" "size (bs_permits s3) = 1"
    by (simp_all add: defs ops)
  have "breaker_run breaker_default 0 s0" unfolding s0_def by (rule breaker_run.init)
  from breaker_run.step [OF this breaker_step.forced_open [of 0 10]] have "breaker_run breaker_default (Suc 0) s1"
    unfolding s1_def .
  from breaker_run.step [OF this breaker_step.looked [of 20]] have "breaker_run breaker_default (Suc (Suc 0)) s2"
    unfolding s2_def .
  from breaker_run.step [OF this breaker_step.admitted [OF a]]
  have r: "breaker_run breaker_default 3 s3" by (simp add: s3_def numeral_3_eq_3)
  have "br_probes (bs_breaker s3) = size {#p \<in># bs_permits s3. pm_epoch p = br_epoch (bs_breaker s3)#}"
    using breaker_slots_exact [OF r] h(1) by (simp add: breaker_default_def u32_max_def)
  with r h show ?thesis by blast
qed

section \<open>Opening needs evidence\<close>

definition evidence :: "nat \<Rightarrow> breaker \<Rightarrow> bool" where
  "evidence now b \<longleftrightarrow>
     (let (ok, fail) = fst (rolling_totals now (rolling_record False now (br_counts b)));
          seen = sat_add32 ok fail
      in min_samples (br_config b) \<le> seen \<and> failure_threshold_percent (br_config b) * seen \<le> 100 * fail)"

lemma rotate_idem: "0 < rc_window c \<Longrightarrow> rotate_if_needed now (rotate_if_needed now c) = rotate_if_needed now c"
  by (simp add: rotate_if_needed_def Let_def)

lemma rolling_fail_pos: "rc_window c > 0 \<Longrightarrow> 0 < snd (fst (rolling_totals now (rolling_record False now c)))"
proof -
  assume w: "rc_window c > 0"
  have "rotate_if_needed now (rolling_record False now c) = rolling_record False now c"
    using w by (simp add: rolling_record_def rotate_if_needed_def Let_def)
  then show ?thesis by (simp add: rolling_totals_def rolling_record_def Let_def sat_add32_def u32_max_def)
qed

lemma percent_reaches:
  assumes "fail \<le> u32_max" "0 < seen"
  shows "thr \<le> failure_percent_of fail seen \<longleftrightarrow> thr * seen \<le> 100 * fail"
proof -
  have "sat_mul64 fail 100 = fail * 100" using assms(1) by (simp add: sat_mul64_def sat_u64_def int_limits)
  with assms(2) show ?thesis by (simp add: failure_percent_of_def less_eq_div_iff_mult_less_eq mult.commute)
qed

lemma open_over_threshold_iff:
  assumes "rc_window (br_counts b) > 0" "br_state b \<noteq> Open"
  shows "br_state (open_if_over_threshold now (count_outcome False now b)) = Open \<longleftrightarrow> evidence now b"
proof -
  let ?t = "fst (rolling_totals now (rolling_record False now (br_counts b)))"
  have "snd ?t \<le> u32_max" by (simp add: rolling_totals_def Let_def sat_add32_def)
  moreover have "0 < sat_add32 (fst ?t) (snd ?t)"
    using rolling_fail_pos [OF assms(1), of now] by (simp add: sat_add32_def u32_max_def)
  ultimately show ?thesis
    using assms(2) percent_reaches
    by (simp add: open_if_over_threshold_def evidence_def count_outcome_def breaker_open_def bump_epoch_def
        Let_def case_prod_beta)
qed

lemma not_open_cooled: "br_state b \<noteq> Open \<Longrightarrow> transition_if_cooled now b = b"
  by (simp add: transition_if_cooled_def)

lemma count_outcome_state [simp]: "br_state (count_outcome ok now b) = br_state b" "br_config (count_outcome ok now b) = br_config b"
  by (simp_all add: count_outcome_def)

lemma record_opens_iff:
  assumes "rc_window (br_counts b) > 0" "br_state b \<noteq> Open"
  shows "br_state (breaker_record ok now b) = Open \<longleftrightarrow> br_state b = Closed \<and> \<not> ok \<and> evidence now b"
  using assms open_over_threshold_iff [OF assms, of now]
  by (cases ok) (simp_all add: breaker_record_def not_open_cooled Let_def)

lemma finish_opens_iff:
  assumes "rc_window (br_counts b) > 0" "br_state b \<noteq> Open"
  shows "br_state (finish_permit p oc now b) = Open \<longleftrightarrow>
    oc = Some False \<and> pm_epoch p = br_epoch b \<and>
    (if pm_probe p then br_state b = HalfOpen else br_state b = Closed \<and> evidence now b)"
  using assms open_over_threshold_iff [OF assms, of now]
  by (cases oc)
    (auto simp: finish_permit_def not_open_cooled finish_probe_def breaker_close_def breaker_open_def bump_epoch_def
      count_outcome_def Let_def)

lemma admit_not_opens: "br_state b \<noteq> Open \<Longrightarrow> br_state (snd (breaker_admit now b)) \<noteq> Open"
  by (auto simp: breaker_admit_def not_open_cooled reclaim_lease_def bump_epoch_def Let_def split: breaker_state.split)

text \<open>
  C12: a breaker opens on evidence only, and on evidence always. Whatever operation moves a breaker that is not
  open to open, other than an operator's order, reported a failure: in the closed state with at least the
  configured number of samples in the window and the configured share of failures among them, in the half-open
  state through a probe permit of the current epoch. Conversely each such report opens it.
\<close>

theorem breaker_opens_iff_evidence:
  assumes "breaker_step a s s'" "br_state (bs_breaker s) \<noteq> Open" "\<forall>now d. a \<noteq> ForceOpen now d"
    "rc_window (br_counts (bs_breaker s)) > 0"
  shows "br_state (bs_breaker s') = Open \<longleftrightarrow>
    (\<exists>now. a = Record False now \<and> br_state (bs_breaker s) = Closed \<and> evidence now (bs_breaker s)) \<or>
    (\<exists>now p. a = Finish p (Some False) now \<and> pm_epoch p = br_epoch (bs_breaker s) \<and>
       (if pm_probe p then br_state (bs_breaker s) = HalfOpen
        else br_state (bs_breaker s) = Closed \<and> evidence now (bs_breaker s)))"
  using assms(1)
proof (cases rule: breaker_step.cases)
  case (admitted now r b)
  with admit_not_opens [OF assms(2), of now] show ?thesis by simp
next
  case (recorded ok now)
  then show ?thesis using record_opens_iff [OF assms(4,2)] by auto
next
  case (finished p oc now)
  then show ?thesis using finish_opens_iff [OF assms(4,2)] by auto
qed (use assms(2,3) in \<open>auto simp: breaker_look_def not_open_cooled breaker_failure_percent_def force_close_def
      bump_epoch_def Let_def case_prod_beta\<close>)

definition one_strike :: breaker_config where
  "one_strike = breaker_default\<lparr>min_samples := 1, failure_threshold_percent := 100\<rparr>"

theorem breaker_opens_iff_evidence_witness:
  "br_state (breaker_record False 5 (breaker_new one_strike 0)) = Open"
proof -
  let ?s = "\<lparr>bs_breaker = breaker_new one_strike 0, bs_permits = {#}\<rparr>"
  have "evidence 5 (bs_breaker ?s)"
    by (simp add: evidence_def one_strike_def breaker_default_def breaker_new_def rolling_new_def rolling_totals_def
        rolling_record_def rotate_if_needed_def Let_def sat_add32_def u32_max_def)
  with breaker_opens_iff_evidence [OF breaker_step.recorded [of False 5 ?s]] show ?thesis
    by (simp add: breaker_new_def one_strike_def breaker_default_def rolling_new_def)
qed

section \<open>Recovery\<close>

text \<open>One probe as a caller runs it: ask for a permit, succeed, report.\<close>

definition probe_cycle :: "nat \<Rightarrow> breaker \<Rightarrow> breaker option" where
  "probe_cycle now b =
     (case breaker_admit now b of (None, _) \<Rightarrow> None | (Some p, b) \<Rightarrow> Some (finish_permit p (Some True) now b))"

fun probe_cycles :: "nat \<Rightarrow> nat \<Rightarrow> breaker \<Rightarrow> breaker option" where
  "probe_cycles 0 now b = Some b"
| "probe_cycles (Suc n) now b = (case probe_cycle now b of None \<Rightarrow> None | Some b \<Rightarrow> probe_cycles n now b)"

lemma closed_cycle:
  assumes "br_state b = Closed"
  shows "\<exists>b'. probe_cycle now b = Some b' \<and> br_state b' = Closed"
  using assms
  by (simp add: probe_cycle_def breaker_admit_def not_open_cooled finish_permit_def count_outcome_def Let_def)

lemma closed_cycles: "br_state b = Closed \<Longrightarrow> \<exists>b'. probe_cycles n now b = Some b' \<and> br_state b' = Closed"
proof (induction n arbitrary: b)
  case (Suc n)
  from closed_cycle [OF Suc.prems, of now] obtain b' where "probe_cycle now b = Some b'" "br_state b' = Closed" by blast
  with Suc.IH show ?case by simp
qed simp

text \<open>A half-open breaker with a free slot after cooling and reclaiming.\<close>

definition ready :: "nat \<Rightarrow> nat \<Rightarrow> breaker \<Rightarrow> bool" where
  "ready n now b \<longleftrightarrow> br_state b = HalfOpen \<and> br_probes b < half_open_probes (br_config b) \<and> n \<le> br_successes b"

lemma ready_cycle:
  assumes "ready n now b" "half_open_probes (br_config b) \<le> u32_max" "n < u32_max"
  shows "\<exists>b'. probe_cycle now b = Some b' \<and> br_config b' = br_config b \<and>
    (br_state b' = Closed \<or> ready (Suc n) now b' \<and> Suc n < half_open_successes_to_close (br_config b))"
proof -
  have "reclaim_lease now b = b" using assms(1) by (simp add: ready_def reclaim_lease_def)
  with assms show ?thesis
    by (auto simp: probe_cycle_def breaker_admit_def not_open_cooled finish_permit_def finish_probe_def count_outcome_def
        breaker_close_def bump_epoch_def ready_def Let_def sat_add32_def)
qed

lemma ready_cycles:
  assumes "ready n now b" "half_open_probes (br_config b) \<le> u32_max"
    "half_open_successes_to_close (br_config b) \<le> u32_max"
    "n < half_open_successes_to_close (br_config b) \<or> n = 0"
  shows "\<exists>b'. probe_cycles (max 1 (half_open_successes_to_close (br_config b) - n)) now b = Some b' \<and> br_state b' = Closed"
  using assms
proof (induction "half_open_successes_to_close (br_config b) - n" arbitrary: n b rule: less_induct)
  case less
  let ?k = "half_open_successes_to_close (br_config b)"
  have "n < u32_max" using less.prems(3,4) by (auto simp: u32_max_def)
  from ready_cycle [OF less.prems(1,2) this] obtain b' where b': "probe_cycle now b = Some b'" "br_config b' = br_config b"
    "br_state b' = Closed \<or> ready (Suc n) now b' \<and> Suc n < ?k" by blast
  obtain m where m: "max 1 (?k - n) = Suc m" by (cases "max 1 (?k - n)") simp_all
  show ?case
  proof (cases "br_state b' = Closed")
    case True
    with closed_cycles b'(1) m show ?thesis by simp
  next
    case False
    with b'(3) have r: "ready (Suc n) now b'" "Suc n < ?k" by simp_all
    have "max 1 (?k - Suc n) = m" using r(2) m by linarith
    moreover have "\<exists>b''. probe_cycles (max 1 (?k - Suc n)) now b' = Some b'' \<and> br_state b'' = Closed"
      using less.hyps [of b' "Suc n"] r b'(2) less.prems(2,3) by simp
    ultimately have "\<exists>b''. probe_cycles m now b' = Some b'' \<and> br_state b'' = Closed" by metis
    then show ?thesis using b'(1) m by simp
  qed
qed

lemma cooldown_bounded:
  "br_open_until (breaker_open now b) \<le> now + max_cooldown_millis (br_config b)"
  by (simp add: breaker_open_def Let_def sat_add64_def sat_u64_def min_le_iff_disj)

lemma admit_prepared:
  assumes "br_state b \<noteq> Closed" "br_open_until b \<le> now" "br_last_probe b + PROBE_LEASE_MILLIS \<le> now"
    "0 < half_open_probes (br_config b)"
  shows "\<exists>b'. ready 0 now b' \<and> br_config b' = br_config b \<and> breaker_admit now b' = breaker_admit now b"
proof -
  let ?b = "reclaim_lease now (transition_if_cooled now b)"
  have h: "br_state ?b = HalfOpen" "br_config ?b = br_config b"
    using assms(1,2) by (cases "br_state b"; simp add: reclaim_lease_def transition_if_cooled_def bump_epoch_def)+
  have f: "br_probes ?b < half_open_probes (br_config ?b)"
    using assms by (auto simp: reclaim_lease_def transition_if_cooled_def bump_epoch_def)
  then have "reclaim_lease now ?b = ?b" by (simp add: reclaim_lease_def)
  moreover have "br_state (transition_if_cooled now b) = HalfOpen"
    using h(1) by (simp add: reclaim_lease_def bump_epoch_def split: if_splits)
  ultimately have "breaker_admit now ?b = breaker_admit now b"
    using h(1) by (simp add: breaker_admit_def Let_def not_open_cooled)
  with h f show ?thesis by (intro exI [of _ ?b]) (simp add: ready_def)
qed

text \<open>
  C11: an open or half-open breaker recovers. In any state whatever, once the cooldown has passed and any
  outstanding probe has outlived its lease, the configured number of successful probes in a row is admitted and
  closes the breaker; no sequence of lost permits can keep it open. The cooldown itself never exceeds the
  configured ceiling.
\<close>

theorem breaker_recovers:
  assumes "br_open_until b \<le> now" "br_last_probe b + PROBE_LEASE_MILLIS \<le> now"
    "0 < half_open_probes (br_config b)" "half_open_probes (br_config b) \<le> u32_max"
    "half_open_successes_to_close (br_config b) \<le> u32_max"
  shows "(\<exists>b'. probe_cycles (max 1 (half_open_successes_to_close (br_config b))) now b = Some b' \<and> br_state b' = Closed) \<and>
    (\<forall>t. br_open_until (breaker_open t b) \<le> t + max_cooldown_millis (br_config b))"
proof (cases "br_state b = Closed")
  case True
  with closed_cycles cooldown_bounded show ?thesis by blast
next
  case False
  from admit_prepared [OF False assms(1-3)] obtain b1 where b1: "ready 0 now b1" "br_config b1 = br_config b"
    "breaker_admit now b1 = breaker_admit now b" by blast
  obtain m where m: "max 1 (half_open_successes_to_close (br_config b)) = Suc m"
    by (cases "max 1 (half_open_successes_to_close (br_config b))") simp_all
  have "probe_cycles (Suc m) now b = probe_cycles (Suc m) now b1" by (simp add: probe_cycle_def b1(3))
  with ready_cycles [OF b1(1)] b1(2) assms(4,5) m cooldown_bounded show ?thesis by simp
qed

theorem breaker_recovers_witness:
  "\<exists>b'. probe_cycles 3 400000 (breaker_open 5 (breaker_new breaker_default 0)) = Some b' \<and> br_state b' = Closed"
proof -
  let ?b = "breaker_open 5 (breaker_new breaker_default 0)"
  have "br_open_until ?b \<le> 400000" "br_last_probe ?b + PROBE_LEASE_MILLIS \<le> 400000" "br_config ?b = breaker_default"
    using cooldown_bounded [of 5 "breaker_new breaker_default 0"]
    by (simp_all add: breaker_open_def breaker_new_def breaker_default_def bump_epoch_def PROBE_LEASE_MILLIS_def Let_def)
  with breaker_recovers [of ?b 400000] show ?thesis by (simp add: breaker_default_def u32_max_def)
qed

section \<open>The rolling window\<close>

text \<open>
  The window's history: outcomes recorded and totals read, with their times. The window keeps two sums; these
  lemmas say which stretch of the history the sums stand for.
\<close>

type_synonym window_events = "(bool option \<times> nat) list"

definition window_step :: "bool option \<times> nat \<Rightarrow> rolling_counts \<Rightarrow> rolling_counts" where
  "window_step e c = (case fst e of None \<Rightarrow> snd (rolling_totals (snd e) c) | Some ok \<Rightarrow> rolling_record ok (snd e) c)"

definition outcomes :: "bool \<Rightarrow> window_events \<Rightarrow> nat" where
  "outcomes ok evs = length (filter (\<lambda>e. fst e = Some ok) evs)"

lemma outcomes_simps [simp]:
  "outcomes ok [] = 0" "outcomes ok (xs @ ys) = outcomes ok xs + outcomes ok ys"
  "outcomes ok [e] = (if fst e = Some ok then 1 else 0)"
  by (simp_all add: outcomes_def)

lemma outcomes_le: "outcomes ok evs \<le> length evs"
  by (simp add: outcomes_def)

definition window_split :: "nat \<Rightarrow> window_events \<Rightarrow> window_events \<Rightarrow> window_events \<Rightarrow> rolling_counts \<Rightarrow> bool" where
  "window_split w old prv cur c \<longleftrightarrow>
     rc_window c = w \<and>
     rc_cur_ok c = outcomes True cur \<and> rc_cur_fail c = outcomes False cur \<and>
     rc_prev_ok c = outcomes True prv \<and> rc_prev_fail c = outcomes False prv \<and>
     (\<forall>e\<in>set cur. rc_start c \<le> snd e \<and> snd e < rc_start c + w) \<and>
     (\<forall>e\<in>set prv. snd e < rc_start c \<and> rc_start c < snd e + 2 * w) \<and>
     (\<forall>e\<in>set old. snd e + w \<le> rc_start c)"

lemma window_rotate:
  assumes "window_split w old prv cur c" "0 < w" "2 * w \<le> u64_max" "rc_start c \<le> now"
  shows "\<exists>old' prv' cur'. old @ prv @ cur = old' @ prv' @ cur' \<and> window_split w old' prv' cur' (rotate_if_needed now c) \<and>
    rc_start (rotate_if_needed now c) \<le> now \<and> now < rc_start (rotate_if_needed now c) + w"
proof -
  have two: "sat_mul64 w 2 = 2 * w" using assms(3) by (simp add: sat_mul64_def sat_u64_def mult.commute)
  consider "now < rc_start c + w" | "rc_start c + w \<le> now" "now < rc_start c + 2 * w" | "rc_start c + 2 * w \<le> now" by linarith
  then show ?thesis
  proof cases
    case 1
    then have "rotate_if_needed now c = c" using assms(1,4) by (auto simp: rotate_if_needed_def Let_def window_split_def)
    with 1 assms(1,4) show ?thesis by auto
  next
    case 2
    then have "window_split w (old @ prv) cur [] (rotate_if_needed now c) \<and> rc_start (rotate_if_needed now c) = now"
      using assms(1) two by (auto simp: rotate_if_needed_def Let_def window_split_def)
    then show ?thesis using assms(2) by (intro exI [of _ "old @ prv"] exI [of _ cur] exI [of _ "[]"]) simp
  next
    case 3
    then have "window_split w (old @ prv @ cur) [] [] (rotate_if_needed now c) \<and> rc_start (rotate_if_needed now c) = now"
      using assms(1,2) two by (auto simp: rotate_if_needed_def Let_def window_split_def)
    then show ?thesis using assms(2) by (intro exI [of _ "old @ prv @ cur"] exI [of _ "[]"]) simp
  qed
qed

lemma window_step_split:
  assumes "window_split w old prv cur c" "0 < w" "2 * w \<le> u64_max" "rc_start c \<le> snd e"
    "length (old @ prv @ cur) < u32_max"
  shows "\<exists>old' prv' cur'. old @ prv @ cur @ [e] = old' @ prv' @ cur' \<and> window_split w old' prv' cur' (window_step e c) \<and>
    rc_start (window_step e c) \<le> snd e"
proof -
  from window_rotate [OF assms(1-4)] obtain old' prv' cur' where
    r: "old @ prv @ cur = old' @ prv' @ cur'" "window_split w old' prv' cur' (rotate_if_needed (snd e) c)"
    "rc_start (rotate_if_needed (snd e) c) \<le> snd e" "snd e < rc_start (rotate_if_needed (snd e) c) + w" by blast
  have "sat_add32 (outcomes ok cur') 1 = outcomes ok cur' + 1" for ok
    using outcomes_le [of ok cur'] assms(5) unfolding r(1) by (simp add: sat_add32_def)
  then have "window_split w old' prv' (cur' @ [e]) (window_step e c) \<and> rc_start (window_step e c) \<le> snd e"
    using r(2-4)
    by (auto simp: window_step_def rolling_record_def rolling_totals_def Let_def window_split_def split: option.split)
  with r(1) show ?thesis by (metis append_assoc)
qed

lemma window_run_split:
  assumes "0 < w" "2 * w \<le> u64_max" "sorted (map snd evs)" "\<forall>e\<in>set evs. start \<le> snd e" "length evs \<le> u32_max"
  shows "\<exists>old prv cur. evs = old @ prv @ cur \<and> window_split w old prv cur (fold window_step evs (rolling_new w start)) \<and>
    (\<forall>now\<ge>start. (\<forall>e\<in>set evs. snd e \<le> now) \<longrightarrow> rc_start (fold window_step evs (rolling_new w start)) \<le> now)"
  using assms(3-5)
proof (induction evs rule: rev_induct)
  case Nil
  show ?case by (simp add: window_split_def rolling_new_def)
next
  case (snoc e evs)
  define c where "c = fold window_step evs (rolling_new w start)"
  have "sorted (map snd evs)" "\<forall>e\<in>set evs. start \<le> snd e" "length evs \<le> u32_max" using snoc.prems by (simp_all add: sorted_append)
  from snoc.IH [OF this, folded c_def] obtain old prv cur where IH: "evs = old @ prv @ cur" "window_split w old prv cur c"
    "\<forall>now\<ge>start. (\<forall>e\<in>set evs. snd e \<le> now) \<longrightarrow> rc_start c \<le> now" by blast
  have "\<forall>x\<in>set evs. snd x \<le> snd e" "start \<le> snd e" using snoc.prems(1,2) by (auto simp: sorted_append)
  with IH(3) have "rc_start c \<le> snd e" by blast
  moreover have "length (old @ prv @ cur) < u32_max" using snoc.prems(3) IH(1) by simp
  ultimately obtain old' prv' cur' where
    n: "old @ prv @ cur @ [e] = old' @ prv' @ cur'" "window_split w old' prv' cur' (window_step e c)"
    "rc_start (window_step e c) \<le> snd e" using window_step_split [OF IH(2) assms(1,2)] by blast
  have "fold window_step (evs @ [e]) (rolling_new w start) = window_step e c" by (simp add: c_def)
  moreover have "evs @ [e] = old' @ prv' @ cur'" using n(1) IH(1) by simp
  moreover have "rc_start (window_step e c) \<le> now" if "\<forall>x\<in>set (evs @ [e]). snd x \<le> now" for now
    using n(3) that by fastforce
  ultimately show ?case using n(2) by metis
qed

definition within_last :: "nat \<Rightarrow> nat \<Rightarrow> window_events \<Rightarrow> window_events" where
  "within_last len now evs = filter (\<lambda>e. now < snd e + len) evs"

lemma within_last_append: "within_last len now (xs @ ys) = within_last len now xs @ within_last len now ys"
  by (simp add: within_last_def)

lemma outcomes_within_le: "outcomes v (within_last len now evs) \<le> outcomes v evs"
  by (induction evs) (auto simp: outcomes_def within_last_def)

text \<open>
  C14: the rolling window is a window. Whatever outcomes were recorded and totals read, in time order, the totals
  read at any later time count every outcome of the last window and no outcome older than three windows,
  without storing a time per sample.
\<close>

theorem rolling_window_brackets:
  assumes "0 < w" "2 * w \<le> u64_max" "sorted (map snd evs)" "\<forall>e\<in>set evs. start \<le> snd e \<and> snd e \<le> now"
    "start \<le> now" "length evs \<le> u32_max"
    "fst (rolling_totals now (fold window_step evs (rolling_new w start))) = (ok, fail)"
  shows "outcomes True (within_last w now evs) \<le> ok \<and> ok \<le> outcomes True (within_last (3 * w) now evs) \<and>
    outcomes False (within_last w now evs) \<le> fail \<and> fail \<le> outcomes False (within_last (3 * w) now evs)"
proof -
  define c where "c = fold window_step evs (rolling_new w start)"
  from window_run_split [OF assms(1-3) _ assms(6), of start, folded c_def] assms(4) obtain old prv cur where
    s: "evs = old @ prv @ cur" "window_split w old prv cur c"
    "\<forall>now\<ge>start. (\<forall>e\<in>set evs. snd e \<le> now) \<longrightarrow> rc_start c \<le> now" by blast
  then have "rc_start c \<le> now" using assms(4,5) by blast
  from window_rotate [OF s(2) assms(1,2) this] obtain old' prv' cur' where
    r: "evs = old' @ prv' @ cur'" "window_split w old' prv' cur' (rotate_if_needed now c)"
    "rc_start (rotate_if_needed now c) \<le> now" "now < rc_start (rotate_if_needed now c) + w" unfolding s(1) by blast
  have tot: "outcomes v prv' + outcomes v cur' \<le> u32_max" for v
    using outcomes_le [of v prv'] outcomes_le [of v cur'] assms(6) by (simp add: r(1))
  have vals: "ok = outcomes True (prv' @ cur')" "fail = outcomes False (prv' @ cur')"
    using assms(7) [folded c_def] r(2) tot [of True] tot [of False]
    by (auto simp: rolling_totals_def Let_def window_split_def sat_add32_def add.commute)
  have new: "now < snd e + 3 * w" if "e \<in> set (prv' @ cur')" for e
    using that r(2-4) by (fastforce simp: window_split_def)
  have stale: "snd e + w \<le> now" if "e \<in> set old'" for e
    using that r(2,3) by (fastforce simp: window_split_def)
  have "within_last (3 * w) now (prv' @ cur') = prv' @ cur'"
    unfolding within_last_def using new by (intro filter_True) blast
  then have up: "outcomes v (prv' @ cur') \<le> outcomes v (within_last (3 * w) now evs)" for v
    using within_last_append [of "3 * w" now old' "prv' @ cur'"] by (simp add: r(1))
  have "within_last w now old' = []"
    unfolding within_last_def using stale by (intro filter_False) (auto simp: not_less)
  then have "within_last w now evs = within_last w now (prv' @ cur')"
    using within_last_append [of w now old' "prv' @ cur'"] by (simp add: r(1))
  then have "outcomes v (within_last w now evs) \<le> outcomes v (prv' @ cur')" for v
    using outcomes_within_le [of v w now "prv' @ cur'"] by simp
  with up vals show ?thesis by simp
qed

theorem rolling_window_brackets_witness:
  "fst (rolling_totals 25 (fold window_step [(Some False, 3), (Some True, 12), (Some False, 14)] (rolling_new 10 0))) =
     (1, 1)"
proof -
  let ?evs = "[(Some False, 3), (Some True, 12), (Some False, 14)]"
  let ?t = "fst (rolling_totals 25 (fold window_step ?evs (rolling_new 10 0)))"
  have "outcomes True (within_last 10 25 ?evs) \<le> fst ?t \<and> fst ?t \<le> outcomes True (within_last (3 * 10) 25 ?evs) \<and>
    outcomes False (within_last 10 25 ?evs) \<le> snd ?t \<and> snd ?t \<le> outcomes False (within_last (3 * 10) 25 ?evs)"
    by (rule rolling_window_brackets [of 10 ?evs 0]) (simp_all add: int_limits)
  then show ?thesis
    by (simp add: window_step_def rolling_totals_def rolling_record_def rotate_if_needed_def rolling_new_def
        sat_mul64_def sat_u64_def sat_add32_def int_limits Let_def)
qed

end
