(* ===== verification/Health.thy ===== *)
theory Health
  imports Breaker Routing
begin

text \<open>
  Health of targets (\<open>hypellm-core/src/health.rs\<close>): the liveness probe's record, the health entry of a
  target and operation around its breaker, and the registry that routing consults as its live state. Clock
  readings are arguments, monotonic milliseconds for breakers and ramps and wall-clock milliseconds for
  quarantines.
\<close>

section \<open>Liveness probe\<close>

definition PROBE_FAILURES_TO_EXCLUDE :: nat where "PROBE_FAILURES_TO_EXCLUDE = 2"
definition PROBE_SUCCESSES_TO_RESTORE :: nat where "PROBE_SUCCESSES_TO_RESTORE = 2"

datatype probe_state = Reachable | Unreachable

fun probe_state_as_str :: "probe_state \<Rightarrow> string" where
  "probe_state_as_str Reachable = ''reachable''"
| "probe_state_as_str Unreachable = ''unreachable''"

record probe_status =
  ps_state :: probe_state
  ps_failures :: nat
  ps_successes :: nat
  ps_last_ok :: bool
  ps_last_probe_wall :: nat
  ps_restored_at :: "nat option"

definition probe_fresh :: probe_status where
  "probe_fresh =
     \<lparr>ps_state = Reachable, ps_failures = 0, ps_successes = 0, ps_last_ok = True, ps_last_probe_wall = 0,
      ps_restored_at = None\<rparr>"

definition probe_observe :: "bool \<Rightarrow> nat \<Rightarrow> nat \<Rightarrow> probe_status \<Rightarrow> probe_state option \<times> probe_status" where
  "probe_observe ok now wall p =
     (let p = p\<lparr>ps_last_ok := ok, ps_last_probe_wall := wall\<rparr>
      in if ok
         then (let p = p\<lparr>ps_failures := 0, ps_successes := sat_add32 (ps_successes p) 1\<rparr>
               in if ps_state p = Unreachable \<and> ps_successes p \<ge> PROBE_SUCCESSES_TO_RESTORE
                  then (Some Reachable, p\<lparr>ps_state := Reachable, ps_restored_at := Some now\<rparr>)
                  else (None, p))
         else (let p = p\<lparr>ps_successes := 0, ps_failures := sat_add32 (ps_failures p) 1\<rparr>
               in if ps_state p = Reachable \<and> ps_failures p \<ge> PROBE_FAILURES_TO_EXCLUDE
                  then (Some Unreachable, p\<lparr>ps_state := Unreachable, ps_restored_at := None\<rparr>)
                  else (None, p)))"

section \<open>Health of a target and operation\<close>

record target_health =
  th_breaker :: breaker
  th_first_byte :: ewma
  th_latency :: histogram
  th_in_flight :: nat
  th_total_requests :: nat
  th_total_failures :: nat

definition target_health_new :: "breaker_config \<Rightarrow> nat \<Rightarrow> target_health" where
  "target_health_new config now =
     \<lparr>th_breaker = breaker_new config now, th_first_byte = ewma_smooth, th_latency = latency_ms,
      th_in_flight = 0, th_total_requests = 0, th_total_failures = 0\<rparr>"

definition note_success :: "nat \<Rightarrow> nat \<Rightarrow> target_health \<Rightarrow> target_health" where
  "note_success first_byte_ms total_ms h =
     h\<lparr>th_first_byte := ewma_observe first_byte_ms (th_first_byte h),
       th_latency := histogram_observe total_ms (th_latency h),
       th_total_requests := (th_total_requests h + 1) mod 2 ^ 64\<rparr>"

definition note_failure :: "upstream_error_class \<Rightarrow> target_health \<Rightarrow> target_health" where
  "note_failure cls h =
     h\<lparr>th_total_requests := (th_total_requests h + 1) mod 2 ^ 64,
       th_total_failures := (if affects_health cls then (th_total_failures h + 1) mod 2 ^ 64
                             else th_total_failures h)\<rparr>"

definition record_success :: "nat \<Rightarrow> nat \<Rightarrow> nat \<Rightarrow> target_health \<Rightarrow> target_health" where
  "record_success first_byte_ms total_ms now h =
     (note_success first_byte_ms total_ms h)\<lparr>th_breaker := breaker_record True now (th_breaker h)\<rparr>"

definition record_failure :: "upstream_error_class \<Rightarrow> nat \<Rightarrow> target_health \<Rightarrow> target_health" where
  "record_failure cls now h =
     (let h = note_failure cls h
      in if affects_health cls then h\<lparr>th_breaker := breaker_record False now (th_breaker h)\<rparr> else h)"

definition finish_success :: "breaker_permit \<Rightarrow> nat \<Rightarrow> nat \<Rightarrow> nat \<Rightarrow> target_health \<Rightarrow> target_health" where
  "finish_success p first_byte_ms total_ms now h =
     (note_success first_byte_ms total_ms h)\<lparr>th_breaker := finish_permit p (Some True) now (th_breaker h)\<rparr>"

definition finish_failure :: "breaker_permit \<Rightarrow> upstream_error_class \<Rightarrow> nat \<Rightarrow> target_health \<Rightarrow> target_health" where
  "finish_failure p cls now h =
     (note_failure cls h)\<lparr>th_breaker :=
        finish_permit p (if affects_health cls then Some False else None) now (th_breaker h)\<rparr>"

definition health_enter :: "target_health \<Rightarrow> target_health" where
  "health_enter h = h\<lparr>th_in_flight := (th_in_flight h + 1) mod 2 ^ 32\<rparr>"

definition health_exit :: "target_health \<Rightarrow> target_health" where
  "health_exit h = h\<lparr>th_in_flight := th_in_flight h - 1\<rparr>"

section \<open>Registry\<close>

type_synonym health_key = "target_id \<times> operation"

record health_registry =
  hr_config :: breaker_config
  hr_entries :: "(health_key, target_health) btree_map"
  hr_quarantined :: "(target_id, nat) btree_map"
  hr_capacities :: "(target_id, nat) btree_map"
  hr_queue_allowance :: "(target_id, nat) btree_map"
  hr_admin_states :: "(target_id, admin_state) btree_map"
  hr_probes :: "(target_id, probe_status) btree_map"

definition registry_new :: "breaker_config \<Rightarrow> health_registry" where
  "registry_new config =
     \<lparr>hr_config = config, hr_entries = [], hr_quarantined = [], hr_capacities = [], hr_queue_allowance = [],
      hr_admin_states = [], hr_probes = []\<rparr>"

definition health_entry :: "target_id \<Rightarrow> operation \<Rightarrow> nat \<Rightarrow> health_registry \<Rightarrow> target_health \<times> health_registry" where
  "health_entry t op now reg =
     (case btree_get (hr_entries reg) (t, op) of
        Some h \<Rightarrow> (h, reg)
      | None \<Rightarrow> (let h = target_health_new (hr_config reg) now
                 in (h, reg\<lparr>hr_entries := btree_insert (t, op) h (hr_entries reg)\<rparr>)))"

definition set_capacity :: "target_id \<Rightarrow> nat \<Rightarrow> health_registry \<Rightarrow> health_registry" where
  "set_capacity t n reg = reg\<lparr>hr_capacities := btree_insert t n (hr_capacities reg)\<rparr>"

definition set_queue_allowance :: "target_id \<Rightarrow> nat \<Rightarrow> health_registry \<Rightarrow> health_registry" where
  "set_queue_allowance t n reg = reg\<lparr>hr_queue_allowance := btree_insert t n (hr_queue_allowance reg)\<rparr>"

definition set_admin_state :: "target_id \<Rightarrow> admin_state option \<Rightarrow> health_registry \<Rightarrow> health_registry" where
  "set_admin_state t st reg =
     reg\<lparr>hr_admin_states :=
       (case st of None \<Rightarrow> btree_remove t (hr_admin_states reg)
        | Some Enabled \<Rightarrow> btree_remove t (hr_admin_states reg)
        | Some other \<Rightarrow> btree_insert t other (hr_admin_states reg))\<rparr>"

definition is_quarantined :: "nat \<Rightarrow> health_registry \<Rightarrow> target_id \<Rightarrow> bool" where
  "is_quarantined wall reg t = is_some_and (\<lambda>until. until > wall) (btree_get (hr_quarantined reg) t)"

definition registry_admin_state :: "nat \<Rightarrow> health_registry \<Rightarrow> target_id \<Rightarrow> admin_state option" where
  "registry_admin_state wall reg t =
     (if is_quarantined wall reg t then Some Quarantined else btree_get (hr_admin_states reg) t)"

definition quarantine :: "target_id \<Rightarrow> nat \<Rightarrow> health_registry \<Rightarrow> health_registry" where
  "quarantine t until_wall reg = reg\<lparr>hr_quarantined := btree_insert t until_wall (hr_quarantined reg)\<rparr>"

definition release_quarantine :: "target_id \<Rightarrow> health_registry \<Rightarrow> health_registry" where
  "release_quarantine t reg = reg\<lparr>hr_quarantined := btree_remove t (hr_quarantined reg)\<rparr>"

definition record_probe :: "target_id \<Rightarrow> bool \<Rightarrow> nat \<Rightarrow> nat \<Rightarrow> health_registry \<Rightarrow> probe_state option \<times> health_registry" where
  "record_probe t ok now wall reg =
     (let (edge, p) = probe_observe ok now wall (unwrap_or probe_fresh (btree_get (hr_probes reg) t))
      in (edge, reg\<lparr>hr_probes := btree_insert t p (hr_probes reg)\<rparr>))"

definition retain_probes :: "target_id list \<Rightarrow> health_registry \<Rightarrow> health_registry" where
  "retain_probes probed reg = reg\<lparr>hr_probes := filter (\<lambda>(t, _). t \<in> set probed) (hr_probes reg)\<rparr>"

definition probe_down :: "health_registry \<Rightarrow> target_id \<Rightarrow> bool" where
  "probe_down reg t = is_some_and (\<lambda>p. ps_state p = Unreachable) (btree_get (hr_probes reg) t)"

definition probe_restoration_permille :: "nat \<Rightarrow> health_registry \<Rightarrow> target_id \<Rightarrow> nat" where
  "probe_restoration_permille now reg t =
     (case btree_get (hr_probes reg) t of None \<Rightarrow> 1000
      | Some p \<Rightarrow> (case ps_restored_at p of None \<Rightarrow> 1000 | Some since \<Rightarrow> ramp_permille since now))"

definition target_entries :: "health_registry \<Rightarrow> target_id \<Rightarrow> target_health list" where
  "target_entries reg t = map snd (filter (\<lambda>(k, _). fst k = t) (hr_entries reg))"

definition any_circuit_open :: "nat \<Rightarrow> health_registry \<Rightarrow> target_id \<Rightarrow> bool" where
  "any_circuit_open now reg t =
     list_ex (\<lambda>h. fst (breaker_look now (th_breaker h)) = Open) (target_entries reg t)"

definition worst_failure_percent :: "nat \<Rightarrow> health_registry \<Rightarrow> target_id \<Rightarrow> nat" where
  "worst_failure_percent now reg t =
     fold max (map (\<lambda>h. fst (breaker_failure_percent now (th_breaker h))) (target_entries reg t)) 0"

definition list_min_or :: "nat \<Rightarrow> nat list \<Rightarrow> nat" where
  "list_min_or d xs = (case xs of [] \<Rightarrow> d | x # xs \<Rightarrow> fold min xs x)"

definition worst_restoration_permille :: "nat \<Rightarrow> health_registry \<Rightarrow> target_id \<Rightarrow> nat" where
  "worst_restoration_permille now reg t =
     min (list_min_or 1000 (map (\<lambda>h. restoration_permille now (th_breaker h)) (target_entries reg t)))
       (probe_restoration_permille now reg t)"

definition slowest_first_byte :: "health_registry \<Rightarrow> target_id \<Rightarrow> nat option" where
  "slowest_first_byte reg t =
     (case List.map_filter (\<lambda>h. ewma_value (th_first_byte h)) (target_entries reg t) of
        [] \<Rightarrow> None | x # xs \<Rightarrow> Some (fold max xs x))"

text \<open>
  The counters are \<open>u32\<close> and so is their sum, whose overflow would be a panic; they count requests in flight of one
  process, and the sum is taken to fit.
\<close>

definition total_in_flight :: "health_registry \<Rightarrow> target_id \<Rightarrow> nat" where
  "total_in_flight reg t = sum_list (map th_in_flight (target_entries reg t))"

section \<open>The registry as live state\<close>

definition registry_health_penalty :: "nat \<Rightarrow> health_registry \<Rightarrow> target_id \<Rightarrow> int" where
  "registry_health_penalty now reg t =
     (let percent = int (worst_failure_percent now reg t);
          observed = - clamp_i 0 50000 (percent * 500);
          restored = worst_restoration_permille now reg t;
          lost = sat_mul64 (1000 - restored) 25;
          ramp_penalty = - (if int lost \<le> i64_max then int lost else 0)
      in clamp_i (- 50000) 0 (sat_addi observed ramp_penalty))"

definition registry_latency_penalty :: "health_registry \<Rightarrow> target_id \<Rightarrow> int" where
  "registry_latency_penalty reg t =
     (case slowest_first_byte reg t of
        None \<Rightarrow> 0
      | Some ms \<Rightarrow> - (if ms \<le> 100 then 0 else if ms \<le> 500 then 5000 else if ms \<le> 1000 then 15000
                     else if ms \<le> 5000 then 30000 else 50000))"

definition registry_queue_penalty :: "health_registry \<Rightarrow> target_id \<Rightarrow> int" where
  "registry_queue_penalty reg t =
     (let in_flight = int (total_in_flight reg t)
      in case btree_get (hr_capacities reg) t of
           None \<Rightarrow> - clamp_i 0 50000 (sat_i64 (in_flight * 100))
         | Some cap \<Rightarrow>
             (if cap = 0 then - clamp_i 0 50000 (sat_i64 (in_flight * 100))
              else (let used_percent = sat_i64 (in_flight * 100) div max (int cap) 1
                    in - clamp_i 0 50000 (sat_i64 (used_percent * 500)))))"

definition registry_has_capacity :: "health_registry \<Rightarrow> target_id \<Rightarrow> bool" where
  "registry_has_capacity reg t =
     (let queue = unwrap_or 0 (btree_get (hr_queue_allowance reg) t)
      in case btree_get (hr_capacities reg) t of
           None \<Rightarrow> True
         | Some cap \<Rightarrow> cap = 0 \<or> total_in_flight reg t < sat_add32 cap queue)"

definition registry_live :: "nat \<Rightarrow> nat \<Rightarrow> health_registry \<Rightarrow> live_state" where
  "registry_live now wall reg =
     \<lparr>circuit_open = (\<lambda>t. is_quarantined wall reg t \<or> any_circuit_open now reg t),
      health_penalty = registry_health_penalty now reg,
      latency_penalty = registry_latency_penalty reg,
      queue_penalty = registry_queue_penalty reg,
      affinity_bonus = (\<lambda>_. 0),
      has_capacity = registry_has_capacity reg,
      admin_override = registry_admin_state wall reg,
      probe_unreachable = probe_down reg,
      failure_percent = worst_failure_percent now reg,
      residency_class_of = (\<lambda>_. Unmanaged),
      activation_eta_ms = (\<lambda>_. 0),
      fleet_observation_age_ms = None\<rparr>"

section \<open>The probe's verdict\<close>

text \<open>
  The reference: the most recent pair of equal consecutive outcomes decides, newest first; without one the
  target counts as reachable.
\<close>

fun last_pair :: "bool list \<Rightarrow> bool option" where
  "last_pair (a # b # xs) = (if a = b then Some a else last_pair (b # xs))"
| "last_pair _ = None"

definition probe_run :: "(bool \<times> nat \<times> nat) list \<Rightarrow> probe_status" where
  "probe_run obs = fold (\<lambda>(ok, now, wall) p. snd (probe_observe ok now wall p)) obs probe_fresh"

lemma probe_run_snoc: "probe_run (obs @ [(ok, now, wall)]) = snd (probe_observe ok now wall (probe_run obs))"
  by (simp add: probe_run_def)

text \<open>The counters hold the length of the current run of equal outcomes, as far as the thresholds can tell.\<close>

definition probe_inv :: "bool list \<Rightarrow> probe_status \<Rightarrow> bool" where
  "probe_inv outs p \<longleftrightarrow>
     (ps_state p = Unreachable \<longleftrightarrow> last_pair outs = Some False) \<and>
     (1 \<le> ps_successes p \<longleftrightarrow> (\<exists>xs. outs = True # xs)) \<and>
     (1 \<le> ps_failures p \<longleftrightarrow> (\<exists>xs. outs = False # xs))"

lemma probe_inv_step:
  assumes "probe_inv outs p"
  shows "probe_inv (ok # outs) (snd (probe_observe ok now wall p))"
proof -
  have two: "2 \<le> sat_add32 n 1 \<longleftrightarrow> 1 \<le> n" "1 \<le> sat_add32 n 1" for n by (auto simp: sat_add32_def u32_max_def)
  show ?thesis
    using assms
    by (cases ok; cases outs; cases "ps_state p")
      (auto simp: probe_inv_def probe_observe_def Let_def PROBE_FAILURES_TO_EXCLUDE_def PROBE_SUCCESSES_TO_RESTORE_def
        two One_nat_def [symmetric] simp del: One_nat_def)
qed

lemma probe_inv_run: "probe_inv (rev (map fst obs)) (probe_run obs)"
proof (induction obs rule: rev_induct)
  case Nil
  show ?case by (simp add: probe_inv_def probe_run_def probe_fresh_def)
next
  case (snoc o' obs)
  then show ?case using probe_inv_step by (cases o') (simp add: probe_run_snoc)
qed

text \<open>
  The liveness verdict is the last repeated outcome. After any series of probes a target is excluded exactly
  when the most recent two equal consecutive outcomes were failures, so one lost probe never excludes a target
  and one lucky answer never restores it.
\<close>

theorem probe_verdict:
  "ps_state (probe_run obs) = Unreachable \<longleftrightarrow> last_pair (rev (map fst obs)) = Some False"
  using probe_inv_run [of obs] by (simp add: probe_inv_def)

section \<open>Routing never picks an unhealthy target\<close>

lemma live_sel [simp]:
  "circuit_open (registry_live now wall reg) t \<longleftrightarrow> is_quarantined wall reg t \<or> any_circuit_open now reg t"
  "has_capacity (registry_live now wall reg) t = registry_has_capacity reg t"
  "admin_override (registry_live now wall reg) t = registry_admin_state wall reg t"
  "probe_unreachable (registry_live now wall reg) t = probe_down reg t"
  "residency_class_of (registry_live now wall reg) t = Unmanaged"
  by (simp_all add: registry_live_def)

lemma entry_in_target: "btree_get (hr_entries reg) (t, op) = Some h \<Longrightarrow> h \<in> set (target_entries reg t)"
  by (force simp: target_entries_def btree_get_def dest: map_of_SomeD)

text \<open>
  C13: routing on the registry's live state never picks an unhealthy target. A candidate is not quarantined, its breaker
  for the operation of the request is not open at that moment, the liveness probe has not excluded it, no operator
  took it out of rotation, and its requests in flight leave room under its declared capacity and queue.
\<close>

theorem registry_route_safe:
  assumes "c \<in> set (ro_candidates (route ps ctx req (registry_live now wall reg)))"
  shows "\<not> is_quarantined wall reg (cand_target c) \<and>
    (\<forall>h. btree_get (hr_entries reg) (cand_target c, req_operation req) = Some h \<longrightarrow> fst (breaker_look now (th_breaker h)) \<noteq> Open) \<and>
    \<not> probe_down reg (cand_target c) \<and>
    (\<forall>st. btree_get (hr_admin_states reg) (cand_target c) = Some st \<longrightarrow> st = Enabled) \<and>
    (\<forall>cap. btree_get (hr_capacities reg) (cand_target c) = Some cap \<and> 0 < cap \<longrightarrow>
       total_in_flight reg (cand_target c) < sat_add32 cap (unwrap_or 0 (btree_get (hr_queue_allowance reg) (cand_target c))))"
proof -
  from assms obtain al tid t where
    ev: "evaluate ps ctx req al t (merge_bindings ps ctx (requested_model req)) (registry_live now wall reg) = Inr c"
    by (rule route_candidate)
  note f = evaluate_InrD(1) [OF ev, unfolded all_filters_def or_reason_None filters_None live_sel]
  have c: "cand_target c = tgt_id t" using evaluate_InrD(2) [OF ev] .
  have q: "\<not> is_quarantined wall reg (tgt_id t)" "\<not> any_circuit_open now reg (tgt_id t)" "\<not> probe_down reg (tgt_id t)"
    "registry_has_capacity reg (tgt_id t)" using f by simp_all
  have a: "btree_get (hr_admin_states reg) (tgt_id t) = Some st \<Longrightarrow> st = Enabled" for st
    using f q(1) by (simp add: registry_admin_state_def)
  have o: "fst (breaker_look now (th_breaker h)) \<noteq> Open" if "btree_get (hr_entries reg) (tgt_id t, req_operation req) = Some h" for h
    using q(2) entry_in_target [OF that] by (auto simp: any_circuit_open_def list_ex_iff)
  show ?thesis using q a o unfolding c by (auto simp: registry_has_capacity_def Let_def split: option.splits)
qed

theorem registry_route_safe_witness:
  "\<exists>c. c \<in> set (ro_candidates (route (ex_policy [ex_binding]) ex_ctx ex_request
      (registry_live 0 0 (quarantine ''u'' 50 (registry_new breaker_default))))) \<and>
    \<not> is_quarantined 0 (quarantine ''u'' 50 (registry_new breaker_default)) (cand_target c)"
proof -
  let ?reg = "quarantine ''u'' 50 (registry_new breaker_default)"
  let ?r = "route (ex_policy [ex_binding]) ex_ctx ex_request (registry_live 0 0 ?reg)"
  have "targets_of ?r = [''v'']"
    by (simp add: route_eval ex_defs registry_live_def registry_new_def quarantine_def is_quarantined_def any_circuit_open_def
        target_entries_def registry_has_capacity_def registry_admin_state_def probe_down_def worst_failure_percent_def
        registry_health_penalty_def registry_latency_penalty_def registry_queue_penalty_def worst_restoration_permille_def
        list_min_or_def probe_restoration_permille_def slowest_first_byte_def total_in_flight_def map_filter_simps Let_def)
  then obtain c where c: "c \<in> set (ro_candidates ?r)" using targets_of_mem [of "''v''" ?r] by auto
  with registry_route_safe [OF c] show ?thesis by blast
qed

section \<open>Scores\<close>

lemma ramp_bounds: "100 \<le> ramp_permille s n \<and> ramp_permille s n \<le> 1000"
proof -
  let ?e = "n - s"
  have "?e * 900 div 30000 \<le> 900" if "?e < 30000" using that by (simp add: less_mult_imp_div_less less_imp_le_nat)
  moreover have "sat_mul64 ?e 900 \<le> ?e * 900" by (simp add: sat_mul64_def sat_u64_def)
  then have "sat_mul64 ?e 900 div 30000 \<le> ?e * 900 div 30000" by (rule div_le_mono)
  ultimately show ?thesis
    by (auto simp: ramp_permille_def Let_def WEIGHT_RESTORATION_MILLIS_def sat_add64_def sat_u64_def u64_max_def)
qed

lemma fold_min_ge: "lo \<le> a \<Longrightarrow> \<forall>x\<in>set xs. lo \<le> x \<Longrightarrow> lo \<le> fold min xs (a :: nat)"
  by (induction xs arbitrary: a) auto

lemma fold_max_le: "a \<le> hi \<Longrightarrow> \<forall>x\<in>set xs. x \<le> hi \<Longrightarrow> fold max xs (a :: nat) \<le> hi"
  by (induction xs arbitrary: a) auto

lemma restoration_floor: "100 \<le> worst_restoration_permille now reg t"
proof -
  have "100 \<le> restoration_permille now b" for b
    using ramp_bounds by (simp add: restoration_permille_def split: option.split)
  moreover have "100 \<le> probe_restoration_permille now reg t"
    using ramp_bounds by (simp add: probe_restoration_permille_def split: option.split)
  ultimately show ?thesis
    by (auto simp: worst_restoration_permille_def list_min_or_def intro!: fold_min_ge split: list.split)
qed

lemma breaker_percent_le: "fst (breaker_failure_percent now b) \<le> 100"
proof -
  define ok where "ok = fst (fst (rolling_totals now (br_counts b)))"
  define fail where "fail = snd (fst (rolling_totals now (br_counts b)))"
  have "fail \<le> u32_max" by (simp add: fail_def rolling_totals_def Let_def sat_add32_def)
  then have le: "fail \<le> sat_add32 ok fail" by (simp add: sat_add32_def)
  have "sat_mul64 fail 100 \<le> 100 * sat_add32 ok fail" using le by (simp add: sat_mul64_def sat_u64_def)
  then have "sat_mul64 fail 100 div sat_add32 ok fail \<le> 100"
    by (metis div_le_mono nonzero_mult_div_cancel_right div_by_0 zero_le)
  then show ?thesis
    by (simp add: breaker_failure_percent_def ok_def fail_def Let_def case_prod_beta)
qed

lemma worst_percent_le: "worst_failure_percent now reg t \<le> 100"
  unfolding worst_failure_percent_def by (rule fold_max_le) (auto simp: breaker_percent_le)

text \<open>
  Live observations stay advisory. Every score term the registry reports lies in its documented range, so
  the clamp changes none of them and no health, latency or queue reading can outweigh a preference rank; a target
  that just recovered, with no failure in its window, loses less than half of the health range and is never
  filtered for it.
\<close>

theorem live_terms_in_range:
  "- 50000 \<le> health_penalty (registry_live now wall reg) t \<and> health_penalty (registry_live now wall reg) t \<le> 0 \<and>
   - 50000 \<le> latency_penalty (registry_live now wall reg) t \<and> latency_penalty (registry_live now wall reg) t \<le> 0 \<and>
   - 50000 \<le> queue_penalty (registry_live now wall reg) t \<and> queue_penalty (registry_live now wall reg) t \<le> 0 \<and>
   failure_percent (registry_live now wall reg) t \<le> 100 \<and>
   - 22500 - 500 * int (failure_percent (registry_live now wall reg) t) \<le> health_penalty (registry_live now wall reg) t"
proof -
  have neg: "- 50000 \<le> - clamp_i 0 50000 x \<and> - clamp_i 0 50000 x \<le> 0" for x by (simp add: clamp_i_def)
  have q: "- 50000 \<le> registry_queue_penalty reg t \<and> registry_queue_penalty reg t \<le> 0"
    by (simp add: registry_queue_penalty_def Let_def neg del: neg_le_0_iff_le split: option.split)
  have h: "- 50000 \<le> registry_health_penalty now reg t \<and> registry_health_penalty now reg t \<le> 0"
    by (simp add: registry_health_penalty_def Let_def)
  have l: "- 50000 \<le> registry_latency_penalty reg t \<and> registry_latency_penalty reg t \<le> 0"
    by (simp add: registry_latency_penalty_def split: option.split)
  have r: "- 22500 - 500 * int (worst_failure_percent now reg t) \<le> registry_health_penalty now reg t"
  proof -
    have "sat_mul64 (1000 - worst_restoration_permille now reg t) 25 \<le> 22500"
      using restoration_floor [of now reg t] by (simp add: sat_mul64_def sat_u64_def)
    then show ?thesis
      using worst_percent_le [of now reg t]
      by (simp add: registry_health_penalty_def Let_def clamp_i_def sat_addi_def sat_i64_def int_limits)
  qed
  show ?thesis using q h l r worst_percent_le by (simp add: registry_live_def)
qed

section \<open>Reading does not disturb\<close>

text \<open>
  Reading a breaker's state cools it and reading its failure share rotates its window; both are changes of the
  stored breaker. Routing reads them in no particular order, so it matters that a reading changes no reading
  taken at the same time.
\<close>

definition touch :: "nat \<Rightarrow> target_health \<Rightarrow> target_health" where
  "touch now h = h\<lparr>th_breaker := snd (breaker_failure_percent now (snd (breaker_look now (th_breaker h))))\<rparr>"

definition touch_all :: "nat \<Rightarrow> health_registry \<Rightarrow> health_registry" where
  "touch_all now reg = reg\<lparr>hr_entries := map (\<lambda>(k, h). (k, touch now h)) (hr_entries reg)\<rparr>"

definition windows_ok :: "health_registry \<Rightarrow> bool" where
  "windows_ok reg \<longleftrightarrow> list_all (\<lambda>(k, h). 0 < rc_window (br_counts (th_breaker h))) (hr_entries reg)"

lemma cooled_counts [simp]: "br_counts (transition_if_cooled now b) = br_counts b" "br_closed_at (transition_if_cooled now b) = br_closed_at b"
  by (simp_all add: transition_if_cooled_def bump_epoch_def)

lemma touch_readings:
  assumes "0 < rc_window (br_counts (th_breaker h))"
  shows "fst (breaker_look now (th_breaker (touch now h))) = fst (breaker_look now (th_breaker h))"
    "fst (breaker_failure_percent now (th_breaker (touch now h))) = fst (breaker_failure_percent now (th_breaker h))"
    "restoration_permille now (th_breaker (touch now h)) = restoration_permille now (th_breaker h)"
    "th_first_byte (touch now h) = th_first_byte h" "th_in_flight (touch now h) = th_in_flight h"
  using assms rotate_idem [of "br_counts (th_breaker h)" now]
  by (auto simp: touch_def breaker_look_def transition_if_cooled_def bump_epoch_def breaker_failure_percent_def
      rolling_totals_def restoration_permille_def Let_def case_prod_beta)

lemma touch_entries: "target_entries (touch_all now reg) t = map (touch now) (target_entries reg t)"
  by (simp add: target_entries_def touch_all_def filter_map comp_def case_prod_beta')

lemma target_entries_window: "windows_ok reg \<Longrightarrow> h \<in> set (target_entries reg t) \<Longrightarrow> 0 < rc_window (br_counts (th_breaker h))"
  by (auto simp: windows_ok_def target_entries_def list_all_iff)

text \<open>
  Reading the registry is free of side effects that matter. Looking at every breaker and every failure share
  changes neither the live state routing sees at that time nor, therefore, any routing outcome.
\<close>

theorem registry_reads_stable:
  assumes "windows_ok reg"
  shows "registry_live now wall (touch_all now reg) = registry_live now wall reg \<and>
    route ps ctx req (registry_live now wall (touch_all now reg)) = route ps ctx req (registry_live now wall reg)"
proof -
  note keep = touch_readings [OF target_entries_window [OF assms], of _ _ now]
  have pm: "map (\<lambda>h. fst (breaker_failure_percent now (th_breaker h))) (target_entries (touch_all now reg) t) =
      map (\<lambda>h. fst (breaker_failure_percent now (th_breaker h))) (target_entries reg t)" for t
    by (simp add: touch_entries keep(2))
  have rm: "map (\<lambda>h. restoration_permille now (th_breaker h)) (target_entries (touch_all now reg) t) =
      map (\<lambda>h. restoration_permille now (th_breaker h)) (target_entries reg t)" for t
    by (simp add: touch_entries keep(3))
  have fm: "map th_in_flight (target_entries (touch_all now reg) t) = map th_in_flight (target_entries reg t)" for t
    by (simp add: touch_entries keep(5))
  have ex: "any_circuit_open now (touch_all now reg) t = any_circuit_open now reg t" for t
    using touch_readings(1) target_entries_window [OF assms]
    by (auto simp: any_circuit_open_def touch_entries list_ex_iff)
  have pc: "worst_failure_percent now (touch_all now reg) t = worst_failure_percent now reg t" for t
    unfolding worst_failure_percent_def by (simp only: pm)
  have rs: "worst_restoration_permille now (touch_all now reg) t = worst_restoration_permille now reg t" for t
    unfolding worst_restoration_permille_def probe_restoration_permille_def
    by (simp only: rm) (simp add: touch_all_def)
  have fb: "slowest_first_byte (touch_all now reg) t = slowest_first_byte reg t" for t
  proof -
    have "List.map_filter (\<lambda>h. ewma_value (th_first_byte h)) (map (touch now) hs) =
        List.map_filter (\<lambda>h. ewma_value (th_first_byte h)) hs" for hs
      by (induction hs) (simp_all add: map_filter_simps touch_def split: option.split)
    then show ?thesis by (simp add: slowest_first_byte_def touch_entries)
  qed
  have fl: "total_in_flight (touch_all now reg) t = total_in_flight reg t" for t
    unfolding total_in_flight_def by (simp only: fm)
  have cfg [simp]: "hr_quarantined (touch_all now reg) = hr_quarantined reg" "hr_capacities (touch_all now reg) = hr_capacities reg"
    "hr_queue_allowance (touch_all now reg) = hr_queue_allowance reg" "hr_admin_states (touch_all now reg) = hr_admin_states reg"
    "hr_probes (touch_all now reg) = hr_probes reg" by (simp_all add: touch_all_def)
  have "registry_live now wall (touch_all now reg) = registry_live now wall reg"
    by (simp add: registry_live_def fun_eq_iff ex pc rs fb fl registry_health_penalty_def registry_latency_penalty_def
        registry_queue_penalty_def registry_has_capacity_def registry_admin_state_def is_quarantined_def probe_down_def
        cong: option.case_cong)
  then show ?thesis by simp
qed

definition one_entry :: health_registry where
  "one_entry = snd (health_entry ''u'' Chat 0 (registry_new breaker_default))"

theorem registry_reads_stable_witness:
  "registry_live 70000 0 (touch_all 70000 one_entry) = registry_live 70000 0 one_entry \<and> hr_entries one_entry \<noteq> []"
proof -
  have "windows_ok one_entry" "hr_entries one_entry \<noteq> []"
    by (simp_all add: one_entry_def health_entry_def registry_new_def btree_get_def windows_ok_def target_health_new_def
        breaker_new_def rolling_new_def breaker_default_def Let_def)
  with registry_reads_stable show ?thesis by blast
qed

section \<open>Callers cannot take a target down\<close>

text \<open>What callers can report about a target through permits and directly.\<close>

datatype health_report =
    Failed upstream_error_class nat
  | FailedPermit breaker_permit upstream_error_class nat

fun apply_report :: "health_report \<Rightarrow> target_health \<Rightarrow> target_health" where
  "apply_report (Failed cls now) h = record_failure cls now h"
| "apply_report (FailedPermit p cls now) h = finish_failure p cls now h"

fun report_class :: "health_report \<Rightarrow> upstream_error_class" where
  "report_class (Failed cls now) = cls"
| "report_class (FailedPermit p cls now) = cls"

lemma client_report_closed:
  assumes "\<not> affects_health (report_class r)" "br_state (th_breaker h) \<noteq> Open"
  shows "br_state (th_breaker (apply_report r h)) = br_state (th_breaker h) \<and>
    br_counts (th_breaker (apply_report r h)) = br_counts (th_breaker h) \<and>
    br_epoch (th_breaker (apply_report r h)) = br_epoch (th_breaker h) \<and>
    th_total_failures (apply_report r h) = th_total_failures h"
  using assms
  by (cases r) (auto simp: record_failure_def finish_failure_def note_failure_def finish_permit_def not_open_cooled
      finish_probe_def Let_def)

text \<open>
  A caller's own errors never take a target out of service. Any number of failures of classes that say
  nothing about the target, reported directly or through permits, leaves the state, the window and the failure
  count of a breaker that is not open exactly as they were.
\<close>

theorem client_errors_harmless:
  assumes "\<forall>r\<in>set rs. \<not> affects_health (report_class r)" "br_state (th_breaker h) \<noteq> Open"
  shows "br_state (th_breaker (fold apply_report rs h)) = br_state (th_breaker h) \<and>
    br_counts (th_breaker (fold apply_report rs h)) = br_counts (th_breaker h) \<and>
    th_total_failures (fold apply_report rs h) = th_total_failures h"
  using assms
proof (induction rs arbitrary: h)
  case (Cons r rs)
  from client_report_closed [of r h] Cons.prems Cons.IH [of "apply_report r h"] show ?case by simp
qed simp

theorem client_errors_harmless_witness:
  "br_state (th_breaker (fold apply_report (replicate 100 (Failed URateLimited 5)) (target_health_new breaker_default 0))) = Closed"
proof -
  have "br_state (th_breaker (target_health_new breaker_default 0)) = Closed"
    by (simp add: target_health_new_def breaker_new_def)
  with client_errors_harmless [of "replicate 100 (Failed URateLimited 5)" "target_health_new breaker_default 0"]
  show ?thesis by (simp add: affects_health_def)
qed

section \<open>Circuits are shared across operations in routing\<close>

text \<open>
  Breakers are kept per operation, but the live state has one circuit per target: an open breaker of one
  operation takes the target out of routing for every operation until it has cooled.
\<close>

lemma open_circuit_shared:
  assumes "btree_get (hr_entries reg) (t, op) = Some h" "br_state (th_breaker h) = Open" "now < br_open_until (th_breaker h)"
  shows "\<forall>c\<in>set (ro_candidates (route ps ctx req (registry_live now wall reg))). cand_target c \<noteq> t"
proof
  fix c assume c: "c \<in> set (ro_candidates (route ps ctx req (registry_live now wall reg)))"
  then obtain al tid tg where
    ev: "evaluate ps ctx req al tg (merge_bindings ps ctx (requested_model req)) (registry_live now wall reg) = Inr c"
    by (rule route_candidate)
  then have "\<not> any_circuit_open now reg (cand_target c)"
    using evaluate_InrD(1,2) [OF ev] by (simp add: all_filters_def filters_None)
  moreover have "any_circuit_open now reg t"
    unfolding any_circuit_open_def list_ex_iff
    by (rule bexI [of _ h])
      (use assms(2,3) entry_in_target [OF assms(1)] in \<open>simp_all add: breaker_look_def transition_if_cooled_def Let_def\<close>)
  ultimately show "cand_target c \<noteq> t" by auto
qed

end
