(* ===== verification/Fips180.thy ===== *)
theory Fips180
  imports Prelude Complex_Main
begin

unbundle bit_operations_syntax

text \<open>
  SHA-256 as FIPS 180-4 states it, written from the standard and independently of the program: the constants as the
  fractional bits of roots of primes, the schedule and the rounds by index, the padding by the standard's equation. It is the
  specification \<open>Digest\<close> shows the program's hash to meet; nothing in it models code.
\<close>

section \<open>Constants (4.2.2, 5.3.3)\<close>

definition fips_prime :: "int \<Rightarrow> bool" where
  "fips_prime n \<longleftrightarrow> 2 \<le> n \<and> list_all (\<lambda>d. \<not> d dvd n) [2..n - 1]"

text \<open>The primes up to the sixty-fourth.\<close>

definition fips_primes :: "int list" where
  "fips_primes = filter fips_prime [2..311]"

text \<open>The first thirty-two bits of the fractional part of the \<open>n\<close>-th root.\<close>

definition root_bits :: "nat \<Rightarrow> int \<Rightarrow> 32 word" where
  "root_bits n p = word_of_int \<lfloor>frac (root n (real_of_int p)) * 2 ^ 32\<rfloor>"

definition fips_K :: "nat \<Rightarrow> 32 word" where
  "fips_K t = root_bits 3 (fips_primes ! t)"

definition fips_H0 :: "32 word list" where
  "fips_H0 = map (root_bits 2) (take 8 fips_primes)"

section \<open>Functions (3.2, 4.1.2)\<close>

definition fips_rotr :: "nat \<Rightarrow> 32 word \<Rightarrow> 32 word" where
  "fips_rotr n x = drop_bit n x OR push_bit (32 - n) x"

definition fips_Ch :: "32 word \<Rightarrow> 32 word \<Rightarrow> 32 word \<Rightarrow> 32 word" where
  "fips_Ch x y z = (x AND y) XOR (NOT x AND z)"

definition fips_Maj :: "32 word \<Rightarrow> 32 word \<Rightarrow> 32 word \<Rightarrow> 32 word" where
  "fips_Maj x y z = (x AND y) XOR (x AND z) XOR (y AND z)"

definition fips_Sum0 :: "32 word \<Rightarrow> 32 word" where
  "fips_Sum0 x = fips_rotr 2 x XOR fips_rotr 13 x XOR fips_rotr 22 x"

definition fips_Sum1 :: "32 word \<Rightarrow> 32 word" where
  "fips_Sum1 x = fips_rotr 6 x XOR fips_rotr 11 x XOR fips_rotr 25 x"

definition fips_sigma0 :: "32 word \<Rightarrow> 32 word" where
  "fips_sigma0 x = fips_rotr 7 x XOR fips_rotr 18 x XOR drop_bit 3 x"

definition fips_sigma1 :: "32 word \<Rightarrow> 32 word" where
  "fips_sigma1 x = fips_rotr 17 x XOR fips_rotr 19 x XOR drop_bit 10 x"

section \<open>Padding (5.1.1)\<close>

definition fips_octets :: "nat \<Rightarrow> nat \<Rightarrow> 8 word list" where
  "fips_octets n x = map (\<lambda>i. word_of_nat (x div 256 ^ (n - 1 - i))) [0..<n]"

text \<open>The number of zero bits: the smallest \<open>k\<close> with \<open>l + 1 + k = 448\<close> modulo 512.\<close>

definition fips_zeros :: "nat \<Rightarrow> nat" where
  "fips_zeros l = (LEAST k. (l + 1 + k) mod 512 = 448)"

text \<open>A message of whole octets: the one bit and the first seven zero bits make the octet \<open>0x80\<close>.\<close>

definition fips_padded :: "8 word list \<Rightarrow> 8 word list" where
  "fips_padded m = m @ [0x80] @ replicate ((fips_zeros (8 * length m) - 7) div 8) 0 @ fips_octets 8 (8 * length m)"

section \<open>Hash computation (6.2.2)\<close>

definition fips_M :: "8 word list \<Rightarrow> nat \<Rightarrow> 32 word" where
  "fips_M b t = word_of_nat (unat (b ! (4 * t)) * 2 ^ 24 + unat (b ! (4 * t + 1)) * 2 ^ 16 +
     unat (b ! (4 * t + 2)) * 2 ^ 8 + unat (b ! (4 * t + 3)))"

fun fips_W :: "8 word list \<Rightarrow> nat \<Rightarrow> 32 word" where
  "fips_W b t =
     (if t \<le> 15 then fips_M b t
      else fips_sigma1 (fips_W b (t - 2)) + fips_W b (t - 7) + fips_sigma0 (fips_W b (t - 15)) + fips_W b (t - 16))"

declare fips_W.simps [simp del]

type_synonym fips_vars = "32 word \<times> 32 word \<times> 32 word \<times> 32 word \<times> 32 word \<times> 32 word \<times> 32 word \<times> 32 word"

primrec fips_rounds :: "8 word list \<Rightarrow> fips_vars \<Rightarrow> nat \<Rightarrow> fips_vars" where
  "fips_rounds blk v 0 = v"
| "fips_rounds blk v (Suc t) =
     (case fips_rounds blk v t of (a, b, c, d, e, f, g, h) \<Rightarrow>
        let T1 = h + fips_Sum1 e + fips_Ch e f g + fips_K t + fips_W blk t;
            T2 = fips_Sum0 a + fips_Maj a b c
        in (T1 + T2, a, b, c, d + T1, e, f, g))"

definition fips_block :: "32 word list \<Rightarrow> 8 word list \<Rightarrow> 32 word list" where
  "fips_block H blk =
     (case fips_rounds blk (H ! 0, H ! 1, H ! 2, H ! 3, H ! 4, H ! 5, H ! 6, H ! 7) 64 of (a, b, c, d, e, f, g, h) \<Rightarrow>
        [a + H ! 0, b + H ! 1, c + H ! 2, d + H ! 3, e + H ! 4, f + H ! 5, g + H ! 6, h + H ! 7])"

text \<open>The hash value after \<open>i\<close> blocks of 512 bits.\<close>

primrec fips_H :: "8 word list \<Rightarrow> nat \<Rightarrow> 32 word list" where
  "fips_H P 0 = fips_H0"
| "fips_H P (Suc i) = fips_block (fips_H P i) (take 64 (drop (64 * i) P))"

definition fips_sha256 :: "8 word list \<Rightarrow> 8 word list" where
  "fips_sha256 m =
     (let P = fips_padded m in concat (map (\<lambda>w. fips_octets 4 (unat w)) (fips_H P (length P div 64))))"

section \<open>The constants as numbers\<close>

lemma floor_root:
  assumes "0 < n" "0 \<le> r" "r ^ n \<le> p" "p < (r + 1) ^ n"
  shows "\<lfloor>root n (real_of_int p)\<rfloor> = r"
proof (rule floor_unique)
  have "real_of_int r = root n (real_of_int (r ^ n))" using assms(1,2) by (simp add: real_root_power_cancel)
  also have "\<dots> \<le> root n (real_of_int p)" using assms(1,3) by (intro real_root_le_mono) (simp_all del: of_int_power)
  finally show "real_of_int r \<le> root n (real_of_int p)" .
  have "root n (real_of_int p) < root n (real_of_int ((r + 1) ^ n))"
    using assms(1,4) by (intro real_root_less_mono) (simp_all del: of_int_power)
  also have "\<dots> = real_of_int r + 1" using assms(1,2) real_root_power_cancel [of n "real_of_int r + 1"] by simp
  finally show "root n (real_of_int p) < real_of_int r + 1" .
qed

text \<open>Fractional bits by integer arithmetic: the integer part \<open>i\<close> and the bits \<open>w\<close> bound the scaled root.\<close>

definition root_check :: "nat \<Rightarrow> int \<Rightarrow> int \<Rightarrow> int \<Rightarrow> bool" where
  "root_check n p i w \<longleftrightarrow> 0 \<le> i \<and> 0 \<le> w \<and> i ^ n \<le> p \<and> p < (i + 1) ^ n \<and>
     (i * 2 ^ 32 + w) ^ n \<le> p * (2 ^ 32) ^ n \<and> p * (2 ^ 32) ^ n < (i * 2 ^ 32 + w + 1) ^ n"

lemma root_check:
  assumes "0 < n" "root_check n p i w"
  shows "root_bits n p = word_of_int w"
proof -
  have i: "\<lfloor>root n (real_of_int p)\<rfloor> = i" using assms by (intro floor_root) (simp_all add: root_check_def)
  have s: "\<lfloor>root n (real_of_int (p * (2 ^ 32) ^ n))\<rfloor> = i * 2 ^ 32 + w"
    using assms by (intro floor_root) (simp_all add: root_check_def)
  have "root n (real_of_int (p * (2 ^ 32) ^ n)) = root n (real_of_int p) * 2 ^ 32"
    using assms(1) by (simp add: real_root_mult real_root_power_cancel)
  moreover have "frac (root n (real_of_int p)) * 2 ^ 32 = root n (real_of_int p) * 2 ^ 32 - real_of_int (i * 2 ^ 32)"
    by (simp add: frac_def i algebra_simps)
  ultimately have "\<lfloor>frac (root n (real_of_int p)) * 2 ^ 32\<rfloor> = w" using s by (simp only: floor_diff_of_int)
  then show ?thesis by (simp add: root_bits_def)
qed

definition int_root :: "nat \<Rightarrow> int \<Rightarrow> int" where
  "int_root n p = int (length (filter (\<lambda>i. i ^ n \<le> p) [1..17]))"

lemma root_bits_list:
  assumes "0 < n" "length ps = length ws" "list_all (\<lambda>(p, w). root_check n p (int_root n p) (uint w)) (zip ps ws)"
  shows "map (root_bits n) ps = ws"
  using assms(2,3) by (induction ps ws rule: list_induct2) (auto dest: root_check [OF assms(1)])

text \<open>Below the square of nineteen the seven primes up to seventeen decide.\<close>

lemma fips_prime_small:
  assumes "2 \<le> n" "n < 361"
  shows "fips_prime n \<longleftrightarrow> list_all (\<lambda>d. d dvd n \<longrightarrow> d = n) [2, 3, 5, 7, 11, 13, 17]"
proof
  assume "fips_prime n"
  then have no: "\<forall>d. 2 \<le> d \<and> d \<le> n - 1 \<longrightarrow> \<not> d dvd n" by (simp add: fips_prime_def list_all_iff)
  have "d = n" if "d dvd n" "2 \<le> d" for d
  proof -
    have "d \<le> n" using zdvd_imp_le [OF that(1)] assms(1) by simp
    with no that show ?thesis by fastforce
  qed
  then show "list_all (\<lambda>d. d dvd n \<longrightarrow> d = n) [2, 3, 5, 7, 11, 13, 17]" by simp
next
  assume small: "list_all (\<lambda>d. d dvd n \<longrightarrow> d = n) [2, 3, 5, 7, 11, 13, 17]"
  have no: "\<not> d dvd n" if d: "2 \<le> d" "d \<le> 18" "d < n" for d
  proof
    assume "d dvd n"
    have "list_all (\<lambda>d. list_ex (\<lambda>q. q dvd d) [2, 3, 5, 7, 11, 13, 17]) [2..18 :: int]" by code_simp
    moreover have "d \<in> set [2..18]" using d unfolding set_upto by simp
    ultimately have "list_ex (\<lambda>q. q dvd d) [2, 3, 5, 7, 11, 13, 17]" by (simp only: list_all_iff)
    then obtain q where "q \<in> set [2, 3, 5, 7, 11, 13, 17]" "q dvd d" unfolding list_ex_iff by blast
    moreover from this(2) have "q \<le> d" using d(1) by (intro zdvd_imp_le) simp_all
    ultimately show False using dvd_trans [OF _ \<open>d dvd n\<close>, of q] small d(3) unfolding list_all_iff by fastforce
  qed
  have "\<not> d dvd n" if d: "2 \<le> d" "d < n" for d
  proof
    assume "d dvd n"
    then obtain e where e: "n = d * e" by blast
    have "2 \<le> e" using e d by (smt (verit) mult_cancel_left1 mult_nonneg_nonpos)
    have "d \<le> 18 \<or> e \<le> 18"
    proof (rule ccontr)
      assume "\<not> (d \<le> 18 \<or> e \<le> 18)"
      then have "19 * 19 \<le> d * e" by (intro mult_mono) auto
      with e assms(2) show False by simp
    qed
    moreover have "e < n" using e d \<open>2 \<le> e\<close> by (simp add: mult.commute)
    ultimately show False using no [OF d(1)] no [OF \<open>2 \<le> e\<close>] d(2) e by auto
  qed
  then show "fips_prime n" using assms(1) by (auto simp: fips_prime_def list_all_iff)
qed

lemma fips_primes_eq:
  "fips_primes = [2, 3, 5, 7, 11, 13, 17, 19, 23, 29, 31, 37, 41, 43, 47, 53, 59, 61, 67, 71, 73, 79, 83, 89, 97, 101, 103,
     107, 109, 113, 127, 131, 137, 139, 149, 151, 157, 163, 167, 173, 179, 181, 191, 193, 197, 199, 211, 223, 227, 229,
     233, 239, 241, 251, 257, 263, 269, 271, 277, 281, 283, 293, 307, 311]"
proof -
  have "fips_primes = filter (\<lambda>n. list_all (\<lambda>d. d dvd n \<longrightarrow> d = n) [2, 3, 5, 7, 11, 13, 17]) [2..311]"
    unfolding fips_primes_def
  proof (rule filter_cong [OF refl])
    fix n :: int assume "n \<in> set [2..311]"
    then have "2 \<le> n" "n \<le> 311" by (simp_all only: set_upto atLeastAtMost_iff)
    then show "fips_prime n \<longleftrightarrow> list_all (\<lambda>d. d dvd n \<longrightarrow> d = n) [2, 3, 5, 7, 11, 13, 17]" by (intro fips_prime_small) simp_all
  qed
  also have "\<dots> = [2, 3, 5, 7, 11, 13, 17, 19, 23, 29, 31, 37, 41, 43, 47, 53, 59, 61, 67, 71, 73, 79, 83, 89, 97, 101, 103,
     107, 109, 113, 127, 131, 137, 139, 149, 151, 157, 163, 167, 173, 179, 181, 191, 193, 197, 199, 211, 223, 227, 229,
     233, 239, 241, 251, 257, 263, 269, 271, 277, 281, 283, 293, 307, 311]"
    by code_simp
  finally show ?thesis .
qed

end
