(* ===== verification/Digest.thy ===== *)
theory Digest
  imports Prelude Fips180
begin

unbundle bit_operations_syntax

text \<open>
  Byte encodings and digests (\<open>hypellm-crypto\<close>): little- and big-endian integers, SHA-256, HMAC-SHA-256,
  CRC-32 and constant-time comparison. Bytes are 8-bit words, and the arithmetic of the digests is done at its
  machine width.
\<close>

type_synonym byte = "8 word"

section \<open>Integers as bytes\<close>

text \<open>\<open>to_le_bytes\<close>, \<open>from_le_bytes\<close> and their big-endian counterparts.\<close>

fun le_bytes :: "nat \<Rightarrow> nat \<Rightarrow> byte list" where
  "le_bytes 0 n = []"
| "le_bytes (Suc k) n = word_of_nat (n mod 256) # le_bytes k (n div 256)"

fun le_value :: "byte list \<Rightarrow> nat" where
  "le_value [] = 0"
| "le_value (b # bs) = unat b + 256 * le_value bs"

definition be_bytes :: "nat \<Rightarrow> nat \<Rightarrow> byte list" where
  "be_bytes k n = rev (le_bytes k n)"

definition be_value :: "byte list \<Rightarrow> nat" where
  "be_value bs = le_value (rev bs)"

section \<open>SHA-256\<close>

definition H_INIT :: "32 word list" where
  "H_INIT = [0x6a09e667, 0xbb67ae85, 0x3c6ef372, 0xa54ff53a, 0x510e527f, 0x9b05688c, 0x1f83d9ab, 0x5be0cd19]"

definition K_ROUND :: "32 word list" where
  "K_ROUND = concat [
    [0x428a2f98, 0x71374491, 0xb5c0fbcf, 0xe9b5dba5, 0x3956c25b, 0x59f111f1, 0x923f82a4, 0xab1c5ed5],
    [0xd807aa98, 0x12835b01, 0x243185be, 0x550c7dc3, 0x72be5d74, 0x80deb1fe, 0x9bdc06a7, 0xc19bf174],
    [0xe49b69c1, 0xefbe4786, 0x0fc19dc6, 0x240ca1cc, 0x2de92c6f, 0x4a7484aa, 0x5cb0a9dc, 0x76f988da],
    [0x983e5152, 0xa831c66d, 0xb00327c8, 0xbf597fc7, 0xc6e00bf3, 0xd5a79147, 0x06ca6351, 0x14292967],
    [0x27b70a85, 0x2e1b2138, 0x4d2c6dfc, 0x53380d13, 0x650a7354, 0x766a0abb, 0x81c2c92e, 0x92722c85],
    [0xa2bfe8a1, 0xa81a664b, 0xc24b8b70, 0xc76c51a3, 0xd192e819, 0xd6990624, 0xf40e3585, 0x106aa070],
    [0x19a4c116, 0x1e376c08, 0x2748774c, 0x34b0bcb5, 0x391c0cb3, 0x4ed8aa4a, 0x5b9cca4f, 0x682e6ff3],
    [0x748f82ee, 0x78a5636f, 0x84c87814, 0x8cc70208, 0x90befffa, 0xa4506ceb, 0xbef9a3f7, 0xc67178f2]]"

definition BLOCK_LEN :: nat where "BLOCK_LEN = 64"
definition DIGEST_LEN :: nat where "DIGEST_LEN = 32"

fun block_words :: "byte list \<Rightarrow> 32 word list" where
  "block_words (a # b # c # d # bs) = word_of_nat (be_value [a, b, c, d]) # block_words bs"
| "block_words _ = []"

definition next_word :: "32 word list \<Rightarrow> 32 word" where
  "next_word w =
     (let i = length w;
          wm16 = w ! (i - 16); wm15 = w ! (i - 15); wm7 = w ! (i - 7); wm2 = w ! (i - 2);
          s0 = word_rotr 7 wm15 XOR word_rotr 18 wm15 XOR drop_bit 3 wm15;
          s1 = word_rotr 17 wm2 XOR word_rotr 19 wm2 XOR drop_bit 10 wm2
      in wm16 + s0 + wm7 + s1)"

fun expand_words :: "nat \<Rightarrow> 32 word list \<Rightarrow> 32 word list" where
  "expand_words 0 w = w"
| "expand_words (Suc n) w = expand_words n (w @ [next_word w])"

type_synonym sha_vars = "32 word \<times> 32 word \<times> 32 word \<times> 32 word \<times> 32 word \<times> 32 word \<times> 32 word \<times> 32 word"

fun sha_round :: "32 word \<times> 32 word \<Rightarrow> sha_vars \<Rightarrow> sha_vars" where
  "sha_round (k, wi) (a, b, c, d, e, f, g, hh) =
     (let s1 = word_rotr 6 e XOR word_rotr 11 e XOR word_rotr 25 e;
          ch = (e AND f) XOR ((NOT e) AND g);
          temp1 = hh + s1 + ch + k + wi;
          s0 = word_rotr 2 a XOR word_rotr 13 a XOR word_rotr 22 a;
          maj = (a AND b) XOR (a AND c) XOR (b AND c);
          temp2 = s0 + maj
      in (temp1 + temp2, a, b, c, d + temp1, e, f, g))"

definition compress :: "32 word list \<Rightarrow> byte list \<Rightarrow> 32 word list" where
  "compress h block =
     (let w = expand_words 48 (block_words block);
          (a, b, c, d, e, f, g, hh) =
            fold sha_round (zip K_ROUND w) (h ! 0, h ! 1, h ! 2, h ! 3, h ! 4, h ! 5, h ! 6, h ! 7)
      in [h ! 0 + a, h ! 1 + b, h ! 2 + c, h ! 3 + d, h ! 4 + e, h ! 5 + f, h ! 6 + g, h ! 7 + hh])"

record sha256_state =
  sh_h :: "32 word list"
  sh_buf :: "byte list"
  sh_buf_len :: nat
  sh_total_len :: nat

definition sha256_new :: sha256_state where
  "sha256_new = \<lparr>sh_h = H_INIT, sh_buf = replicate BLOCK_LEN 0, sh_buf_len = 0, sh_total_len = 0\<rparr>"

text \<open>\<open>chunks_exact(BLOCK_LEN)\<close> with every chunk compressed, and the remainder.\<close>

function absorb_blocks :: "32 word list \<Rightarrow> byte list \<Rightarrow> 32 word list \<times> byte list" where
  "absorb_blocks h xs =
     (if length xs < 64 then (h, xs) else absorb_blocks (compress h (take 64 xs)) (drop 64 xs))"
  by auto
termination by (relation "measure (\<lambda>(h, xs). length xs)") auto

declare absorb_blocks.simps [simp del]

definition copy_into :: "nat \<Rightarrow> byte list \<Rightarrow> byte list \<Rightarrow> byte list" where
  "copy_into start src buf = take start buf @ src @ drop (start + length src) buf"

definition sha256_update :: "byte list \<Rightarrow> sha256_state \<Rightarrow> sha256_state" where
  "sha256_update data s =
     (let s = s\<lparr>sh_total_len := sat_add64 (sh_total_len s) (min (length data) u64_max)\<rparr>;
          (s, input) =
            (if sh_buf_len s > 0
             then (let n = min (BLOCK_LEN - sh_buf_len s) (length data);
                       s = s\<lparr>sh_buf := copy_into (sh_buf_len s) (take n data) (sh_buf s),
                             sh_buf_len := sh_buf_len s + n\<rparr>
                   in (if sh_buf_len s = BLOCK_LEN
                       then s\<lparr>sh_h := compress (sh_h s) (sh_buf s), sh_buf_len := 0\<rparr> else s,
                       drop n data))
             else (s, data));
          (h, rest) = absorb_blocks (sh_h s) input;
          s = s\<lparr>sh_h := h\<rparr>
      in if rest \<noteq> [] then s\<lparr>sh_buf := copy_into 0 rest (sh_buf s), sh_buf_len := length rest\<rparr> else s)"

definition sha256_finalize :: "sha256_state \<Rightarrow> byte list" where
  "sha256_finalize s =
     (let bit_len = sat_mul64 (sh_total_len s) 8;
          n = sh_buf_len s + 1;
          buf = take (sh_buf_len s) (sh_buf s) @ [0x80] @ replicate (BLOCK_LEN - n) 0;
          (h, buf) = (if n > BLOCK_LEN - 8 then (compress (sh_h s) buf, replicate BLOCK_LEN 0) else (sh_h s, buf));
          h = compress h (take (BLOCK_LEN - 8) buf @ be_bytes 8 bit_len)
      in concat (map (\<lambda>w. be_bytes 4 (unat w)) h))"

definition sha256 :: "byte list \<Rightarrow> byte list" where
  "sha256 data = sha256_finalize (sha256_update data sha256_new)"

definition sha256_parts :: "byte list list \<Rightarrow> byte list" where
  "sha256_parts parts = sha256_finalize (fold sha256_update parts sha256_new)"

section \<open>HMAC-SHA-256\<close>

record hmac_state =
  hm_inner :: sha256_state
  hm_outer_key :: "byte list"

definition hmac_new :: "byte list \<Rightarrow> hmac_state" where
  "hmac_new key =
     (let k0 = (if length key > BLOCK_LEN then copy_into 0 (sha256 key) (replicate BLOCK_LEN 0)
                else copy_into 0 key (replicate BLOCK_LEN 0))
      in \<lparr>hm_inner = sha256_update (map (\<lambda>k. k XOR 0x36) k0) sha256_new,
          hm_outer_key = map (\<lambda>k. k XOR 0x5c) k0\<rparr>)"

definition hmac_update :: "byte list \<Rightarrow> hmac_state \<Rightarrow> hmac_state" where
  "hmac_update data m = m\<lparr>hm_inner := sha256_update data (hm_inner m)\<rparr>"

definition hmac_finalize :: "hmac_state \<Rightarrow> byte list" where
  "hmac_finalize m =
     (let inner_digest = sha256_finalize (hm_inner m)
      in sha256_finalize (sha256_update inner_digest (sha256_update (hm_outer_key m) sha256_new)))"

definition hmac_sha256 :: "byte list \<Rightarrow> byte list \<Rightarrow> byte list" where
  "hmac_sha256 key msg = hmac_finalize (hmac_update msg (hmac_new key))"

definition hmac_part :: "byte list \<Rightarrow> hmac_state \<Rightarrow> hmac_state" where
  "hmac_part part m = hmac_update part (hmac_update (be_bytes 8 (min (length part) u64_max)) m)"

definition hmac_sha256_parts :: "byte list \<Rightarrow> byte list list \<Rightarrow> byte list" where
  "hmac_sha256_parts key parts = hmac_finalize (fold hmac_part parts (hmac_new key))"

section \<open>CRC-32\<close>

definition POLY :: "32 word" where "POLY = 0xEDB88320"

definition crc_step :: "32 word \<Rightarrow> 32 word" where
  "crc_step crc = (if crc AND 1 \<noteq> 0 then drop_bit 1 crc XOR POLY else drop_bit 1 crc)"

definition build_table :: "32 word list" where
  "build_table = map (\<lambda>entry. (crc_step ^^ 8) (word_of_nat entry)) [0..<256]"

definition crc_byte :: "byte \<Rightarrow> 32 word \<Rightarrow> 32 word" where
  "crc_byte byte crc = drop_bit 8 crc XOR build_table ! unat ((ucast crc :: byte) XOR byte)"

definition crc_update :: "byte list \<Rightarrow> 32 word \<Rightarrow> 32 word" where
  "crc_update data crc = fold crc_byte data crc"

definition crc32 :: "byte list \<Rightarrow> 32 word" where
  "crc32 data = crc_update data 0xFFFFFFFF XOR 0xFFFFFFFF"

definition crc32_parts :: "byte list list \<Rightarrow> 32 word" where
  "crc32_parts parts = fold crc_update parts 0xFFFFFFFF XOR 0xFFFFFFFF"

section \<open>Constant-time comparison\<close>

definition ct_eq :: "byte list \<Rightarrow> byte list \<Rightarrow> bool" where
  "ct_eq a b \<longleftrightarrow> length a = length b \<and> fold (\<lambda>(x, y) diff. diff OR (x XOR y)) (zip a b) 0 = 0"

definition select_u8 :: "bool \<Rightarrow> byte \<Rightarrow> byte \<Rightarrow> byte" where
  "select_u8 choice a b = (let mask = 0 - of_bool choice in (a AND mask) OR (b AND NOT mask))"

section \<open>Integer encodings round-trip\<close>

lemma le_bytes_length [simp]: "length (le_bytes k n) = k"
  by (induction k n rule: le_bytes.induct) simp_all

lemma be_bytes_length [simp]: "length (be_bytes k n) = k"
  by (simp add: be_bytes_def)

lemma le_value_bytes: "le_value (le_bytes k n) = n mod 256 ^ k"
proof (induction k n rule: le_bytes.induct)
  case (2 k n)
  have "unat (word_of_nat (n mod 256) :: byte) = n mod 256" by (simp add: unat_of_nat)
  with 2 show ?case by (simp add: mod_mult2_eq [of n 256 "256 ^ k"] mult.commute)
qed simp

lemma le_value_less: "le_value bs < 256 ^ length bs"
proof (induction bs)
  case (Cons b bs)
  have "unat b < 256" using unsigned_less [of b] by simp
  with Cons show ?case by (simp add: algebra_simps)
qed simp

lemma le_bytes_value: "le_bytes (length bs) (le_value bs) = bs"
proof (induction bs)
  case (Cons b bs)
  have "unat b < 256" using unsigned_less [of b] by simp
  then have "(unat b + 256 * le_value bs) mod 256 = unat b" "(unat b + 256 * le_value bs) div 256 = le_value bs" by simp_all
  with Cons show ?case by simp
qed simp

lemma le_bytes_inject: "m < 256 ^ k \<Longrightarrow> n < 256 ^ k \<Longrightarrow> le_bytes k m = le_bytes k n \<longleftrightarrow> m = n"
  by (metis le_value_bytes mod_less)

lemma be_bytes_inject: "m < 256 ^ k \<Longrightarrow> n < 256 ^ k \<Longrightarrow> be_bytes k m = be_bytes k n \<longleftrightarrow> m = n"
  by (simp add: be_bytes_def le_bytes_inject)

section \<open>Streaming does not change a digest\<close>

lemma absorb_short [simp]: "length xs < 64 \<Longrightarrow> absorb_blocks h xs = (h, xs)"
  by (simp add: absorb_blocks.simps)

lemma absorb_block [simp]: "length xs = 64 \<Longrightarrow> absorb_blocks h (xs @ ys) = absorb_blocks (compress h xs) ys"
  by (subst absorb_blocks.simps) simp

lemma absorb_append:
  "absorb_blocks h (xs @ ys) = absorb_blocks (fst (absorb_blocks h xs)) (snd (absorb_blocks h xs) @ ys)"
proof (induction h xs rule: absorb_blocks.induct)
  case (1 h xs)
  show ?case
  proof (cases "length xs < 64")
    case False
    then have "absorb_blocks h (xs @ ys) = absorb_blocks (compress h (take 64 xs)) (drop 64 xs @ ys)"
      by (subst absorb_blocks.simps) simp
    moreover have "absorb_blocks h xs = absorb_blocks (compress h (take 64 xs)) (drop 64 xs)"
      using False by (subst absorb_blocks.simps) simp
    ultimately show ?thesis using 1 False by simp
  qed simp
qed

lemma absorb_rest: "length (snd (absorb_blocks h xs)) < 64"
proof (induction h xs rule: absorb_blocks.induct)
  case (1 h xs)
  then show ?case by (cases "length xs < 64") (simp_all add: absorb_blocks.simps [of h xs])
qed

text \<open>What a hasher stands for: the message absorbed so far.\<close>

definition hashes :: "byte list \<Rightarrow> sha256_state \<Rightarrow> bool" where
  "hashes m s \<longleftrightarrow>
     length (sh_buf s) = 64 \<and> sh_buf_len s < 64 \<and> sh_total_len s = min (length m) u64_max \<and>
     absorb_blocks H_INIT m = (sh_h s, take (sh_buf_len s) (sh_buf s))"

lemma hashes_new: "hashes [] sha256_new"
  by (simp add: hashes_def sha256_new_def BLOCK_LEN_def)

lemma hashes_update:
  assumes "hashes m s"
  shows "hashes (m @ data) (sha256_update data s)"
proof -
  define held where "held = take (sh_buf_len s) (sh_buf s)"
  define n where "n = min (64 - sh_buf_len s) (length data)"
  have b: "length (sh_buf s) = 64" "sh_buf_len s < 64" "length held = sh_buf_len s" using assms by (simp_all add: hashes_def held_def)
  have m: "absorb_blocks H_INIT m = (sh_h s, held)" using assms by (simp add: hashes_def held_def)
  have tot: "sat_add64 (sh_total_len s) (min (length data) u64_max) = min (length (m @ data)) u64_max"
    using assms by (auto simp: hashes_def sat_add64_def sat_u64_def min_def)
  have goal: "absorb_blocks H_INIT (m @ data) = absorb_blocks (sh_h s) (held @ data)"
    using absorb_append [of H_INIT m data] m by simp
  have finish: "length (copy_into 0 rest buf) = 64 \<and> take (length rest) (copy_into 0 rest buf) = rest"
    if "length rest < 64" "length buf = 64" for rest buf
    using that by (simp add: copy_into_def)
  have less: "length (snd (absorb_blocks h xs)) < 64" for h xs by (rule absorb_rest)
  consider "sh_buf_len s = 0" | "0 < sh_buf_len s" "sh_buf_len s + length data < 64" | "0 < sh_buf_len s" "64 \<le> sh_buf_len s + length data"
    by linarith
  then show ?thesis
  proof cases
    case 1
    then have "held = []" by (simp add: held_def)
    with goal have g: "absorb_blocks H_INIT (m @ data) = absorb_blocks (sh_h s) data" by simp
    obtain h rest where hr: "absorb_blocks (sh_h s) data = (h, rest)" by fastforce
    have "length rest < 64" using less [of "sh_h s" data] hr by simp
    with 1 g hr tot finish [of rest "sh_buf s"] b show ?thesis
      by (auto simp: hashes_def sha256_update_def Let_def)
  next
    case 2
    then have n: "n = length data" "sh_buf_len s + n \<noteq> BLOCK_LEN" "min (BLOCK_LEN - sh_buf_len s) (length data) = n"
      by (auto simp: n_def BLOCK_LEN_def)
    have "take (sh_buf_len s + n) (copy_into (sh_buf_len s) data (sh_buf s)) = held @ data"
      "length (copy_into (sh_buf_len s) data (sh_buf s)) = 64" using 2 b n(1) by (simp_all add: copy_into_def held_def)
    moreover have "absorb_blocks H_INIT (m @ data) = (sh_h s, held @ data)" using goal 2 b by simp
    ultimately show ?thesis using 2 n tot by (simp add: hashes_def sha256_update_def Let_def)
  next
    case 3
    then have n: "n = 64 - sh_buf_len s" "sh_buf_len s + n = BLOCK_LEN" "min (BLOCK_LEN - sh_buf_len s) (length data) = n"
      using b by (auto simp: n_def BLOCK_LEN_def)
    have full: "copy_into (sh_buf_len s) (take n data) (sh_buf s) = held @ take n data"
      using 3 b n(1) by (simp add: copy_into_def held_def)
    have len: "length (held @ take n data) = 64" using 3 b n(1) by simp
    have "absorb_blocks H_INIT (m @ data) = absorb_blocks (compress (sh_h s) (held @ take n data)) (drop n data)"
      using absorb_block [OF len, of "sh_h s" "drop n data"] goal by simp
    moreover obtain h rest where hr: "absorb_blocks (compress (sh_h s) (held @ take n data)) (drop n data) = (h, rest)" by fastforce
    moreover have "length rest < 64" using less [of "compress (sh_h s) (held @ take n data)" "drop n data"] hr by simp
    ultimately show ?thesis using 3 n(2,3) full len tot finish [of rest "held @ take n data"]
      by (auto simp: hashes_def sha256_update_def Let_def)
  qed
qed

section \<open>The standard\<close>

text \<open>
  The program's constants, schedule, rounds, padding and blocks are those of the standard as \<open>Fips180\<close> states it: the tables
  are the fractional bits of the roots of the primes, and the compression function is the standard's computation of
  one block.
\<close>

function blocks64 :: "'a list \<Rightarrow> 'a list list" where
  "blocks64 xs = (if length xs < 64 then [] else take 64 xs # blocks64 (drop 64 xs))"
  by auto
termination by (relation "measure length") auto

declare blocks64.simps [simp del]

definition fips_pad :: "byte list \<Rightarrow> byte list" where
  "fips_pad m = m @ [0x80] @ replicate ((119 - length m mod 64) mod 64) 0 @ be_bytes 8 (8 * length m)"

lemma K_ROUND_fips: "K_ROUND = map fips_K [0..<64]"
proof -
  have "length fips_primes = 64" by (simp add: fips_primes_eq)
  then have "map fips_K [0..<64] = map (root_bits 3) fips_primes"
    by (intro nth_equalityI) (simp_all add: fips_K_def)
  also have "\<dots> = K_ROUND"
    unfolding fips_primes_eq by (rule root_bits_list) (simp, simp add: K_ROUND_def, code_simp)
  finally show ?thesis by simp
qed

lemma H_INIT_fips: "H_INIT = fips_H0"
  unfolding fips_H0_def fips_primes_eq
  by (rule root_bits_list [symmetric]) (simp, simp add: H_INIT_def, code_simp)

lemma rotr_fips: "n < 32 \<Longrightarrow> word_rotr n x = fips_rotr n x"
proof (rule bit_eqI)
  fix i assume n: "n < 32" and i: "possible_bit TYPE(32 word) i"
  then have "i < 32" by simp
  then show "bit (word_rotr n x) i \<longleftrightarrow> bit (fips_rotr n x) i"
    using n by (cases "i + n < 32") (auto simp: fips_rotr_def bit_simps bit_word_rotr_iff le_mod_geq add.commute
        dest: bit_imp_le_length)
qed

lemma block_words_fips: "length b = 4 * n \<Longrightarrow> block_words b = map (fips_M b) [0..<n]"
proof (induction n arbitrary: b)
  case (Suc n)
  then obtain x0 x1 x2 x3 bs where b: "b = x0 # x1 # x2 # x3 # bs" "length bs = 4 * n"
    by (cases b rule: block_words.cases) auto
  have "fips_M b (Suc t) = fips_M bs t" for t by (simp add: fips_M_def b(1) add.commute [of _ "4 * t"])
  moreover have "word_of_nat (be_value [x0, x1, x2, x3]) = fips_M b 0"
    by (simp add: fips_M_def be_value_def b(1) algebra_simps)
  ultimately show ?case using Suc.IH [OF b(2)] by (simp add: b(1) map_upt_Suc del: upt_Suc)
qed simp

lemma next_word_fips: "16 \<le> n \<Longrightarrow> next_word (map (fips_W b) [0..<n]) = fips_W b n"
  by (subst fips_W.simps)
    (simp add: next_word_def rotr_fips fips_sigma0_def fips_sigma1_def Let_def algebra_simps)

lemma expand_fips: "16 \<le> n \<Longrightarrow> expand_words k (map (fips_W b) [0..<n]) = map (fips_W b) [0..<n + k]"
proof (induction k arbitrary: n)
  case (Suc k)
  have "map (fips_W b) [0..<n] @ [next_word (map (fips_W b) [0..<n])] = map (fips_W b) [0..<Suc n]"
    using Suc.prems by (simp add: next_word_fips)
  then show ?case using Suc.IH [of "Suc n"] Suc.prems by simp
qed simp

lemma rounds_fips: "fold sha_round (map (\<lambda>t. (fips_K t, fips_W b t)) [0..<n]) v = fips_rounds b v n"
proof (induction n)
  case (Suc n)
  have "sha_round (fips_K n, fips_W b n) u = (case u of (a, b', c, d, e, f, g, h) \<Rightarrow>
      let T1 = h + fips_Sum1 e + fips_Ch e f g + fips_K n + fips_W b n; T2 = fips_Sum0 a + fips_Maj a b' c
      in (T1 + T2, a, b', c, d + T1, e, f, g))" for u
    by (cases u) (auto simp: rotr_fips fips_Sum0_def fips_Sum1_def fips_Ch_def fips_Maj_def Let_def)
  then show ?case using Suc by simp
qed simp

lemma compress_fips:
  assumes "length b = 64"
  shows "compress h b = fips_block h b"
proof -
  have "block_words b = map (fips_M b) [0..<16]" using block_words_fips [of b 16] assms by simp
  also have "\<dots> = map (fips_W b) [0..<16]" by (rule map_cong [OF refl]) (simp add: fips_W.simps)
  finally have "expand_words 48 (block_words b) = map (fips_W b) [0..<64]" using expand_fips [of 16 48 b] by simp
  then have "zip K_ROUND (expand_words 48 (block_words b)) = map (\<lambda>t. (fips_K t, fips_W b t)) [0..<64]"
    by (simp add: K_ROUND_fips zip_map_map zip_same_conv_map comp_def del: upt_rec_numeral)
  then show ?thesis
    by (simp add: compress_def fips_block_def rounds_fips Let_def add.commute split: prod.split del: upt_rec_numeral)
qed

lemma octets_fips: "be_bytes n x = fips_octets n x"
proof -
  have "le_bytes n x = map (\<lambda>i. word_of_nat (x div 256 ^ i)) [0..<n]" for n x
  proof (induction n arbitrary: x)
    case (Suc n)
    have "word_of_nat (x mod 256) = (word_of_nat x :: 8 word)" by (simp add: word_of_nat_eq_iff take_bit_eq_mod)
    then show ?case using Suc [of "x div 256"] by (simp add: map_upt_Suc div_mult2_eq del: upt_Suc)
  qed simp
  then show ?thesis by (intro nth_equalityI) (simp_all add: be_bytes_def fips_octets_def rev_nth)
qed

lemma zero_octets: "r < 64 \<Longrightarrow> (119 - r) mod 64 = (if r < 56 then 55 - r else 119 - r)" for r :: nat
  by (simp add: mod_if)

lemma fips_zeros_octets: "fips_zeros (8 * n) = 7 + 8 * ((119 - n mod 64) mod 64)"
  unfolding fips_zeros_def
proof (rule Least_equality)
  define q r where "q = n div 64" and "r = n mod 64"
  have "n = 64 * q + r" by (simp add: q_def r_def)
  then have n: "8 * n = 512 * q + 8 * r" "r < 64" by (simp_all add: r_def)
  note z = zero_octets [OF n(2)]
  have "8 * n + 1 + (7 + 8 * ((119 - n mod 64) mod 64)) = 448 + 512 * (if r < 56 then q else q + 1)"
    unfolding r_def [symmetric] z n(1) using n(2) by (cases "r < 56") (simp_all add: diff_mult_distrib2)
  then show "(8 * n + 1 + (7 + 8 * ((119 - n mod 64) mod 64))) mod 512 = 448" by simp
  fix k assume "(8 * n + 1 + k) mod 512 = 448"
  then have "(8 * r + 1 + k) mod 512 = 448" by (simp add: n(1) add.assoc)
  then have "8 * r + 1 + k = 512 * ((8 * r + 1 + k) div 512) + 448"
    using mult_div_mod_eq [of 512 "8 * r + 1 + k"] by linarith
  then show "7 + 8 * ((119 - n mod 64) mod 64) \<le> k" unfolding r_def [symmetric] z using n(2)
    by (cases "(8 * r + 1 + k) div 512") auto
qed

lemma pad_fips: "fips_pad m = fips_padded m"
  by (simp add: fips_pad_def fips_padded_def octets_fips fips_zeros_octets)

lemma blocks64_snoc: "length b = 64 \<Longrightarrow> length xs = 64 * n \<Longrightarrow> blocks64 (xs @ b) = blocks64 xs @ [b]"
proof (induction n arbitrary: xs)
  case 0
  then show ?case by (simp add: blocks64.simps)
next
  case (Suc n)
  from Suc.IH [of "drop 64 xs"] Suc.prems show ?case by (simp add: blocks64.simps [of xs] blocks64.simps [of "xs @ b"])
qed

lemma blocks_fips:
  "64 * n \<le> length P \<Longrightarrow> fold (\<lambda>b h. compress h b) (blocks64 (take (64 * n) P)) H_INIT = fips_H P n"
proof (induction n)
  case 0
  then show ?case by (simp add: H_INIT_fips blocks64.simps)
next
  case (Suc n)
  have "take (64 * Suc n) P = take (64 * n) P @ take 64 (drop (64 * n) P)" by (simp add: take_add [symmetric] add.commute)
  then have "blocks64 (take (64 * Suc n) P) = blocks64 (take (64 * n) P) @ [take 64 (drop (64 * n) P)]"
    using blocks64_snoc [of "take 64 (drop (64 * n) P)" "take (64 * n) P" n] Suc.prems by simp
  then show ?case using Suc by (simp add: compress_fips)
qed

lemma padded_whole: "64 * (length (fips_pad m) div 64) = length (fips_pad m)"
proof -
  define q r where "q = length m div 64" and "r = length m mod 64"
  have n: "length m = 64 * q + r" "r < 64" by (simp_all add: q_def r_def)
  have "length (fips_pad m) = length m + 9 + (119 - r) mod 64" by (simp add: fips_pad_def r_def)
  also have "\<dots> = 64 * (if r < 56 then q + 1 else q + 2)" unfolding n(1) zero_octets [OF n(2)] using n(2) by simp
  finally show ?thesis by simp
qed

lemma sha256_blocks_fips:
  "concat (map (\<lambda>w. be_bytes 4 (unat w)) (fold (\<lambda>b h. compress h b) (blocks64 (fips_pad m)) H_INIT)) = fips_sha256 m"
  using blocks_fips [of "length (fips_pad m) div 64" "fips_pad m"] padded_whole [of m]
  by (simp add: fips_sha256_def octets_fips pad_fips Let_def)

lemma absorb_blocks64: "fst (absorb_blocks h xs) = fold (\<lambda>b h. compress h b) (blocks64 xs) h"
proof (induction h xs rule: absorb_blocks.induct)
  case (1 h xs)
  then show ?case
    by (cases "length xs < 64") (simp_all add: absorb_blocks.simps [of h xs] blocks64.simps [of xs])
qed

lemma absorb_rest_mod: "length (snd (absorb_blocks h xs)) = length xs mod 64"
proof (induction h xs rule: absorb_blocks.induct)
  case (1 h xs)
  then show ?case
    by (cases "length xs < 64") (simp_all add: absorb_blocks.simps [of h xs] le_mod_geq not_less)
qed

lemma hashes_finalize:
  assumes "hashes m s" "8 * length m \<le> u64_max"
  shows "sha256_finalize s = fips_sha256 m"
proof -
  define held where "held = take (sh_buf_len s) (sh_buf s)"
  define r where "r = length m mod 64"
  define be where "be = be_bytes 8 (8 * length m)"
  have m: "absorb_blocks H_INIT m = (sh_h s, held)" using assms(1) by (simp add: hashes_def held_def)
  have r: "length held = r" "sh_buf_len s = r" "r < 64"
    using absorb_rest_mod [of H_INIT m] m assms(1) by (auto simp: hashes_def held_def r_def)
  have bits: "sat_mul64 (sh_total_len s) 8 = 8 * length m"
    using assms by (auto simp: hashes_def sat_mul64_def sat_u64_def)
  have be: "length be = 8" by (simp add: be_def)
  have "fold (\<lambda>b h. compress h b) (blocks64 (fips_pad m)) H_INIT =
      fst (absorb_blocks (sh_h s) (held @ [0x80] @ replicate ((119 - r) mod 64) 0 @ be))"
    using absorb_append [of H_INIT m] m by (simp add: absorb_blocks64 [symmetric] fips_pad_def r_def be_def)
  also have "\<dots> = (let buf = held @ [0x80] @ replicate (64 - (r + 1)) 0;
         (h, buf) = (if 56 < r + 1 then (compress (sh_h s) buf, replicate 64 0) else (sh_h s, buf))
       in compress h (take 56 buf @ be))"
  proof (cases "56 < r + 1")
    case True
    then have "(119 - r) mod 64 = (63 - r) + 56" using r(3) by simp
    then have "held @ [0x80] @ replicate ((119 - r) mod 64) 0 @ be = (held @ [0x80] @ replicate (63 - r) 0) @ (replicate 56 0 @ be) @ []"
      by (simp only: replicate_add append_assoc append_Nil2)
    moreover have "length (held @ [0x80] @ replicate (63 - r) 0) = 64" "length (replicate 56 0 @ be) = 64" using r be by simp_all
    ultimately have "absorb_blocks (sh_h s) (held @ [0x80] @ replicate ((119 - r) mod 64) 0 @ be) =
        absorb_blocks (compress (compress (sh_h s) (held @ [0x80] @ replicate (63 - r) 0)) (replicate 56 0 @ be)) []"
      by (simp only: absorb_block)
    then have "fst (absorb_blocks (sh_h s) (held @ [0x80] @ replicate ((119 - r) mod 64) 0 @ be)) =
        compress (compress (sh_h s) (held @ [0x80] @ replicate (63 - r) 0)) (replicate 56 0 @ be)" by simp
    then show ?thesis using True by simp
  next
    case False
    then have "(119 - r) mod 64 = 55 - r" using r(3) by (simp add: mod_if)
    moreover have "length (held @ [0x80] @ replicate (55 - r) 0 @ be) = 64" using r be False by simp
    ultimately have "fst (absorb_blocks (sh_h s) (held @ [0x80] @ replicate ((119 - r) mod 64) 0 @ be)) =
        compress (sh_h s) (held @ [0x80] @ replicate (55 - r) 0 @ be)"
      using absorb_block [of "held @ [0x80] @ replicate (55 - r) 0 @ be" "sh_h s" "[]"] by simp
    moreover have "take 56 (held @ [0x80] @ replicate (64 - (r + 1)) 0) = held @ [0x80] @ replicate (55 - r) (0 :: byte)"
    proof -
      have "56 - r = Suc (55 - r)" using False by simp
      then show ?thesis using r by (simp add: min_def)
    qed
    ultimately show ?thesis using False by simp
  qed
  finally show ?thesis
    using bits r(2) by (simp add: sha256_finalize_def sha256_blocks_fips [symmetric] BLOCK_LEN_def Let_def held_def be_def split: prod.split)
qed

lemma hashes_parts: "hashes m s \<Longrightarrow> hashes (m @ concat parts) (fold sha256_update parts s)"
proof (induction parts arbitrary: m s)
  case (Cons p parts)
  from Cons.IH [OF hashes_update [OF Cons.prems], of p] show ?case by simp
qed simp

text \<open>
  C18: streaming SHA-256 is the SHA-256 of FIPS 180-4. However a message is cut into updates, including empty ones and
  ones that end inside a block, the digest is the one the standard defines for the whole message: its padding, its
  constants (the fractional bits of the square and cube roots of the first primes), its message schedule and its rounds.
\<close>

theorem sha256_streaming:
  assumes "8 * length (concat parts) \<le> u64_max"
  shows "sha256_parts parts = fips_sha256 (concat parts) \<and> sha256 (concat parts) = fips_sha256 (concat parts)"
proof -
  have "hashes (concat parts) (fold sha256_update parts sha256_new)" using hashes_parts [OF hashes_new] by simp
  moreover have "hashes (concat parts) (sha256_update (concat parts) sha256_new)" using hashes_update [OF hashes_new] by simp
  ultimately show ?thesis using hashes_finalize [OF _ assms] by (simp add: sha256_parts_def sha256_def)
qed

theorem sha256_streaming_witness:
  "sha256_parts [[0x61], [], [0x62, 0x63]] = sha256 [0x61, 0x62, 0x63]"
  using sha256_streaming [of "[[0x61], [], [0x62, 0x63]]"] by (simp add: u64_max_def)

section \<open>HMAC\<close>

definition hmac_key_block :: "byte list \<Rightarrow> byte list" where
  "hmac_key_block key =
     (let k = (if length key > 64 then sha256 key else key) in k @ replicate (64 - length k) 0)"

definition hmac_ref :: "byte list \<Rightarrow> byte list \<Rightarrow> byte list" where
  "hmac_ref key msg =
     fips_sha256 (map (\<lambda>k. k XOR 0x5c) (hmac_key_block key) @
       fips_sha256 (map (\<lambda>k. k XOR 0x36) (hmac_key_block key) @ msg))"

lemma fold_compress_length: "bs \<noteq> [] \<or> length h = 8 \<Longrightarrow> length (fold (\<lambda>b h. compress h b) bs h) = 8"
proof (induction bs arbitrary: h)
  case (Cons b bs)
  have "length (compress h b) = 8" by (simp add: compress_def Let_def split: prod.split)
  with Cons.IH show ?case by simp
qed simp

lemma fips_sha256_length: "length (fips_sha256 m) = 32"
proof -
  have "length (fold (\<lambda>b h. compress h b) (blocks64 (fips_pad m)) H_INIT) = 8"
    by (rule fold_compress_length) (simp add: H_INIT_def)
  then show ?thesis by (simp add: sha256_blocks_fips [symmetric] length_concat comp_def sum_list_triv)
qed

lemma hashes_sha256: "8 * length m \<le> u64_max \<Longrightarrow> sha256 m = fips_sha256 m"
  using hashes_finalize [OF hashes_update [OF hashes_new]] by (simp add: sha256_def)

lemma hmac_key_block_eq:
  assumes "8 * length key \<le> u64_max"
  shows "(if length key > BLOCK_LEN then copy_into 0 (sha256 key) (replicate BLOCK_LEN 0)
     else copy_into 0 key (replicate BLOCK_LEN 0)) = hmac_key_block key" "length (hmac_key_block key) = 64"
proof -
  have "length (sha256 key) = 32" using hashes_sha256 [OF assms] fips_sha256_length by simp
  then show "length (hmac_key_block key) = 64" by (simp add: hmac_key_block_def Let_def)
  show "(if length key > BLOCK_LEN then copy_into 0 (sha256 key) (replicate BLOCK_LEN 0)
     else copy_into 0 key (replicate BLOCK_LEN 0)) = hmac_key_block key"
    by (simp add: hmac_key_block_def copy_into_def BLOCK_LEN_def Let_def)
qed

definition macs :: "byte list \<Rightarrow> byte list \<Rightarrow> hmac_state \<Rightarrow> bool" where
  "macs key msg m \<longleftrightarrow>
     hashes (map (\<lambda>k. k XOR 0x36) (hmac_key_block key) @ msg) (hm_inner m) \<and>
     hm_outer_key m = map (\<lambda>k. k XOR 0x5c) (hmac_key_block key)"

lemma macs_new: "8 * length key \<le> u64_max \<Longrightarrow> macs key [] (hmac_new key)"
  using hashes_update [OF hashes_new] by (simp add: macs_def hmac_new_def hmac_key_block_eq(1) Let_def)

lemma macs_update: "macs key msg m \<Longrightarrow> macs key (msg @ data) (hmac_update data m)"
  using hashes_update [of "map (\<lambda>k. k XOR 0x36) (hmac_key_block key) @ msg" "hm_inner m" data]
  by (simp add: macs_def hmac_update_def)

lemma macs_finalize:
  assumes "macs key msg m" "8 * length key \<le> u64_max" "8 * (64 + length msg) \<le> u64_max"
  shows "hmac_finalize m = hmac_ref key msg"
proof -
  let ?i = "map (\<lambda>k. k XOR 0x36) (hmac_key_block key) @ msg"
  let ?o = "map (\<lambda>k. k XOR 0x5c) (hmac_key_block key)"
  have l: "length (hmac_key_block key) = 64" using hmac_key_block_eq(2) [OF assms(2)] .
  then have "sha256_finalize (hm_inner m) = fips_sha256 ?i"
    using assms(1,3) by (intro hashes_finalize) (simp_all add: macs_def)
  moreover have "hashes (?o @ fips_sha256 ?i) (sha256_update (fips_sha256 ?i) (sha256_update ?o sha256_new))"
    using hashes_update [OF hashes_update [OF hashes_new, of ?o], of "fips_sha256 ?i"] by simp
  then have "sha256_finalize (sha256_update (fips_sha256 ?i) (sha256_update ?o sha256_new)) = fips_sha256 (?o @ fips_sha256 ?i)"
    by (rule hashes_finalize) (simp add: l fips_sha256_length u64_max_def)
  ultimately show ?thesis using assms(1) by (simp add: hmac_finalize_def macs_def hmac_ref_def Let_def)
qed

definition framed_parts :: "byte list list \<Rightarrow> byte list" where
  "framed_parts parts = concat (map (\<lambda>p. be_bytes 8 (length p) @ p) parts)"

lemma macs_parts:
  assumes "macs key msg m" "\<forall>p\<in>set parts. length p \<le> u64_max"
  shows "macs key (msg @ framed_parts parts) (fold hmac_part parts m)"
  using assms
proof (induction parts arbitrary: msg m)
  case (Cons p parts)
  have "macs key (msg @ be_bytes 8 (length p) @ p) (hmac_part p m)"
    using macs_update [OF macs_update [OF Cons.prems(1)], of "be_bytes 8 (length p)" p] Cons.prems(2)
    by (simp add: hmac_part_def min_def)
  from Cons.IH [OF this] Cons.prems(2) show ?case by (simp add: framed_parts_def)
qed (simp add: framed_parts_def)

lemma framed_parts_simps:
  "framed_parts [] = []" "framed_parts (p # ps) = be_bytes 8 (length p) @ p @ framed_parts ps"
  by (simp_all add: framed_parts_def)

lemma framed_parts_Cons_neq: "framed_parts (p # ps) \<noteq> []"
  using be_bytes_length [of 8 "length p"] by (auto simp: framed_parts_simps simp del: be_bytes_length)

lemma framed_parts_inject:
  assumes "framed_parts ps = framed_parts qs" "\<forall>p\<in>set ps. length p \<le> u64_max" "\<forall>p\<in>set qs. length p \<le> u64_max"
  shows "ps = qs"
  using assms
proof (induction ps arbitrary: qs)
  case Nil
  then show ?case using framed_parts_Cons_neq by (cases qs) (metis framed_parts_simps(1))+
next
  case (Cons p ps)
  then obtain q qs' where qs: "qs = q # qs'"
    using framed_parts_Cons_neq by (cases qs) (metis framed_parts_simps(1))+
  have eq: "be_bytes 8 (length p) @ p @ framed_parts ps = be_bytes 8 (length q) @ q @ framed_parts qs'"
    using Cons.prems(1) by (simp add: qs framed_parts_simps)
  then have "be_bytes 8 (length p) = be_bytes 8 (length q)" by simp
  moreover have "length p < 256 ^ 8" "length q < 256 ^ 8" using Cons.prems(2,3) by (auto simp: qs u64_max_def)
  ultimately have "length p = length q" by (simp add: be_bytes_inject)
  with eq have "p = q" "framed_parts ps = framed_parts qs'" by simp_all
  with Cons qs show ?case by simp
qed

text \<open>
  C19: message authentication codes are HMAC-SHA-256, and tuples are authenticated unambiguously. The code of a
  message is the nested hash of RFC 2104 over the padded key; the code of a list of parts is that of one
  message, and no two different lists of parts are ever authenticated as the same message.
\<close>

theorem hmac_correct:
  assumes "8 * length key \<le> u64_max" "8 * (64 + length msg) \<le> u64_max" "8 * (64 + length (framed_parts ps)) \<le> u64_max"
  shows "hmac_sha256 key msg = hmac_ref key msg \<and>
    hmac_sha256_parts key ps = hmac_ref key (framed_parts ps) \<and>
    (\<forall>qs. framed_parts qs = framed_parts ps \<longrightarrow> qs = ps)"
proof -
  have big: "\<forall>p\<in>set qs. length p \<le> u64_max" if "framed_parts qs = framed_parts ps" for qs
  proof
    fix p assume "p \<in> set qs"
    then have "length p \<le> length (framed_parts qs)"
      by (induction qs) (auto simp: framed_parts_def)
    then show "length p \<le> u64_max" using assms(3) that by simp
  qed
  have "hmac_sha256 key msg = hmac_ref key msg"
    unfolding hmac_sha256_def using macs_update [OF macs_new [OF assms(1)], of msg] assms by (intro macs_finalize) simp_all
  moreover have "hmac_sha256_parts key ps = hmac_ref key (framed_parts ps)"
    unfolding hmac_sha256_parts_def
    using macs_parts [OF macs_new [OF assms(1)] big [OF refl]] assms by (intro macs_finalize) simp_all
  ultimately show ?thesis using framed_parts_inject big by blast
qed

theorem hmac_correct_witness:
  "hmac_sha256 [1, 2, 3] [4] = hmac_ref [1, 2, 3] [4] \<and> framed_parts [[0x61, 0x62], [0x63]] \<noteq> framed_parts [[0x61], [0x62, 0x63]]"
proof -
  have "8 * (64 + length (framed_parts [[0x61], [0x62, 0x63]])) \<le> u64_max" by (simp add: framed_parts_simps u64_max_def)
  from hmac_correct [OF _ _ this, of "[1, 2, 3]" "[4]"]
  have h: "hmac_sha256 [1, 2, 3] [4] = hmac_ref [1, 2, 3] [4]"
    "\<forall>qs. framed_parts qs = framed_parts [[0x61], [0x62, 0x63]] \<longrightarrow> qs = [[0x61], [0x62, 0x63]]"
    by (simp_all add: u64_max_def)
  have "[[0x61, 0x62], [0x63]] \<noteq> [[0x61], [0x62, 0x63 :: byte]]" by simp
  with h show ?thesis by blast
qed

section \<open>CRC-32\<close>

text \<open>The reference: the CRC register fed bit by bit, eight steps per byte.\<close>

definition crc_ref_byte :: "byte \<Rightarrow> 32 word \<Rightarrow> 32 word" where
  "crc_ref_byte byte crc = (crc_step ^^ 8) (crc XOR ucast byte)"

lemma xor_cancel [simp]: "(x XOR y) XOR y = (x :: 'a :: len word)"
  by (simp add: xor.assoc)

lemma xor_inject: "x XOR z = y XOR z \<longleftrightarrow> x = (y :: 'a :: len word)"
proof
  assume "x XOR z = y XOR z"
  then have "(x XOR z) XOR z = (y XOR z) XOR z" by (rule arg_cong)
  then show "x = y" by (simp only: xor_cancel)
qed simp

lemma odd_bit: "(x :: 32 word) AND 1 \<noteq> 0 \<longleftrightarrow> bit x 0"
  by (simp add: and_one_eq odd_iff_mod_2_eq_one bit_0)

lemma crc_step_linear: "crc_step (x XOR y) = crc_step x XOR crc_step y"
  by (rule bit_eqI) (auto simp: crc_step_def odd_bit bit_xor_iff bit_drop_bit_eq)

lemma crc_steps_linear: "(crc_step ^^ n) (x XOR y) = (crc_step ^^ n) x XOR (crc_step ^^ n) y"
  by (induction n) (simp_all add: crc_step_linear)

lemma crc_steps_high: "(\<And>i. i < n \<Longrightarrow> \<not> bit x i) \<Longrightarrow> (crc_step ^^ n) x = drop_bit n x"
proof (induction n)
  case (Suc n)
  then have "(crc_step ^^ n) x = drop_bit n x" by simp
  moreover have "\<not> bit (drop_bit n x) 0" using Suc.prems [of n] by (simp add: bit_drop_bit_eq)
  ultimately have "crc_step ((crc_step ^^ n) x) = drop_bit 1 (drop_bit n x)" by (simp add: crc_step_def odd_bit)
  then show ?case by simp
qed simp

lemma crc_step_inject: "crc_step x = crc_step y \<Longrightarrow> x = y"
proof -
  assume eq: "crc_step x = crc_step y"
  have p: "bit POLY 31" by (simp add: POLY_def)
  have top: "bit (crc_step z) 31 \<longleftrightarrow> bit z 0" for z
    using p by (auto simp: crc_step_def odd_bit bit_xor_iff bit_drop_bit_eq dest: bit_imp_le_length)
  have b0: "bit x 0 = bit y 0" using top [of x] top [of y] eq by simp
  have "drop_bit 1 x = drop_bit 1 y"
    using eq b0 by (auto simp: crc_step_def odd_bit xor_inject split: if_splits)
  then have "bit x (Suc n) = bit y (Suc n)" for n by (metis bit_drop_bit_eq comp_apply plus_1_eq_Suc)
  with b0 show "x = y" by (metis bit_eqI not0_implies_Suc)
qed

lemma crc_steps_inject: "(crc_step ^^ n) x = (crc_step ^^ n) y \<Longrightarrow> x = y"
  by (induction n arbitrary: x y) (auto dest: crc_step_inject)

text \<open>The table lookup is eight steps of the register.\<close>

lemma crc_byte_ref: "crc_byte b crc = crc_ref_byte b crc"
proof -
  define x where "x = crc XOR (ucast b :: 32 word)"
  define low where "low = (ucast (ucast crc XOR b :: byte) :: 32 word)"
  have bl: "bit low i \<longleftrightarrow> i < 8 \<and> bit x i" for i
    by (auto simp: low_def x_def bit_ucast_iff bit_xor_iff dest: bit_imp_le_length)
  have "(crc_step ^^ 8) x = (crc_step ^^ 8) (x XOR low) XOR (crc_step ^^ 8) low"
    using crc_steps_linear [of 8 "x XOR low" low] by simp
  also have "(crc_step ^^ 8) (x XOR low) = drop_bit 8 (x XOR low)"
    by (rule crc_steps_high) (simp add: bit_xor_iff bl)
  also have "drop_bit 8 (x XOR low) = drop_bit 8 crc"
    by (rule bit_eqI) (auto simp: bit_drop_bit_eq bit_xor_iff bl x_def bit_ucast_iff dest: bit_imp_le_length)
  finally have "(crc_step ^^ 8) x = drop_bit 8 crc XOR (crc_step ^^ 8) low" .
  moreover have "build_table ! unat (ucast crc XOR b) = (crc_step ^^ 8) low"
  proof -
    have "unat (ucast crc XOR b) < 256" using unsigned_less [of "ucast crc XOR b :: byte"] by simp
    then show ?thesis by (simp add: build_table_def low_def unsigned_ucast_eq del: upt_Suc)
  qed
  ultimately show ?thesis by (simp add: crc_byte_def crc_ref_byte_def x_def)
qed

lemma crc_byte_inject:
  shows "crc_byte b x = crc_byte b y \<Longrightarrow> x = y" and "crc_byte a x = crc_byte b x \<Longrightarrow> a = b"
proof -
  assume "crc_byte b x = crc_byte b y"
  then have "x XOR ucast b = y XOR (ucast b :: 32 word)" unfolding crc_byte_ref crc_ref_byte_def by (rule crc_steps_inject)
  then show "x = y" by (simp only: xor_inject)
next
  assume "crc_byte a x = crc_byte b x"
  then have "x XOR ucast a = x XOR (ucast b :: 32 word)" unfolding crc_byte_ref crc_ref_byte_def by (rule crc_steps_inject)
  then have "x XOR (x XOR ucast a) = x XOR (x XOR (ucast b :: 32 word))" by simp
  then have "(ucast a :: 32 word) = ucast b" by (simp add: xor.assoc [symmetric])
  then have "unat (ucast a :: 32 word) = unat (ucast b :: 32 word)" by simp
  moreover have "unat (ucast c :: 32 word) = unat c" for c :: byte
    using unsigned_less [of c, where 'a = nat] by (simp add: unsigned_ucast_eq take_bit_nat_eq_self_iff)
  ultimately show "a = b" by (simp add: word_unat_eq_iff)
qed

lemma crc_update_inject: "crc_update ys x = crc_update ys y \<Longrightarrow> x = y"
  by (induction ys arbitrary: x y) (auto simp: crc_update_def dest: crc_byte_inject(1))

lemma crc_parts: "fold crc_update parts crc = crc_update (concat parts) crc"
  by (induction parts arbitrary: crc) (simp_all add: crc_update_def)

lemma crc_one_byte:
  assumes "crc32 (xs @ [a] @ ys) = crc32 (xs @ [b] @ ys)"
  shows "a = b"
proof -
  let ?x = "crc_update xs 0xFFFFFFFF"
  have "crc_update (xs @ [a] @ ys) 0xFFFFFFFF = crc_update (xs @ [b] @ ys) 0xFFFFFFFF"
    using assms by (simp only: crc32_def xor_inject)
  then have "crc_update ys (crc_byte a ?x) = crc_update ys (crc_byte b ?x)" by (simp add: crc_update_def)
  then show ?thesis using crc_update_inject crc_byte_inject(2) by blast
qed

text \<open>
  The checksum is the bitwise CRC and catches every damaged byte. The table-driven update equals the
  shift register with the reflected polynomial, splitting a message into parts changes nothing, and two messages
  of the same length that differ in exactly one byte always have different checksums.
\<close>

theorem crc32_correct:
  "crc32 data = fold crc_ref_byte data 0xFFFFFFFF XOR 0xFFFFFFFF \<and>
   crc32_parts parts = crc32 (concat parts) \<and>
   (crc32 (xs @ [a] @ ys) = crc32 (xs @ [b] @ ys) \<longleftrightarrow> a = b)"
proof -
  have "crc_byte = crc_ref_byte" by (simp add: fun_eq_iff crc_byte_ref)
  then have "crc32 data = fold crc_ref_byte data 0xFFFFFFFF XOR 0xFFFFFFFF" by (simp add: crc32_def crc_update_def)
  moreover have "crc32_parts parts = crc32 (concat parts)" by (simp add: crc32_parts_def crc32_def crc_parts)
  ultimately show ?thesis using crc_one_byte by blast
qed

section \<open>Comparison\<close>

lemma fold_diff_zero:
  "fold (\<lambda>(x, y) diff. diff OR (x XOR y)) ps d = 0 \<longleftrightarrow> d = 0 \<and> (\<forall>(x, y)\<in>set ps. x = (y :: byte))"
proof (induction ps arbitrary: d)
  case (Cons p ps)
  have "u OR v = 0 \<longleftrightarrow> u = 0 \<and> v = 0" for u v :: byte by (simp add: or_eq_0_iff)
  moreover have "x XOR y = 0 \<longleftrightarrow> x = y" for x y :: byte using xor_inject [of x y y] by simp
  ultimately show ?case using Cons by (cases p) auto
qed simp

lemma ct_eq_iff: "ct_eq xs ys \<longleftrightarrow> xs = ys"
  unfolding ct_eq_def fold_diff_zero by (auto simp: list_eq_iff_zip_eq)

text \<open>
  Constant-time comparison is equality, and the branch-free selection picks the right operand.
\<close>

theorem ct_correct: "(ct_eq xs ys \<longleftrightarrow> xs = ys) \<and> select_u8 c x y = (if c then x else y)"
proof -
  have "select_u8 c x y = (if c then x else y)" by (cases c) (simp_all add: select_u8_def Let_def)
  then show ?thesis by (simp add: ct_eq_iff)
qed

end
