(* ===== verification/Encoding.thy ===== *)
theory Encoding
  imports Digest
begin

unbundle bit_operations_syntax

text \<open>
  Text encodings of bytes (\<open>hypellm-crypto\<close>, \<open>hex.rs\<close> and \<open>base64.rs\<close>): lowercase hexadecimal and the
  strict base64 variants. Text is the list of its ASCII bytes.
\<close>

section \<open>Hexadecimal\<close>

datatype hex_error = OddLength | HexInvalidCharacter | OutputLength

definition hex_char :: "byte \<Rightarrow> byte" where
  "hex_char n = (let d = n AND 0x0f in if d \<le> 9 then 0x30 + d else 0x61 + d - 10)"

definition hex_encode :: "byte list \<Rightarrow> byte list" where
  "hex_encode data = concat (map (\<lambda>b. [hex_char (drop_bit 4 b), hex_char b]) data)"

definition hex_encode_prefix :: "byte list \<Rightarrow> nat \<Rightarrow> byte list" where
  "hex_encode_prefix data n = hex_encode (take (min n (length data)) data)"

definition hex_val :: "byte \<Rightarrow> byte option" where
  "hex_val c =
     (if 0x30 \<le> c \<and> c \<le> 0x39 then Some (c - 0x30)
      else if 0x61 \<le> c \<and> c \<le> 0x66 then Some (c - 0x61 + 10)
      else if 0x41 \<le> c \<and> c \<le> 0x46 then Some (c - 0x41 + 10)
      else None)"

text \<open>The loop over \<open>chunks_exact(2)\<close>.\<close>

fun hex_pairs :: "byte list \<Rightarrow> hex_error + byte list" where
  "hex_pairs (hi # lo # rest) =
     (case hex_val hi of None \<Rightarrow> Inl HexInvalidCharacter
      | Some h \<Rightarrow> (case hex_val lo of None \<Rightarrow> Inl HexInvalidCharacter
         | Some l \<Rightarrow> (case hex_pairs rest of Inl e \<Rightarrow> Inl e | Inr out \<Rightarrow> Inr ((push_bit 4 h OR l) # out))))"
| "hex_pairs _ = Inr []"

definition hex_decode_into :: "byte list \<Rightarrow> nat \<Rightarrow> hex_error + byte list" where
  "hex_decode_into input out_len =
     (if length input mod 2 \<noteq> 0 then Inl OddLength
      else if out_len * 2 \<noteq> length input then Inl OutputLength
      else hex_pairs input)"

definition hex_decode :: "byte list \<Rightarrow> nat \<Rightarrow> hex_error + byte list" where
  "hex_decode input max_output =
     (if length input mod 2 \<noteq> 0 then Inl OddLength
      else (let n = length input div 2
            in if n > max_output then Inl OutputLength else hex_decode_into input n))"

definition decode_digest :: "byte list \<Rightarrow> hex_error + byte list" where
  "decode_digest input = hex_decode_into input 32"

section \<open>Base64\<close>

datatype alphabet = Standard | UrlSafe
datatype padding = PadRequired | PadForbidden
datatype base64_error = B64InvalidCharacter | InvalidLength | InvalidPadding | NonCanonical | B64TooLong

definition symbol_char :: "byte \<Rightarrow> alphabet \<Rightarrow> byte" where
  "symbol_char v a =
     (let n = v AND 0x3f
      in if n \<le> 25 then 0x41 + n
         else if n \<le> 51 then 0x61 + n - 26
         else if n \<le> 61 then 0x30 + n - 52
         else if n = 62 then (case a of Standard \<Rightarrow> 0x2B | UrlSafe \<Rightarrow> 0x2D)
         else (case a of Standard \<Rightarrow> 0x2F | UrlSafe \<Rightarrow> 0x5F))"

definition symbol_value :: "byte \<Rightarrow> alphabet \<Rightarrow> byte option" where
  "symbol_value c a =
     (if 0x41 \<le> c \<and> c \<le> 0x5A then Some (c - 0x41)
      else if 0x61 \<le> c \<and> c \<le> 0x7A then Some (c - 0x61 + 26)
      else if 0x30 \<le> c \<and> c \<le> 0x39 then Some (c - 0x30 + 52)
      else if c = 0x2B then (case a of Standard \<Rightarrow> Some 62 | UrlSafe \<Rightarrow> None)
      else if c = 0x2F then (case a of Standard \<Rightarrow> Some 63 | UrlSafe \<Rightarrow> None)
      else if c = 0x2D then (case a of UrlSafe \<Rightarrow> Some 62 | Standard \<Rightarrow> None)
      else if c = 0x5F then (case a of UrlSafe \<Rightarrow> Some 63 | Standard \<Rightarrow> None)
      else None)"

abbreviation pad_char :: byte where "pad_char \<equiv> 0x3D"

definition pad_if :: "padding \<Rightarrow> byte list" where
  "pad_if p = (if p = PadRequired then [pad_char] else [])"

text \<open>The four six-bit values of three bytes, and back.\<close>

definition sym0 :: "byte \<Rightarrow> byte" where "sym0 b0 = drop_bit 2 b0"
definition sym1 :: "byte \<Rightarrow> byte \<Rightarrow> byte" where "sym1 b0 b1 = push_bit 4 (b0 AND 0x03) OR drop_bit 4 b1"
definition sym2 :: "byte \<Rightarrow> byte \<Rightarrow> byte" where "sym2 b1 b2 = push_bit 2 (b1 AND 0x0f) OR drop_bit 6 b2"
definition oct0 :: "byte \<Rightarrow> byte \<Rightarrow> byte" where "oct0 v0 v1 = push_bit 2 v0 OR drop_bit 4 v1"
definition oct1 :: "byte \<Rightarrow> byte \<Rightarrow> byte" where "oct1 v1 v2 = push_bit 4 v1 OR drop_bit 2 v2"
definition oct2 :: "byte \<Rightarrow> byte \<Rightarrow> byte" where "oct2 v2 v3 = push_bit 6 v2 OR v3"

fun base64_encode :: "byte list \<Rightarrow> alphabet \<Rightarrow> padding \<Rightarrow> byte list" where
  "base64_encode [] a p = []"
| "base64_encode [b0] a p =
     [symbol_char (sym0 b0) a, symbol_char (sym1 b0 0) a] @ pad_if p @ pad_if p"
| "base64_encode [b0, b1] a p =
     [symbol_char (sym0 b0) a, symbol_char (sym1 b0 b1) a,
      symbol_char (sym2 b1 0) a] @ pad_if p"
| "base64_encode (b0 # b1 # b2 # rest) a p =
     [symbol_char (sym0 b0) a, symbol_char (sym1 b0 b1) a,
      symbol_char (sym2 b1 b2) a, symbol_char b2 a] @ base64_encode rest a p"

definition encode_url_nopad :: "byte list \<Rightarrow> byte list" where
  "encode_url_nopad data = base64_encode data UrlSafe PadForbidden"

definition encode_std :: "byte list \<Rightarrow> byte list" where
  "encode_std data = base64_encode data Standard PadRequired"

definition base64_body :: "byte list \<Rightarrow> padding \<Rightarrow> base64_error + byte list" where
  "base64_body input p =
     (case p of
        PadForbidden \<Rightarrow> if pad_char \<in> set input then Inl InvalidPadding else Inr input
      | PadRequired \<Rightarrow>
          if length input mod 4 \<noteq> 0 then Inl InvalidPadding
          else (let pad = length (takeWhile (\<lambda>c. c = pad_char) (rev input))
                in if pad > 2 then Inl InvalidPadding
                   else (let body = take (length input - pad) input
                         in if pad_char \<in> set body then Inl InvalidPadding else Inr body)))"

fun base64_groups :: "alphabet \<Rightarrow> byte list \<Rightarrow> base64_error + byte list" where
  "base64_groups a [] = Inr []"
| "base64_groups a [c0] = Inl InvalidLength"
| "base64_groups a [c0, c1] =
     (case (symbol_value c0 a, symbol_value c1 a) of
        (Some v0, Some v1) \<Rightarrow>
          if v1 AND 0x0f \<noteq> 0 then Inl NonCanonical else Inr [oct0 v0 v1]
      | _ \<Rightarrow> Inl B64InvalidCharacter)"
| "base64_groups a [c0, c1, c2] =
     (case (symbol_value c0 a, symbol_value c1 a, symbol_value c2 a) of
        (Some v0, Some v1, Some v2) \<Rightarrow>
          if v2 AND 0x03 \<noteq> 0 then Inl NonCanonical
          else Inr [oct0 v0 v1, oct1 v1 v2]
      | _ \<Rightarrow> Inl B64InvalidCharacter)"
| "base64_groups a (c0 # c1 # c2 # c3 # rest) =
     (case (symbol_value c0 a, symbol_value c1 a, symbol_value c2 a, symbol_value c3 a) of
        (Some v0, Some v1, Some v2, Some v3) \<Rightarrow>
          (case base64_groups a rest of Inl e \<Rightarrow> Inl e
           | Inr out \<Rightarrow>
               Inr ([oct0 v0 v1, oct1 v1 v2, oct2 v2 v3] @ out))
      | _ \<Rightarrow> Inl B64InvalidCharacter)"

definition base64_out_len :: "nat \<Rightarrow> nat" where
  "base64_out_len n = n div 4 * 3 + (if n mod 4 = 2 then 1 else if n mod 4 = 3 then 2 else 0)"

definition base64_decode :: "byte list \<Rightarrow> alphabet \<Rightarrow> padding \<Rightarrow> nat \<Rightarrow> base64_error + byte list" where
  "base64_decode input a p max_output =
     (case base64_body input p of Inl e \<Rightarrow> Inl e
      | Inr body \<Rightarrow>
          if length body mod 4 = 1 then Inl InvalidLength
          else if base64_out_len (length body) > max_output then Inl B64TooLong
          else base64_groups a body)"

definition decode_url_nopad :: "byte list \<Rightarrow> nat \<Rightarrow> base64_error + byte list" where
  "decode_url_nopad input max_output = base64_decode input UrlSafe PadForbidden max_output"

definition decode_std :: "byte list \<Rightarrow> nat \<Rightarrow> base64_error + byte list" where
  "decode_std input max_output = base64_decode input Standard PadRequired max_output"

section \<open>Symbols\<close>

lemma and_masks:
  "(x :: byte) AND 0x03 = take_bit 2 x" "x AND 0x0f = take_bit 4 x" "x AND 0x3f = take_bit 6 x"
  by (simp_all add: take_bit_eq_mask mask_eq_exp_minus_1)

lemma masked_le: "(x :: byte) AND 0x0f \<le> 15" "(x :: byte) AND 0x3f \<le> 63"
  by (rule word_and_le1 word_and_le2)+

lemma masked_id: "x \<le> 63 \<Longrightarrow> (x :: byte) AND 0x3f = x"
  by (simp add: and_masks word_le_nat_alt word_unat_eq_iff unsigned_take_bit_eq take_bit_nat_eq_self_iff)

lemmas byte_arith = word_le_nat_alt word_less_nat_alt word_unat_eq_iff unat_word_ariths unat_sub_if'

lemma hex_val_char: "hex_val (hex_char n) = Some (n AND 0x0f)"
proof -
  define d where "d = n AND 0x0f"
  have "d \<le> 15" using masked_le(1) by (simp add: d_def)
  then show ?thesis unfolding hex_char_def hex_val_def Let_def d_def [symmetric]
    by (auto simp: byte_arith)
qed

lemma symbol_value_char: "symbol_value (symbol_char v a) a = Some (v AND 0x3f)" "symbol_char v a \<noteq> pad_char"
proof -
  define n where "n = v AND 0x3f"
  have "n \<le> 63" using masked_le(2) by (simp add: n_def)
  then show "symbol_value (symbol_char v a) a = Some (v AND 0x3f)" "symbol_char v a \<noteq> pad_char"
    unfolding symbol_char_def symbol_value_def Let_def n_def [symmetric]
    by (cases a; auto simp: byte_arith)+
qed

lemma symbol_char_value:
  assumes "symbol_value c a = Some v"
  shows "symbol_char v a = c" "v AND 0x3f = v" "c \<noteq> pad_char"
proof -
  have v: "v \<le> 63" using assms by (cases a) (auto simp: symbol_value_def byte_arith split: if_splits)
  then show m: "v AND 0x3f = v" by (rule masked_id)
  show "symbol_char v a = c" using assms unfolding symbol_char_def m Let_def
    by (cases a) (auto simp: symbol_value_def byte_arith split: if_splits)
  show "c \<noteq> pad_char" using assms by (cases a) (auto simp: symbol_value_def)
qed

section \<open>Bits of a group\<close>

lemma byte_eqI:
  assumes "bit x 0 = bit y 0" "bit x 1 = bit y 1" "bit x 2 = bit y 2" "bit x 3 = bit y 3"
    "bit x 4 = bit y 4" "bit x 5 = bit y 5" "bit x 6 = bit y 6" "bit x 7 = bit y 7"
  shows "x = (y :: byte)"
proof (rule bit_eqI)
  fix n assume "possible_bit TYPE(byte) n"
  then have "n < 8" by simp
  then have "n \<in> {0, 1, 2, 3, 4, 5, 6, 7}" by auto
  with assms show "bit x n = bit y n" by auto
qed

lemmas group_bits = bit_or_iff bit_take_bit_iff bit_push_bit_iff bit_drop_bit_eq

lemma byte_bit_big: "8 \<le> i \<Longrightarrow> \<not> bit (b :: byte) i"
  using bit_imp_le_length [of b i] by auto

lemma nibbles_join: "push_bit 4 (drop_bit 4 b AND 0x0f) OR (b AND 0x0f) = (b :: byte)"
  unfolding and_masks by (rule byte_eqI) (simp_all add: group_bits)

lemma six_bits: "v AND 0x3f = (v :: byte) \<Longrightarrow> 6 \<le> i \<Longrightarrow> \<not> bit v i"
  unfolding and_masks by (metis bit_take_bit_iff not_less)

lemmas group_defs = sym0_def sym1_def sym2_def oct0_def oct1_def oct2_def

lemma group_join:
  "oct0 (sym0 b0 AND 0x3f) (sym1 b0 b1 AND 0x3f) = b0"
  "oct1 (sym1 b0 b1 AND 0x3f) (sym2 b1 b2 AND 0x3f) = b1"
  "oct2 (sym2 b1 b2 AND 0x3f) (b2 AND 0x3f) = b2"
  unfolding group_defs and_masks by (rule byte_eqI; simp add: group_bits byte_bit_big)+

lemma group_split:
  assumes "v0 AND 0x3f = v0" "v1 AND 0x3f = v1" "v2 AND 0x3f = v2" "v3 AND 0x3f = v3"
  shows "sym0 (oct0 v0 v1) = v0" "sym1 (oct0 v0 v1) (oct1 v1 v2) = v1" "sym2 (oct1 v1 v2) (oct2 v2 v3) = v2"
    "oct2 v2 v3 AND 0x3f = v3"
proof -
  note z = six_bits [OF assms(1)] six_bits [OF assms(2)] six_bits [OF assms(3)] six_bits [OF assms(4)] byte_bit_big
  show "sym0 (oct0 v0 v1) = v0" "sym1 (oct0 v0 v1) (oct1 v1 v2) = v1" "sym2 (oct1 v1 v2) (oct2 v2 v3) = v2"
    "oct2 v2 v3 AND 0x3f = v3"
    unfolding group_defs and_masks by (rule byte_eqI; simp add: group_bits z)+
qed

text \<open>The short final groups, whose unused bits must be zero.\<close>

lemma tail_split:
  assumes "v0 AND 0x3f = v0" "v1 AND 0x3f = v1" "v2 AND 0x3f = v2"
  shows "v1 AND 0x0f = 0 \<Longrightarrow> sym1 (oct0 v0 v1) 0 = v1" and "v2 AND 0x03 = 0 \<Longrightarrow> sym2 (oct1 v1 v2) 0 = v2"
proof -
  note z = six_bits [OF assms(1)] six_bits [OF assms(2)] six_bits [OF assms(3)] byte_bit_big
  have low: "x AND 0x0f = 0 \<Longrightarrow> \<not> bit x i" if "i < 4" for x :: byte and i
    unfolding and_masks using that by (metis bit_0_eq bit_take_bit_iff bot_apply bot_bool_def)
  have low2: "x AND 0x03 = 0 \<Longrightarrow> \<not> bit x i" if "i < 2" for x :: byte and i
    unfolding and_masks using that by (metis bit_0_eq bit_take_bit_iff bot_apply bot_bool_def)
  show "sym1 (oct0 v0 v1) 0 = v1" if "v1 AND 0x0f = 0"
    unfolding group_defs and_masks(1) by (rule byte_eqI; simp add: group_bits z low [OF _ that])
  show "sym2 (oct1 v1 v2) 0 = v2" if "v2 AND 0x03 = 0"
    unfolding group_defs and_masks(2) by (rule byte_eqI; simp add: group_bits z low2 [OF _ that])
qed

lemma tail_zero: "(sym1 b0 0 AND 0x3f) AND 0x0f = 0" "(sym2 b1 0 AND 0x3f) AND 0x03 = 0"
  unfolding group_defs and_masks by (rule byte_eqI; simp add: group_bits)+

lemma symbol_char_masked: "symbol_char (v AND 0x3f) a = symbol_char v a"
  by (simp add: symbol_char_def and.assoc)

section \<open>Hexadecimal round trip\<close>

lemma hex_pairs_encode: "hex_pairs (hex_encode data) = Inr data"
proof (induction data)
  case (Cons b data)
  then show ?case using nibbles_join [of b] by (simp add: hex_encode_def hex_val_char)
qed (simp add: hex_encode_def)

lemma hex_encode_length: "length (hex_encode data) = 2 * length data"
  by (induction data) (simp_all add: hex_encode_def)

lemma hex_pairs_length: "hex_pairs input = Inr out \<Longrightarrow> even (length input) \<Longrightarrow> length out * 2 = length input"
  by (induction input arbitrary: out rule: hex_pairs.induct) (auto split: option.splits sum.splits)

text \<open>
  Hexadecimal digests round-trip and decoding is bounded. Decoding the rendering of any bytes gives them
  back whenever they fit the caller's bound; whatever decodes has exactly half the length of the text and never
  exceeds the bound.
\<close>

theorem hex_roundtrip:
  "(hex_decode (hex_encode data) limit = (if length data \<le> limit then Inr data else Inl OutputLength)) \<and>
   (case hex_decode input limit of Inl _ \<Rightarrow> True | Inr out \<Rightarrow> length out * 2 = length input \<and> length out \<le> limit)"
proof -
  have "hex_decode (hex_encode data) limit = (if length data \<le> limit then Inr data else Inl OutputLength)"
    by (simp add: hex_decode_def hex_decode_into_def hex_encode_length hex_pairs_encode Let_def)
  moreover have "length out * 2 = length input \<and> length out \<le> limit" if "hex_decode input limit = Inr out" for out
  proof -
    have e: "even (length input)" "hex_pairs input = Inr out" "length input div 2 \<le> limit"
      using that by (auto simp: hex_decode_def hex_decode_into_def Let_def even_iff_mod_2_eq_zero split: if_splits)
    from hex_pairs_length [OF e(2,1)] e(3) show ?thesis by simp
  qed
  ultimately show ?thesis by (simp split: sum.split)
qed

section \<open>Base64 is canonical\<close>

text \<open>The padding of a length, and the text without it.\<close>

definition pad_count :: "nat \<Rightarrow> nat" where
  "pad_count n = (if n mod 3 = 0 then 0 else 3 - n mod 3)"

definition pad_bytes :: "padding \<Rightarrow> nat \<Rightarrow> byte list" where
  "pad_bytes p n = (if p = PadRequired then replicate (pad_count n) pad_char else [])"

lemma encode_split:
  "base64_encode data a p = base64_encode data a PadForbidden @ pad_bytes p (length data)"
proof (induction data a p rule: base64_encode.induct)
  case (4 b0 b1 b2 rest a p)
  have "length (b0 # b1 # b2 # rest) = length rest + 3" by simp
  then have "pad_bytes p (length (b0 # b1 # b2 # rest)) = pad_bytes p (length rest)"
    by (simp only: pad_bytes_def pad_count_def mod_add_self2)
  with 4 show ?case by simp
qed (simp_all add: pad_if_def pad_bytes_def pad_count_def numeral_2_eq_2)

lemma encode_no_pad: "pad_char \<notin> set (base64_encode data a PadForbidden)"
  by (induction data a PadForbidden rule: base64_encode.induct)
    (use symbol_value_char(2) [symmetric] in \<open>auto simp: pad_if_def\<close>)

lemma encode_groups: "base64_groups a (base64_encode data a PadForbidden) = Inr data"
proof (induction data a PadForbidden rule: base64_encode.induct)
  case (2 b0 a)
  show ?case using group_join(1) [of b0 0] tail_zero(1) [of b0] by (simp add: pad_if_def symbol_value_char)
next
  case (3 b0 b1 a)
  show ?case using group_join(1,2) [of b0 b1] group_join(2) [of b0 b1 0] tail_zero(2) [of b1]
    by (simp add: pad_if_def symbol_value_char)
next
  case (4 b0 b1 b2 rest a)
  then show ?case by (simp add: symbol_value_char group_join)
qed simp

lemma encode_length:
  "length (base64_encode data a PadForbidden) = length data div 3 * 4 + (if length data mod 3 = 0 then 0 else length data mod 3 + 1)"
proof (induction data a PadForbidden rule: base64_encode.induct)
  case (4 b0 b1 b2 rest a)
  have "length (b0 # b1 # b2 # rest) = length rest + 3" by simp
  then have "length (b0 # b1 # b2 # rest) div 3 = Suc (length rest div 3)" "length (b0 # b1 # b2 # rest) mod 3 = length rest mod 3"
    by simp_all
  with 4 show ?case by (simp only: base64_encode.simps length_append) simp
qed (simp_all add: pad_if_def)

lemma groups_encode:
  "base64_groups a body = Inr out \<Longrightarrow> base64_encode out a PadForbidden = body"
proof (induction a body arbitrary: out rule: base64_groups.induct)
  case (3 a c0 c1)
  then obtain v0 v1 where v: "symbol_value c0 a = Some v0" "symbol_value c1 a = Some v1" "v1 AND 0x0f = 0" "out = [oct0 v0 v1]"
    by (auto split: option.splits if_splits)
  note s = symbol_char_value [OF v(1)] symbol_char_value [OF v(2)]
  show ?case using group_split(1) [of v0 v1 v1 v1] tail_split(1) [of v0 v1 v1] s v(3,4) by (simp add: pad_if_def)
next
  case (4 a c0 c1 c2)
  then obtain v0 v1 v2 where v: "symbol_value c0 a = Some v0" "symbol_value c1 a = Some v1" "symbol_value c2 a = Some v2"
    "v2 AND 0x03 = 0" "out = [oct0 v0 v1, oct1 v1 v2]"
    by (auto split: option.splits if_splits)
  note s = symbol_char_value [OF v(1)] symbol_char_value [OF v(2)] symbol_char_value [OF v(3)]
  show ?case using group_split(1,2) [of v0 v1 v2 v2] tail_split(2) [of v0 v1 v2] s v(4,5) by (simp add: pad_if_def)
next
  case (5 a c0 c1 c2 c3 rest)
  then obtain v0 v1 v2 v3 r where v: "symbol_value c0 a = Some v0" "symbol_value c1 a = Some v1" "symbol_value c2 a = Some v2"
    "symbol_value c3 a = Some v3" "base64_groups a rest = Inr r" "out = [oct0 v0 v1, oct1 v1 v2, oct2 v2 v3] @ r"
    by (auto split: option.splits sum.splits)
  note s = symbol_char_value [OF v(1)] symbol_char_value [OF v(2)] symbol_char_value [OF v(3)] symbol_char_value [OF v(4)]
  have "base64_encode r a PadForbidden = rest" using 5 v by simp
  moreover have "symbol_char (oct2 v2 v3) a = c3"
    using symbol_char_masked [of "oct2 v2 v3" a] group_split(4) [of v0 v1 v2 v3] s by simp
  ultimately show ?case using group_split(1-3) [of v0 v1 v2 v3] s v(6) by simp
qed auto

lemma tail_arith:
  fixes k p :: nat
  shows "p \<le> 2 \<Longrightarrow> (4 * k + p) mod 4 = 0 \<longleftrightarrow> p = 0"
    "p \<le> 2 \<Longrightarrow> (4 * k + 2 + p) mod 4 = 0 \<longleftrightarrow> p = 2"
    "p \<le> 2 \<Longrightarrow> (4 * k + 3 + p) mod 4 = 0 \<longleftrightarrow> p = 1"
  by presburger+

lemma base64_length:
  obtains k r where "r < 3" "length data = 3 * k + r" "length data mod 3 = r"
    "length (base64_encode data a PadForbidden) = 4 * k + (if r = 0 then 0 else r + 1)"
proof -
  have "length data = 3 * (length data div 3) + length data mod 3" by simp
  then show ?thesis using that [of "length data mod 3" "length data div 3"] encode_length [of data a] by simp
qed

lemma base64_mods:
  "(4 * k + 2) mod 4 = (2 :: nat)" "(4 * k + 3) mod 4 = (3 :: nat)" "(4 * k) mod 4 = (0 :: nat)"
  "(4 * k + 2) div 4 = k" "(4 * k + 3) div 4 = k" "(4 * k) div 4 = k"
  by presburger+

lemma out_len_encoded:
  "base64_out_len (length (base64_encode data a PadForbidden)) = length data"
  "length (base64_encode data a PadForbidden) mod 4 \<noteq> 1"
  "(length (base64_encode data a PadForbidden) + pad_count (length data)) mod 4 = 0" "pad_count (length data) \<le> 2"
  "p \<le> 2 \<Longrightarrow> (length (base64_encode data a PadForbidden) + p) mod 4 = 0 \<Longrightarrow> p = pad_count (length data)"
proof -
  obtain k r where l: "r < 3" "length data = 3 * k + r" "length data mod 3 = r"
    "length (base64_encode data a PadForbidden) = 4 * k + (if r = 0 then 0 else r + 1)" by (rule base64_length)
  define n where "n = length (base64_encode data a PadForbidden)"
  consider "n = 4 * k" "length data = 3 * k" "pad_count (length data) = 0"
    | "n = 4 * k + 2" "length data = 3 * k + 1" "pad_count (length data) = 2"
    | "n = 4 * k + 3" "length data = 3 * k + 2" "pad_count (length data) = 1"
    using l by (cases "r = 0"; cases "r = 1") (auto simp: n_def pad_count_def)
  note cs = this
  show "base64_out_len (length (base64_encode data a PadForbidden)) = length data"
    unfolding n_def [symmetric] base64_out_len_def by (rule cs) (simp_all only: base64_mods, simp_all)
  show "length (base64_encode data a PadForbidden) mod 4 \<noteq> 1"
    unfolding n_def [symmetric] by (rule cs) presburger+
  show "(length (base64_encode data a PadForbidden) + pad_count (length data)) mod 4 = 0"
    unfolding n_def [symmetric] by (rule cs; presburger)
  show "pad_count (length data) \<le> 2" by (rule cs) simp_all
  show "p = pad_count (length data)" if "p \<le> 2" "(length (base64_encode data a PadForbidden) + p) mod 4 = 0"
    using that unfolding n_def [symmetric] by (rule_tac cs) (simp_all only: tail_arith)
qed

lemma body_encoded: "base64_body (base64_encode data a p) p = Inr (base64_encode data a PadForbidden)"
proof (cases p)
  case PadForbidden
  then show ?thesis using encode_no_pad by (simp add: base64_body_def)
next
  case PadRequired
  let ?b = "base64_encode data a PadForbidden" and ?k = "pad_count (length data)"
  have e: "base64_encode data a p = ?b @ replicate ?k pad_char"
    using encode_split [of data a p] PadRequired by (simp add: pad_bytes_def)
  have "takeWhile (\<lambda>c. c = pad_char) (rev ?b) = []"
  proof (cases "rev ?b")
    case (Cons c cs)
    then have "c \<in> set ?b" by (metis list.set_intros(1) set_rev)
    then have "c \<noteq> pad_char" using encode_no_pad [of data a] by blast
    with Cons show ?thesis by simp
  qed simp
  then have "takeWhile (\<lambda>c. c = pad_char) (rev (?b @ replicate ?k pad_char)) = replicate ?k pad_char"
    by (simp add: takeWhile_append)
  moreover have "length (?b @ replicate ?k pad_char) mod 4 = 0" using out_len_encoded(3) [of data a] by simp
  ultimately have "base64_body (?b @ replicate ?k pad_char) PadRequired = Inr ?b"
    using encode_no_pad [of data a] out_len_encoded(4) [of data] by (simp add: base64_body_def Let_def)
  then show ?thesis using e PadRequired by simp
qed

lemma body_padding:
  assumes "base64_body input p = Inr (base64_encode out a PadForbidden)"
  shows "input = base64_encode out a p"
proof (cases p)
  case PadForbidden
  with assms show ?thesis by (simp add: base64_body_def split: if_splits)
next
  case PadRequired
  define b where "b = base64_encode out a PadForbidden"
  define w where "w = takeWhile (\<lambda>c. c = pad_char) (rev input)"
  have f: "length input mod 4 = 0" "length w \<le> 2" "take (length input - length w) input = b"
    using assms PadRequired by (auto simp: base64_body_def Let_def b_def w_def split: if_splits)
  have "w = replicate (length w) pad_char"
    unfolding w_def by (intro replicate_length_same [symmetric]) (auto dest: set_takeWhileD)
  moreover have r: "rev input = w @ drop (length w) (rev input)" unfolding w_def by (metis takeWhile_dropWhile_id dropWhile_eq_drop)
  ultimately have "rev input = replicate (length w) pad_char @ drop (length w) (rev input)" by metis
  then have "input = rev (drop (length w) (rev input)) @ replicate (length w) pad_char"
    by (metis rev_append rev_replicate rev_rev_ident)
  moreover have "rev (drop (length w) (rev input)) = b" using f(3) by (simp add: rev_drop)
  ultimately have i: "input = b @ replicate (length w) pad_char" by simp
  have "length input = length b + length w" by (subst i) simp
  then have "length w = pad_count (length out)" using out_len_encoded(5) [OF f(2), of out a] f(1) by (simp add: b_def)
  then show ?thesis using encode_split [of out a p] PadRequired i by (simp add: pad_bytes_def b_def)
qed

text \<open>
  Base64 is decoded strictly. Decoding an encoding gives the bytes back, whichever alphabet and padding and
  within the caller's bound; and every text that decodes is the one canonical encoding of its bytes, so no two
  different texts are accepted for the same credential, token or signature.
\<close>

theorem base64_canonical:
  "base64_decode (base64_encode data a p) a p limit = (if length data \<le> limit then Inr data else Inl B64TooLong) \<and>
   (base64_decode input a p limit = Inr out \<longleftrightarrow> input = base64_encode out a p \<and> length out \<le> limit)"
proof -
  have rt: "base64_decode (base64_encode d a p) a p limit = (if length d \<le> limit then Inr d else Inl B64TooLong)" for d
    using out_len_encoded(2) [of d a] by (simp add: base64_decode_def body_encoded out_len_encoded(1) encode_groups)
  have "input = base64_encode out a p \<and> length out \<le> limit" if "base64_decode input a p limit = Inr out"
  proof -
    from that obtain body where b: "base64_body input p = Inr body" "base64_groups a body = Inr out"
      by (auto simp: base64_decode_def split: sum.splits if_splits)
    have "base64_encode out a PadForbidden = body" using groups_encode [OF b(2)] .
    then have i: "input = base64_encode out a p" using body_padding b(1) by simp
    then show ?thesis using that rt [of out] by (simp split: if_splits)
  qed
  then show ?thesis using rt by auto
qed

end
