(* ===== verification/Frame.thy ===== *)
theory Frame
  imports Digest
begin

unbundle bit_operations_syntax

text \<open>
  The frame format of the durable store (\<open>hypellm-store/src/frame.rs\<close>): record kinds, encoding with checksum
  and authentication code, and decoding of bytes from disk. Integers of the header are natural numbers below the
  width of their field.
\<close>

section \<open>Record kinds\<close>

definition MAGIC :: "byte list" where "MAGIC = [0x48, 0x59, 0x50, 0x45]"
definition FORMAT_VERSION :: nat where "FORMAT_VERSION = 1"
definition HEADER_LEN :: nat where "HEADER_LEN = 24"
definition CRC_LEN :: nat where "CRC_LEN = 4"
definition MAC_LEN :: nat where "MAC_LEN = 32"
definition MAX_PAYLOAD_LEN :: nat where "MAX_PAYLOAD_LEN = 64 * 1024 * 1024"
definition FLAG_PROTECTED :: nat where "FLAG_PROTECTED = 1"

lemmas frame_lens = HEADER_LEN_def CRC_LEN_def MAC_LEN_def MAX_PAYLOAD_LEN_def

datatype record_kind =
    ConfigActivation | AuditEvent | AuditCheckpoint | ApiKey | ApiKeyRevocation | CredentialMeta
  | UsageAggregate | Session | SnapshotMarker | PolicyDraft | PolicyDraftClosed | FleetLease
  | FleetActivation | FleetFlap | AnonymousAccess | KeyBudget | FleetEnrollment | ArtifactChecksum
  | ApiKeyExpiry | ApiKeyRestriction | UnknownKind nat

fun as_u16 :: "record_kind \<Rightarrow> nat" where
  "as_u16 ConfigActivation = 1"
| "as_u16 AuditEvent = 2"
| "as_u16 AuditCheckpoint = 3"
| "as_u16 ApiKey = 4"
| "as_u16 ApiKeyRevocation = 5"
| "as_u16 CredentialMeta = 6"
| "as_u16 UsageAggregate = 7"
| "as_u16 Session = 8"
| "as_u16 SnapshotMarker = 9"
| "as_u16 PolicyDraft = 10"
| "as_u16 PolicyDraftClosed = 11"
| "as_u16 FleetLease = 12"
| "as_u16 FleetActivation = 13"
| "as_u16 FleetFlap = 14"
| "as_u16 AnonymousAccess = 15"
| "as_u16 KeyBudget = 16"
| "as_u16 FleetEnrollment = 17"
| "as_u16 ArtifactChecksum = 18"
| "as_u16 ApiKeyExpiry = 19"
| "as_u16 ApiKeyRestriction = 20"
| "as_u16 (UnknownKind v) = v"

definition all_kinds :: "record_kind list" where
  "all_kinds = [ConfigActivation, AuditEvent, AuditCheckpoint, ApiKey, ApiKeyRevocation, CredentialMeta,
     UsageAggregate, Session, SnapshotMarker, PolicyDraft, PolicyDraftClosed, FleetLease, FleetActivation,
     FleetFlap, AnonymousAccess, KeyBudget, FleetEnrollment, ArtifactChecksum, ApiKeyExpiry, ApiKeyRestriction]"

definition from_u16 :: "nat \<Rightarrow> record_kind" where
  "from_u16 v =
     (if v = 1 then ConfigActivation else if v = 2 then AuditEvent else if v = 3 then AuditCheckpoint
      else if v = 4 then ApiKey else if v = 5 then ApiKeyRevocation else if v = 6 then CredentialMeta
      else if v = 7 then UsageAggregate else if v = 8 then Session else if v = 9 then SnapshotMarker
      else if v = 10 then PolicyDraft else if v = 11 then PolicyDraftClosed else if v = 12 then FleetLease
      else if v = 13 then FleetActivation else if v = 14 then FleetFlap else if v = 15 then AnonymousAccess
      else if v = 16 then KeyBudget else if v = 17 then FleetEnrollment else if v = 18 then ArtifactChecksum
      else if v = 19 then ApiKeyExpiry else if v = 20 then ApiKeyRestriction else UnknownKind v)"

fun is_protected :: "record_kind \<Rightarrow> bool" where
  "is_protected UsageAggregate = False"
| "is_protected SnapshotMarker = False"
| "is_protected FleetActivation = False"
| "is_protected (UnknownKind _) = False"
| "is_protected _ = True"

fun kind_as_str :: "record_kind \<Rightarrow> string" where
  "kind_as_str ConfigActivation = ''config_activation''"
| "kind_as_str AuditEvent = ''audit_event''"
| "kind_as_str AuditCheckpoint = ''audit_checkpoint''"
| "kind_as_str ApiKey = ''api_key''"
| "kind_as_str ApiKeyRevocation = ''api_key_revocation''"
| "kind_as_str CredentialMeta = ''credential_meta''"
| "kind_as_str UsageAggregate = ''usage_aggregate''"
| "kind_as_str Session = ''session''"
| "kind_as_str SnapshotMarker = ''snapshot_marker''"
| "kind_as_str PolicyDraft = ''policy_draft''"
| "kind_as_str PolicyDraftClosed = ''policy_draft_closed''"
| "kind_as_str FleetLease = ''fleet_lease''"
| "kind_as_str FleetActivation = ''fleet_activation''"
| "kind_as_str FleetFlap = ''fleet_flap''"
| "kind_as_str AnonymousAccess = ''anonymous_access''"
| "kind_as_str KeyBudget = ''key_budget''"
| "kind_as_str FleetEnrollment = ''fleet_enrollment''"
| "kind_as_str ArtifactChecksum = ''artifact_checksum''"
| "kind_as_str ApiKeyExpiry = ''api_key_expiry''"
| "kind_as_str ApiKeyRestriction = ''api_key_restriction''"
| "kind_as_str (UnknownKind _) = ''unknown''"

text \<open>The kinds that exist: every named one, and unknown ones only with a number that has no name.\<close>

definition kind_ok :: "record_kind \<Rightarrow> bool" where
  "kind_ok k \<longleftrightarrow> from_u16 (as_u16 k) = k \<and> as_u16 k < 2 ^ 16"

section \<open>Frames\<close>

record frame =
  fr_kind :: record_kind
  fr_sequence :: nat
  fr_payload :: "byte list"
  fr_protected :: bool

datatype frame_error =
    Incomplete | BadMagic | UnsupportedVersion nat | PayloadTooLarge
  | ChecksumMismatch | MacMismatch | MissingMac | UnexpectedMac

definition is_integrity_violation :: "frame_error \<Rightarrow> bool" where
  "is_integrity_violation e = (e = MacMismatch \<or> e = MissingMac \<or> e = UnexpectedMac)"

definition is_recoverable_tail :: "frame_error \<Rightarrow> bool" where
  "is_recoverable_tail e = (e = Incomplete \<or> e = ChecksumMismatch)"

fun frame_error_code :: "frame_error \<Rightarrow> string" where
  "frame_error_code Incomplete = ''incomplete_frame''"
| "frame_error_code BadMagic = ''bad_magic''"
| "frame_error_code (UnsupportedVersion _) = ''unsupported_format_version''"
| "frame_error_code PayloadTooLarge = ''payload_too_large''"
| "frame_error_code ChecksumMismatch = ''checksum_mismatch''"
| "frame_error_code MacMismatch = ''mac_mismatch''"
| "frame_error_code MissingMac = ''missing_mac''"
| "frame_error_code UnexpectedMac = ''unexpected_mac''"

definition frame_header :: "record_kind \<Rightarrow> nat \<Rightarrow> nat \<Rightarrow> byte list" where
  "frame_header kind sequence len =
     MAGIC @ le_bytes 2 FORMAT_VERSION @ le_bytes 2 (as_u16 kind) @
     le_bytes 2 (if is_protected kind then FLAG_PROTECTED else 0) @ le_bytes 2 0 @
     le_bytes 8 sequence @ le_bytes 4 len"

definition frame_encode :: "record_kind \<Rightarrow> nat \<Rightarrow> byte list \<Rightarrow> byte list \<Rightarrow> frame_error + byte list" where
  "frame_encode kind sequence payload mac_key =
     (if length payload > MAX_PAYLOAD_LEN then Inl PayloadTooLarge
      else if length payload > u32_max then Inl PayloadTooLarge
      else (let out = frame_header kind sequence (length payload) @ payload;
                out = out @ le_bytes 4 (unat (crc32 out))
            in Inr (if is_protected kind then out @ hmac_sha256 mac_key out else out)))"

record decoded_frame =
  df_frame :: frame
  df_length :: nat

definition field :: "nat \<Rightarrow> nat \<Rightarrow> byte list \<Rightarrow> nat" where
  "field off n buf = le_value (take n (drop off buf))"

definition frame_decode :: "byte list \<Rightarrow> byte list \<Rightarrow> frame_error + decoded_frame" where
  "frame_decode buf mac_key =
     (if length buf < HEADER_LEN then Inl Incomplete
      else if take 4 buf \<noteq> MAGIC then Inl BadMagic
      else let version = field 4 2 buf in
        if version \<noteq> FORMAT_VERSION then Inl (UnsupportedVersion version)
        else let kind = from_u16 (field 6 2 buf);
                 flags = field 8 2 buf;
                 protected = (flags AND FLAG_PROTECTED \<noteq> 0);
                 sequence = field 12 8 buf;
                 len = field 20 4 buf in
        if len > MAX_PAYLOAD_LEN then Inl PayloadTooLarge
        else if is_protected kind \<noteq> protected
             then Inl (if is_protected kind then MissingMac else UnexpectedMac)
        else let crc_end = HEADER_LEN + len + CRC_LEN;
                 total_len = crc_end + (if protected then MAC_LEN else 0) in
        if length buf < total_len then Inl Incomplete
        else let framed = take total_len buf;
                 crc_covered = take crc_end framed;
                 stored_mac = drop crc_end framed;
                 body = take (HEADER_LEN + len) crc_covered;
                 stored_crc = drop (HEADER_LEN + len) crc_covered;
                 payload = drop HEADER_LEN body in
        if unat (crc32 body) \<noteq> le_value stored_crc then Inl ChecksumMismatch
        else if protected \<and> \<not> ct_eq (hmac_sha256 mac_key crc_covered) stored_mac then Inl MacMismatch
        else Inr \<lparr>df_frame = \<lparr>fr_kind = kind, fr_sequence = sequence, fr_payload = payload,
                              fr_protected = protected\<rparr>,
                  df_length = total_len\<rparr>)"

section \<open>Decoding reads a prefix\<close>

lemma field_append: "off + n \<le> length buf \<Longrightarrow> field off n (buf @ zs) = field off n buf"
  by (simp add: field_def)

lemma field_at: "length xs = off \<Longrightarrow> field off n (xs @ le_bytes n v @ ys) = v mod 256 ^ n"
  by (simp add: field_def le_value_bytes)

lemma field_take: "off + n \<le> k \<Longrightarrow> field off n (take k buf) = field off n buf"
  by (simp add: field_def drop_take min_def)

text \<open>Decoding never changes its mind when more bytes arrive, and needs at most one maximal frame.\<close>

lemma decode_extend:
  assumes "frame_decode buf key \<noteq> Inl Incomplete"
  shows "frame_decode (buf @ zs) key = frame_decode buf key"
proof -
  have l: "HEADER_LEN \<le> length buf" using assms by (auto simp: frame_decode_def split: if_splits)
  then have f: "field 4 2 (buf @ zs) = field 4 2 buf" "field 6 2 (buf @ zs) = field 6 2 buf"
    "field 8 2 (buf @ zs) = field 8 2 buf" "field 12 8 (buf @ zs) = field 12 8 buf"
    "field 20 4 (buf @ zs) = field 20 4 buf" "take 4 (buf @ zs) = take 4 buf"
    by (simp_all add: field_append HEADER_LEN_def)
  show ?thesis using assms l unfolding frame_decode_def f by (simp add: Let_def split: if_splits)
qed

definition MAX_FRAME_BYTES :: nat where
  "MAX_FRAME_BYTES = HEADER_LEN + MAX_PAYLOAD_LEN + CRC_LEN + MAC_LEN"

lemma decode_complete: "MAX_FRAME_BYTES \<le> length buf \<Longrightarrow> frame_decode buf key \<noteq> Inl Incomplete"
  by (auto simp: frame_decode_def MAX_FRAME_BYTES_def frame_lens Let_def)

lemma decode_length: "frame_decode buf key = Inr d \<Longrightarrow> 28 \<le> df_length d \<and> df_length d \<le> length buf"
  by (auto simp: frame_decode_def frame_lens Let_def split: if_splits)

lemma decode_magic: "frame_decode buf key = Inr d \<Longrightarrow> take 4 buf = MAGIC"
  by (auto simp: frame_decode_def split: if_splits)

section \<open>Round trip\<close>

lemma frame_header_length [simp]: "length (frame_header k s n) = 24"
  by (simp add: frame_header_def MAGIC_def)

lemma header_fields:
  fixes ys :: "byte list"
  shows "take 4 (frame_header k s n @ ys) = MAGIC"
    and "field 4 2 (frame_header k s n @ ys) = FORMAT_VERSION"
    and "field 6 2 (frame_header k s n @ ys) = as_u16 k mod 2 ^ 16"
    and "field 8 2 (frame_header k s n @ ys) = (if is_protected k then FLAG_PROTECTED else 0)"
    and "field 12 8 (frame_header k s n @ ys) = s mod 2 ^ 64"
    and "field 20 4 (frame_header k s n @ ys) = n mod 2 ^ 32"
proof -
  have m: "length MAGIC = 4" by (simp add: MAGIC_def)
  let ?v = "le_bytes 2 FORMAT_VERSION" and ?k = "le_bytes 2 (as_u16 k)"
  let ?f = "le_bytes 2 (if is_protected k then FLAG_PROTECTED else 0)" and ?r = "le_bytes 2 0"
  let ?s = "le_bytes 8 s" and ?n = "le_bytes 4 n"
  have h: "frame_header k s n @ ys = MAGIC @ ?v @ ?k @ ?f @ ?r @ ?s @ ?n @ ys" by (simp add: frame_header_def)
  show "take 4 (frame_header k s n @ ys) = MAGIC" unfolding h by (simp add: m)
  show "field 4 2 (frame_header k s n @ ys) = FORMAT_VERSION"
    unfolding h using field_at [of MAGIC 4 2 FORMAT_VERSION] m by (simp add: FORMAT_VERSION_def)
  show "field 6 2 (frame_header k s n @ ys) = as_u16 k mod 2 ^ 16"
    unfolding h using field_at [of "MAGIC @ ?v" 6 2 "as_u16 k"] m by simp
  show "field 8 2 (frame_header k s n @ ys) = (if is_protected k then FLAG_PROTECTED else 0)"
    unfolding h using field_at [of "MAGIC @ ?v @ ?k" 8 2 "if is_protected k then FLAG_PROTECTED else 0"] m
    by (simp add: FLAG_PROTECTED_def)
  show "field 12 8 (frame_header k s n @ ys) = s mod 2 ^ 64"
    unfolding h using field_at [of "MAGIC @ ?v @ ?k @ ?f @ ?r" 12 8 s] m by simp
  show "field 20 4 (frame_header k s n @ ys) = n mod 2 ^ 32"
    unfolding h using field_at [of "MAGIC @ ?v @ ?k @ ?f @ ?r @ ?s" 20 4 n] m by simp
qed

lemma finalize_length: "length (sha256_finalize s) = 32"
  by (simp add: sha256_finalize_def compress_def Let_def length_concat split: prod.split)

lemma hmac_length [simp]: "length (hmac_sha256 key msg) = 32"
  by (simp add: hmac_sha256_def hmac_finalize_def finalize_length Let_def)

lemma crc_value: "le_value (le_bytes 4 (unat (w :: 32 word))) = unat w"
  using unsigned_less [of w, where 'a = nat] by (simp add: le_value_bytes)

text \<open>What decoding makes of a header, a payload, a checksum field and a trailer, whatever the last two are.\<close>

lemma decode_built:
  assumes "kind_ok k" "s < 2 ^ 64" "length payload \<le> MAX_PAYLOAD_LEN" "length crc = 4"
    "length mac = (if is_protected k then 32 else 0)"
  shows "frame_decode (frame_header k s (length payload) @ payload @ crc @ mac @ zs) key =
    (let body = frame_header k s (length payload) @ payload in
     if unat (crc32 body) \<noteq> le_value crc then Inl ChecksumMismatch
     else if is_protected k \<and> hmac_sha256 key (body @ crc) \<noteq> mac then Inl MacMismatch
     else Inr \<lparr>df_frame = \<lparr>fr_kind = k, fr_sequence = s, fr_payload = payload, fr_protected = is_protected k\<rparr>,
               df_length = 28 + length payload + (if is_protected k then 32 else 0)\<rparr>)"
proof -
  let ?h = "frame_header k s (length payload)"
  have f: "as_u16 k mod 2 ^ 16 = as_u16 k" "from_u16 (as_u16 k) = k" "s mod 2 ^ 64 = s" "length payload mod 2 ^ 32 = length payload"
    using assms(1-3) by (simp_all add: kind_ok_def MAX_PAYLOAD_LEN_def)
  have fl: "((if is_protected k then FLAG_PROTECTED else 0) AND FLAG_PROTECTED \<noteq> 0) = is_protected k"
    by (simp add: FLAG_PROTECTED_def)
  show ?thesis
    unfolding frame_decode_def header_fields f fl Let_def
    using assms(3-5) by (auto simp: frame_lens ct_eq_iff)
qed

definition encoded :: "record_kind \<Rightarrow> nat \<Rightarrow> byte list \<Rightarrow> byte list \<Rightarrow> byte list" where
  "encoded k s payload key =
     (let body = frame_header k s (length payload) @ payload; crc = le_bytes 4 (unat (crc32 body))
      in body @ crc @ (if is_protected k then hmac_sha256 key (body @ crc) else []))"

lemma frame_encode_eq:
  "frame_encode k s payload key =
     (if length payload > MAX_PAYLOAD_LEN then Inl PayloadTooLarge else Inr (encoded k s payload key))"
  by (simp add: frame_encode_def encoded_def MAX_PAYLOAD_LEN_def u32_max_def Let_def)

lemma encoded_length: "length (encoded k s payload key) = 28 + length payload + (if is_protected k then 32 else 0)"
  by (simp add: encoded_def Let_def)

lemma decode_encoded:
  assumes "kind_ok k" "s < 2 ^ 64" "length payload \<le> MAX_PAYLOAD_LEN"
  shows "frame_decode (encoded k s payload key @ zs) key =
    Inr \<lparr>df_frame = \<lparr>fr_kind = k, fr_sequence = s, fr_payload = payload, fr_protected = is_protected k\<rparr>,
         df_length = length (encoded k s payload key)\<rparr>"
  using decode_built [OF assms, of "le_bytes 4 (unat (crc32 (frame_header k s (length payload) @ payload)))"
      "if is_protected k then hmac_sha256 key ((frame_header k s (length payload) @ payload) @
         le_bytes 4 (unat (crc32 (frame_header k s (length payload) @ payload)))) else []" zs key]
  by (simp add: encoded_def crc_value Let_def)

lemma decode_torn:
  assumes "kind_ok k" "s < 2 ^ 64" "length payload \<le> MAX_PAYLOAD_LEN" "n < length (encoded k s payload key)"
  shows "frame_decode (take n (encoded k s payload key)) key = Inl Incomplete"
proof (rule ccontr)
  let ?e = "encoded k s payload key"
  assume ne: "frame_decode (take n ?e) key \<noteq> Inl Incomplete"
  have "frame_decode (take n ?e) key = frame_decode (take n ?e @ drop n ?e) key" using decode_extend [OF ne, of "drop n ?e"] by (rule sym)
  then have d: "frame_decode (take n ?e) key = frame_decode (?e @ []) key" by simp
  show False using decode_length [OF d [unfolded decode_encoded [OF assms(1-3)]]] assms(4) by simp
qed

text \<open>
  C16: frames round-trip and a torn frame is recognised. A record is refused exactly when it is larger than a
  frame may be; otherwise decoding its frame, with anything after it, gives back the kind, sequence, payload and
  length, and decoding any proper prefix of the frame reports it as incomplete and nothing else.
\<close>

theorem frame_roundtrip:
  assumes "kind_ok k" "s < 2 ^ 64"
  shows "(length payload > MAX_PAYLOAD_LEN \<longrightarrow> frame_encode k s payload key = Inl PayloadTooLarge) \<and>
    (length payload \<le> MAX_PAYLOAD_LEN \<longrightarrow> (\<exists>bytes. frame_encode k s payload key = Inr bytes \<and>
       (\<forall>zs. frame_decode (bytes @ zs) key =
          Inr \<lparr>df_frame = \<lparr>fr_kind = k, fr_sequence = s, fr_payload = payload, fr_protected = is_protected k\<rparr>,
               df_length = length bytes\<rparr>) \<and>
       (\<forall>n. n < length bytes \<longrightarrow> frame_decode (take n bytes) key = Inl Incomplete)))"
  using decode_encoded [OF assms] decode_torn [OF assms] by (auto simp: frame_encode_eq)

theorem frame_roundtrip_witness:
  "\<exists>bytes. frame_encode AuditEvent 7 [1, 2] [9] = Inr bytes \<and> frame_decode (take 5 bytes) [9] = Inl Incomplete"
proof -
  have "kind_ok AuditEvent" by (simp add: kind_ok_def from_u16_def)
  from frame_roundtrip [OF this, of 7 "[1, 2]" "[9]"] obtain bytes where
    b: "frame_encode AuditEvent 7 [1, 2] [9] = Inr bytes" "\<forall>n. n < length bytes \<longrightarrow> frame_decode (take n bytes) [9] = Inl Incomplete"
    by (auto simp: MAX_PAYLOAD_LEN_def)
  then have "bytes = encoded AuditEvent 7 [1, 2] [9]" by (simp add: frame_encode_eq split: if_splits)
  then show ?thesis using b by (auto simp: encoded_length)
qed

section \<open>Damage and forgery\<close>

text \<open>
  C17: damage to a stored record is detected. Changing any one byte of the payload of a frame makes decoding
  report a checksum mismatch; changing anything in the authentication code of a protected record, all else
  intact, makes it report tampering.
\<close>

theorem frame_damage_detected:
  assumes "kind_ok k" "s < 2 ^ 64" "length (p1 @ [a] @ p2) \<le> MAX_PAYLOAD_LEN" "a \<noteq> b"
    "length mac = (if is_protected k then 32 else 0)"
  shows "frame_decode (frame_header k s (length (p1 @ [a] @ p2)) @ (p1 @ [b] @ p2) @
       le_bytes 4 (unat (crc32 (frame_header k s (length (p1 @ [a] @ p2)) @ p1 @ [a] @ p2))) @ mac @ zs) key = Inl ChecksumMismatch \<and>
    (is_protected k \<and> mac \<noteq> drop (28 + length (p1 @ [a] @ p2)) (encoded k s (p1 @ [a] @ p2) key) \<longrightarrow>
       frame_decode (take (28 + length (p1 @ [a] @ p2)) (encoded k s (p1 @ [a] @ p2) key) @ mac @ zs) key = Inl MacMismatch)"
proof
  let ?p = "p1 @ [a] @ p2" and ?q = "p1 @ [b] @ p2"
  let ?h = "frame_header k s (length ?p)"
  let ?crc = "le_bytes 4 (unat (crc32 (?h @ ?p)))"
  have len: "length ?q = length ?p" by simp
  have "crc32 (?h @ ?q) \<noteq> crc32 (?h @ ?p)"
    using crc_one_byte [of "?h @ p1" a p2 b] assms(4) by auto
  then have ne: "unat (crc32 (?h @ ?q)) \<noteq> le_value ?crc" by (simp only: crc_value word_unat_eq_iff simp_thms)
  have q: "length ?q \<le> MAX_PAYLOAD_LEN" "length ?crc = 4" using assms(3) by simp_all
  have "frame_decode (frame_header k s (length ?q) @ ?q @ ?crc @ mac @ zs) key = Inl ChecksumMismatch"
    by (subst decode_built [OF assms(1,2) q(1) q(2) assms(5)]) (use ne in \<open>simp only: Let_def len if_True simp_thms\<close>)
  then show "frame_decode (?h @ ?q @ ?crc @ mac @ zs) key = Inl ChecksumMismatch" unfolding len .
  show "is_protected k \<and> mac \<noteq> drop (28 + length ?p) (encoded k s ?p key) \<longrightarrow>
       frame_decode (take (28 + length ?p) (encoded k s ?p key) @ mac @ zs) key = Inl MacMismatch"
  proof
    assume pr: "is_protected k \<and> mac \<noteq> drop (28 + length ?p) (encoded k s ?p key)"
    have e: "encoded k s ?p key = (?h @ ?p @ ?crc) @ hmac_sha256 key ((?h @ ?p) @ ?crc)"
      using pr by (simp add: encoded_def Let_def)
    have l: "length (?h @ ?p @ ?crc) = 28 + length ?p" by simp
    have cut: "take n (X @ Y) = X" "drop n (X @ Y) = Y" if "length X = n" for n and X Y :: "byte list" using that by auto
    have t: "take (28 + length ?p) (encoded k s ?p key) = ?h @ ?p @ ?crc"
      and d: "drop (28 + length ?p) (encoded k s ?p key) = hmac_sha256 key ((?h @ ?p) @ ?crc)"
      unfolding e by (rule cut [OF l])+
    show "frame_decode (take (28 + length ?p) (encoded k s ?p key) @ mac @ zs) key = Inl MacMismatch"
      using decode_built [OF assms(1-3) q(2) assms(5), of zs key] pr unfolding t d Let_def
      by (auto simp: crc_value)
  qed
qed

theorem frame_damage_detected_witness:
  "frame_decode (frame_header UsageAggregate 3 2 @ [8, 7] @ le_bytes 4 (unat (crc32 (frame_header UsageAggregate 3 2 @ [9, 7])))) [] =
     Inl ChecksumMismatch"
proof -
  have "kind_ok UsageAggregate" by (simp add: kind_ok_def from_u16_def)
  from frame_damage_detected [OF this, of 3 "[]" 9 "[7]" 8 "[]" "[]" "[]"] show ?thesis
    by (simp add: MAX_PAYLOAD_LEN_def numeral_2_eq_2 [symmetric])
qed

text \<open>
  C15: nothing unauthenticated is accepted. Whatever bytes are on disk, a frame that decodes has a valid checksum
  over its header and payload, is marked protected exactly when its kind must be, and if so carries the
  authentication code of its whole header, payload and checksum under the store's key.
\<close>

theorem frame_accepts_authentic:
  assumes "frame_decode buf key = Inr d"
  shows "(let n = 24 + length (fr_payload (df_frame d)) in
    fr_payload (df_frame d) = take (n - 24) (drop 24 buf) \<and>
    fr_kind (df_frame d) = from_u16 (field 6 2 buf) \<and> fr_sequence (df_frame d) = field 12 8 buf \<and>
    fr_protected (df_frame d) = is_protected (fr_kind (df_frame d)) \<and>
    df_length d = n + 4 + (if fr_protected (df_frame d) then 32 else 0) \<and>
    unat (crc32 (take n buf)) = le_value (take 4 (drop n buf)) \<and>
    (fr_protected (df_frame d) \<longrightarrow> take 32 (drop (n + 4) buf) = hmac_sha256 key (take (n + 4) buf)))"
proof -
  define len where "len = field 20 4 buf"
  have f: "is_protected (from_u16 (field 6 2 buf)) = (field 8 2 buf AND FLAG_PROTECTED \<noteq> 0)"
    and tot: "24 + len + 4 + (if field 8 2 buf AND FLAG_PROTECTED \<noteq> 0 then 32 else 0) \<le> length buf"
    and crc: "unat (crc32 (take (24 + len) buf)) = le_value (take 4 (drop (24 + len) buf))"
    and mac: "field 8 2 buf AND FLAG_PROTECTED \<noteq> 0 \<Longrightarrow> take 32 (drop (24 + len + 4) buf) = hmac_sha256 key (take (24 + len + 4) buf)"
    and d: "d = \<lparr>df_frame = \<lparr>fr_kind = from_u16 (field 6 2 buf), fr_sequence = field 12 8 buf,
        fr_payload = take len (drop 24 buf), fr_protected = (field 8 2 buf AND FLAG_PROTECTED \<noteq> 0)\<rparr>,
        df_length = 24 + len + 4 + (if field 8 2 buf AND FLAG_PROTECTED \<noteq> 0 then 32 else 0)\<rparr>"
    using assms
    by (auto simp: frame_decode_def frame_lens len_def [symmetric] Let_def ct_eq_iff drop_take min_def add.commute split: if_splits)
  have "length (fr_payload (df_frame d)) = len" using tot by (simp add: d)
  then show ?thesis using f crc mac by (simp add: d)
qed

theorem frame_accepts_authentic_witness:
  "take 32 (drop 30 (encoded AuditEvent 7 [1, 2] [9])) = hmac_sha256 [9] (take 30 (encoded AuditEvent 7 [1, 2] [9]))"
proof -
  have "kind_ok AuditEvent" by (simp add: kind_ok_def from_u16_def)
  from decode_encoded [OF this, of 7 "[1, 2]" "[9]" "[]"] frame_accepts_authentic [of "encoded AuditEvent 7 [1, 2] [9]" "[9]"]
  show ?thesis by (simp add: MAX_PAYLOAD_LEN_def Let_def)
qed

end
