(* ===== verification/Log.thy ===== *)
theory Log
  imports Frame
begin

text \<open>
  The append-only log of the store (\<open>hypellm-store/src/log.rs\<close>): the sliding window that streams a log file,
  the scan for records that survive damage, replay, and appending with its rollback. A file is the list of its
  bytes; how many bytes a read returns and whether an I/O call fails are inputs of the model.
\<close>

section \<open>Reading through a window\<close>

definition MAX_LOG_BYTES :: nat where "MAX_LOG_BYTES = 256 * 1024 * 1024"
definition WINDOW_START_BYTES :: nat where "WINDOW_START_BYTES = 64 * 1024"

text \<open>
  The file behind a window: the bytes not read yet, and what the operating system does on the coming reads, a
  failure or at most that many bytes. When the list is used up every read returns what was asked for.
\<close>

record source =
  src_rest :: "byte list"
  src_reads :: "nat option list"

definition source_read :: "nat \<Rightarrow> source \<Rightarrow> byte list option \<times> source" where
  "source_read n s =
     (case src_reads s of
        [] \<Rightarrow> (Some (take n (src_rest s)), s\<lparr>src_rest := drop n (src_rest s)\<rparr>)
      | None # rs \<Rightarrow> (None, s\<lparr>src_reads := rs\<rparr>)
      | Some k # rs \<Rightarrow>
          (let m = min n (max k 1)
           in (Some (take m (src_rest s)), \<lparr>src_rest = drop m (src_rest s), src_reads = rs\<rparr>)))"

text \<open>
  The buffer is its length, the offset where the available bytes start, and those bytes; what the rest of it
  holds is never read.
\<close>

record window =
  wn_source :: source
  wn_cap :: nat
  wn_start :: nat
  wn_data :: "byte list"
  wn_exhausted :: bool
  wn_total_read :: nat
  wn_over_limit :: bool

definition wn_end :: "window \<Rightarrow> nat" where
  "wn_end w = wn_start w + length (wn_data w)"

definition window_new :: "source \<Rightarrow> window" where
  "window_new s =
     \<lparr>wn_source = s, wn_cap = WINDOW_START_BYTES, wn_start = 0, wn_data = [], wn_exhausted = False,
      wn_total_read = 0, wn_over_limit = False\<rparr>"

text \<open>The saturating addition of \<open>consume\<close> is capped by the end of the data at once, so it reads as a plain one.\<close>

definition consume :: "nat \<Rightarrow> window \<Rightarrow> window" where
  "consume n w =
     (let start = min (wn_start w + n) (wn_end w);
          w' = w\<lparr>wn_start := start, wn_data := drop (start - wn_start w) (wn_data w)\<rparr>
      in if start = wn_end w then w'\<lparr>wn_start := 0\<rparr> else w')"

lemma consume_data [simp]: "wn_data (consume n w) = drop n (wn_data w)"
  by (auto simp: consume_def wn_end_def Let_def min_def)

lemma consume_fields [simp]:
  "wn_source (consume n w) = wn_source w" "wn_cap (consume n w) = wn_cap w"
  "wn_exhausted (consume n w) = wn_exhausted w" "wn_total_read (consume n w) = wn_total_read w"
  "wn_over_limit (consume n w) = wn_over_limit w"
  by (simp_all add: consume_def Let_def)

definition grow_to :: "nat \<Rightarrow> nat" where
  "grow_to cap = min (sat_mul64 cap 2) MAX_FRAME_BYTES"

text \<open>\<open>None\<close> is an I/O error; otherwise whether more bytes arrived, and the window.\<close>

definition refill :: "window \<Rightarrow> (bool \<times> window) option" where
  "refill w =
     (if wn_exhausted w then Some (False, w)
      else let w = w\<lparr>wn_start := 0\<rparr> in
        if length (wn_data w) = wn_cap w \<and> wn_cap w \<ge> MAX_FRAME_BYTES then Some (False, w)
        else let w = (if length (wn_data w) = wn_cap w then w\<lparr>wn_cap := grow_to (wn_cap w)\<rparr> else w);
                 (r, s) = source_read (wn_cap w - length (wn_data w)) (wn_source w);
                 w = w\<lparr>wn_source := s\<rparr> in
          case r of
            None \<Rightarrow> None
          | Some bytes \<Rightarrow>
              if bytes = [] then Some (False, w\<lparr>wn_exhausted := True\<rparr>)
              else let tot = sat_add64 (wn_total_read w) (length bytes);
                       w = w\<lparr>wn_data := wn_data w @ bytes, wn_total_read := tot\<rparr>
                   in Some (True, if tot > MAX_LOG_BYTES then w\<lparr>wn_over_limit := True, wn_exhausted := True\<rparr> else w))"

lemma source_read_rest: "source_read n s = (Some bytes, s') \<Longrightarrow> src_rest s = bytes @ src_rest s'"
  by (auto simp: source_read_def Let_def split: list.splits option.splits)

lemma refill_shrinks:
  assumes "refill w = Some (True, w')"
  shows "length (src_rest (wn_source w')) < length (src_rest (wn_source w))"
proof -
  obtain n bytes s where r: "source_read n (wn_source w) = (Some bytes, s)" "bytes \<noteq> []" "wn_source w' = s"
    using assms
    by (auto simp: refill_def Let_def split: if_splits prod.splits option.splits)
  show ?thesis using source_read_rest [OF r(1)] r(2,3) by simp
qed

lemma refill_le:
  assumes "refill w = Some (r, w')"
  shows "length (src_rest (wn_source w')) \<le> length (src_rest (wn_source w))"
  using assms refill_shrinks [of w w']
  by (cases r) (auto simp: refill_def Let_def split: if_splits prod.splits option.splits dest: source_read_rest)

text \<open>The loop of \<open>fill\<close>.\<close>

function fill :: "window \<Rightarrow> window option" where
  "fill w =
     (if wn_end w < wn_cap w \<and> \<not> wn_exhausted w
      then (case refill w of None \<Rightarrow> None | Some (True, w') \<Rightarrow> fill w' | Some (False, w') \<Rightarrow> Some w')
      else Some w)"
  by auto
termination by (relation "measure (\<lambda>w. length (src_rest (wn_source w)))") (auto dest: refill_shrinks)

declare fill.simps [simp del]

lemma fill_eqs:
  "\<not> (wn_end w < wn_cap w \<and> \<not> wn_exhausted w) \<Longrightarrow> fill w = Some w"
  "wn_end w < wn_cap w \<Longrightarrow> \<not> wn_exhausted w \<Longrightarrow> refill w = None \<Longrightarrow> fill w = None"
  "wn_end w < wn_cap w \<Longrightarrow> \<not> wn_exhausted w \<Longrightarrow> refill w = Some (True, w') \<Longrightarrow> fill w = fill w'"
  "wn_end w < wn_cap w \<Longrightarrow> \<not> wn_exhausted w \<Longrightarrow> refill w = Some (False, w') \<Longrightarrow> fill w = Some w'"
  by (subst fill.simps, force)+

lemma fill_induct [consumes 1, case_names stop short more]:
  assumes "fill w = Some w'"
    and "\<And>w. \<not> (wn_end w < wn_cap w \<and> \<not> wn_exhausted w) \<Longrightarrow> fill w = Some w \<Longrightarrow> P w w"
    and "\<And>w w'. wn_end w < wn_cap w \<Longrightarrow> \<not> wn_exhausted w \<Longrightarrow> refill w = Some (False, w') \<Longrightarrow> P w w'"
    and "\<And>w w1 w'. wn_end w < wn_cap w \<Longrightarrow> \<not> wn_exhausted w \<Longrightarrow> refill w = Some (True, w1) \<Longrightarrow> fill w1 = Some w' \<Longrightarrow>
      P w1 w' \<Longrightarrow> P w w'"
  shows "P w w'"
  using assms(1)
proof (induction w rule: fill.induct)
  case (1 w)
  show ?case
  proof (cases "wn_end w < wn_cap w \<and> \<not> wn_exhausted w")
    case True
    note c = True [THEN conjunct1] True [THEN conjunct2]
    obtain r w1 where r: "refill w = Some (r, w1)" using 1(2) fill_eqs(2) [OF c] by fastforce
    show ?thesis
    proof (cases r)
      case True
      then have e: "fill w1 = Some w'" using 1(2) fill_eqs(3) [OF c] r by simp
      have "P w1 w'" using r True by (intro 1(1) [OF \<open>wn_end w < wn_cap w \<and> \<not> wn_exhausted w\<close>, of "(True, w1)"] e) simp_all
      then show ?thesis using assms(4) [OF c _ e] r True by simp
    next
      case False
      then show ?thesis using 1(2) fill_eqs(4) [OF c] r assms(3) [OF c] by simp
    qed
  next
    case False
    then show ?thesis using 1(2) fill_eqs(1) assms(2) by simp
  qed
qed

lemma fill_le: "fill w = Some w' \<Longrightarrow> length (src_rest (wn_source w')) \<le> length (src_rest (wn_source w))"
proof (induction w w' rule: fill_induct)
  case (short w w')
  show ?case using refill_le [OF short(3)] .
next
  case (more w w1 w')
  then show ?case using refill_le [OF more(3)] by simp
qed simp

section \<open>Looking past damage\<close>

definition starts_magic :: "byte list \<Rightarrow> bool" where
  "starts_magic buf \<longleftrightarrow> take 4 buf = MAGIC"

datatype scan_result = Found nat | Undecided nat | Nothing

text \<open>One pass over the available bytes: a record that follows, a candidate too short to judge, or neither.\<close>

fun scan_window :: "bool \<Rightarrow> nat \<Rightarrow> byte list \<Rightarrow> nat \<Rightarrow> byte list \<Rightarrow> scan_result" where
  "scan_window exhausted threshold key off [] = Nothing"
| "scan_window exhausted threshold key off (b # bs) =
     (if \<not> starts_magic (b # bs) then scan_window exhausted threshold key (off + 1) bs
      else case frame_decode (b # bs) key of
        Inr d \<Rightarrow> if fr_sequence (df_frame d) > threshold then Found (fr_sequence (df_frame d))
                 else scan_window exhausted threshold key (off + 1) bs
      | Inl e \<Rightarrow> if e = Incomplete \<and> \<not> exhausted then Undecided off
                 else scan_window exhausted threshold key (off + 1) bs)"

text \<open>
  One round of the loop: an answer with the window it leaves, or the pass and the window to go on with;
  \<open>None\<close> is an I/O error.
\<close>

definition surviving_round :: "nat \<Rightarrow> byte list \<Rightarrow> bool \<Rightarrow> window \<Rightarrow> (nat option \<times> window + bool \<times> window) option" where
  "surviving_round threshold key final_pass w0 =
     (case fill w0 of None \<Rightarrow> None
      | Some w \<Rightarrow>
          if wn_data w = [] then Some (Inl (None, w))
          else case scan_window (wn_exhausted w) threshold key 0 (wn_data w) of
            Found s \<Rightarrow> Some (Inl (Some s, w))
          | r \<Rightarrow>
              if final_pass then Some (Inl (None, w))
              else (case refill (case r of Undecided off \<Rightarrow> consume off w | _ \<Rightarrow> consume (length (wn_data w) - 3) w) of
                      None \<Rightarrow> None
                    | Some (got, w') \<Rightarrow> Some (Inr (\<not> got, w'))))"

lemma surviving_round_smaller:
  assumes "surviving_round t k final w = Some (Inr (final', w'))"
  shows "2 * length (src_rest (wn_source w')) + (if final' then 0 else 1) < 2 * length (src_rest (wn_source w)) + (if final then 0 else (1 :: nat))"
proof -
  obtain w1 where f: "fill w = Some w1" using assms by (auto simp: surviving_round_def split: option.splits)
  have nf: "\<not> final" using assms f by (auto simp: surviving_round_def split: scan_result.splits if_splits)
  obtain n where "refill (consume n w1) = Some (\<not> final', w')"
    using assms f nf by (auto simp: surviving_round_def split: scan_result.splits if_splits option.splits prod.splits)
  then show ?thesis
    using refill_shrinks [of "consume n w1" w'] refill_le [of "consume n w1" "\<not> final'" w'] fill_le [OF f] nf
    by (cases final') auto
qed

function surviving_loop :: "nat \<Rightarrow> byte list \<Rightarrow> bool \<Rightarrow> window \<Rightarrow> (nat option \<times> window) option" where
  "surviving_loop threshold key final_pass w =
     (case surviving_round threshold key final_pass w of
        None \<Rightarrow> None
      | Some (Inl answer) \<Rightarrow> Some answer
      | Some (Inr (final', w')) \<Rightarrow> surviving_loop threshold key final' w')"
  by auto
termination
  by (relation "measure (\<lambda>(t, k, final, w). 2 * length (src_rest (wn_source w)) + (if final then 0 else 1))")
    (use surviving_round_smaller in \<open>fastforce+\<close>)

declare surviving_loop.simps [simp del]

definition surviving_sequence_streaming :: "window \<Rightarrow> byte list \<Rightarrow> nat option \<Rightarrow> (nat option \<times> window) option" where
  "surviving_sequence_streaming w key last_good = surviving_loop (unwrap_or 0 last_good) key False (consume 1 w)"

text \<open>The scan over a whole buffer: the reference the streaming scan is checked against.\<close>

fun scan_all :: "nat \<Rightarrow> byte list \<Rightarrow> byte list \<Rightarrow> nat option" where
  "scan_all threshold key [] = None"
| "scan_all threshold key (b # bs) =
     (if \<not> starts_magic (b # bs) then scan_all threshold key bs
      else case frame_decode (b # bs) key of
        Inr d \<Rightarrow> if fr_sequence (df_frame d) > threshold then Some (fr_sequence (df_frame d)) else scan_all threshold key bs
      | Inl _ \<Rightarrow> scan_all threshold key bs)"

definition surviving_sequence_after :: "byte list \<Rightarrow> byte list \<Rightarrow> nat option \<Rightarrow> nat option" where
  "surviving_sequence_after remaining key last_good = scan_all (unwrap_or 0 last_good) key (drop 1 remaining)"

section \<open>Replay\<close>

record replay_result =
  rp_frames :: "frame list"
  rp_truncated_at :: "nat option"
  rp_stop_reason :: "frame_error option"
  rp_valid_len :: nat

definition max_sequence :: "replay_result \<Rightarrow> nat" where
  "max_sequence r = (if rp_frames r = [] then 0 else fr_sequence (last (rp_frames r)))"

definition of_kind :: "record_kind \<Rightarrow> replay_result \<Rightarrow> frame list" where
  "of_kind k r = filter (\<lambda>f. fr_kind f = k) (rp_frames r)"

datatype log_error =
    Integrity nat frame_error
  | NonMonotonicSequence nat nat
  | UnknownFormat frame_error
  | MidFileDamage nat nat nat
  | TooLarge nat nat
  | LogIo

text \<open>What replay has established so far: the frames kept, the offset reached, the last sequence number.\<close>

record progress =
  pg_frames :: "frame list"
  pg_offset :: nat
  pg_previous :: "nat option"

definition progress_start :: progress where
  "progress_start = \<lparr>pg_frames = [], pg_offset = 0, pg_previous = None\<rparr>"

text \<open>A frame that decoded: its sequence number must follow, and it is kept if the caller wants it.\<close>

definition accept_frame :: "(frame \<Rightarrow> bool) \<Rightarrow> decoded_frame \<Rightarrow> progress \<Rightarrow> log_error + progress" where
  "accept_frame retain d p =
     (if is_some_and (\<lambda>prev. fr_sequence (df_frame d) \<le> prev) (pg_previous p)
      then Inl (NonMonotonicSequence (unwrap_or 0 (pg_previous p)) (fr_sequence (df_frame d)))
      else Inr \<lparr>pg_frames = pg_frames p @ (if retain (df_frame d) then [df_frame d] else []),
                pg_offset = pg_offset p + df_length d, pg_previous = Some (fr_sequence (df_frame d))\<rparr>)"

definition clean_end :: "progress \<Rightarrow> replay_result" where
  "clean_end p = \<lparr>rp_frames = pg_frames p, rp_truncated_at = None, rp_stop_reason = None, rp_valid_len = pg_offset p\<rparr>"

definition torn_tail :: "frame_error \<Rightarrow> progress \<Rightarrow> replay_result" where
  "torn_tail e p =
     \<lparr>rp_frames = pg_frames p, rp_truncated_at = Some (pg_offset p), rp_stop_reason = Some e, rp_valid_len = pg_offset p\<rparr>"

text \<open>What stopping on an error means, once it is known whether a record survives beyond it.\<close>

definition refuse_outright :: "frame_error \<Rightarrow> progress \<Rightarrow> log_error option" where
  "refuse_outright e p =
     (if is_integrity_violation e then Some (Integrity (pg_offset p) e)
      else if pg_offset p = 0 \<and> \<not> is_recoverable_tail e then Some (UnknownFormat e)
      else None)"

definition stop_on :: "frame_error \<Rightarrow> progress \<Rightarrow> nat option \<Rightarrow> log_error + replay_result" where
  "stop_on e p surviving =
     (case surviving of
        Some s \<Rightarrow> Inl (MidFileDamage (pg_offset p) (unwrap_or 0 (pg_previous p)) s)
      | None \<Rightarrow> Inr (torn_tail e p))"

lemma refill_measure:
  assumes "refill w = Some (True, w')"
  shows "2 * length (src_rest (wn_source w')) + length (wn_data w') < 2 * length (src_rest (wn_source w)) + length (wn_data w)"
proof -
  obtain n bytes s where r: "source_read n (wn_source w) = (Some bytes, s)" "bytes \<noteq> []" "wn_source w' = s"
    "wn_data w' = wn_data w @ bytes"
    using assms by (auto simp: refill_def Let_def split: if_splits prod.splits option.splits)
  show ?thesis using source_read_rest [OF r(1)] r(2-4) by (cases bytes) simp_all
qed

lemma decode_nonempty: "frame_decode buf key = Inr d \<Longrightarrow> 0 < df_length d \<and> 0 < length buf"
  using decode_length [of buf key d] by linarith

text \<open>The loop of \<open>replay_retaining\<close>; the window comes back with the replay.\<close>

function replay_loop :: "(frame \<Rightarrow> bool) \<Rightarrow> byte list \<Rightarrow> progress \<Rightarrow> window \<Rightarrow> log_error + replay_result \<times> window" where
  "replay_loop retain key p w =
     (case frame_decode (wn_data w) key of
        Inr d \<Rightarrow> (case accept_frame retain d p of
                    Inl e \<Rightarrow> Inl e
                  | Inr p' \<Rightarrow> replay_loop retain key p' (consume (df_length d) w))
      | Inl e \<Rightarrow>
          (case (if e = Incomplete then refill w else Some (False, w)) of
             None \<Rightarrow> Inl LogIo
           | Some (True, w') \<Rightarrow> replay_loop retain key p w'
           | Some (False, w') \<Rightarrow>
               if wn_data w' = [] \<and> e = Incomplete then Inr (clean_end p, w')
               else case refuse_outright e p of Some le \<Rightarrow> Inl le
               | None \<Rightarrow>
                   (case surviving_sequence_streaming w' key (pg_previous p) of
                      None \<Rightarrow> Inl LogIo
                    | Some (surviving, w'') \<Rightarrow> map_sum id (\<lambda>r. (r, w'')) (stop_on e p surviving))))"
  by auto

termination
  by (relation "measure (\<lambda>(r, k, p, w). 2 * length (src_rest (wn_source w)) + length (wn_data w))")
    (auto split: if_splits dest: refill_measure decode_nonempty)

declare replay_loop.simps [simp del]

text \<open>
  The file operations around the loop: whether seeking to the start and back to the end work, and what the reads do.
\<close>

record replay_io =
  ri_seek_start :: bool
  ri_reads :: "nat option list"
  ri_seek_end :: bool

definition replay_retaining ::
  "byte list \<Rightarrow> nat \<Rightarrow> byte list \<Rightarrow> (frame \<Rightarrow> bool) \<Rightarrow> replay_io \<Rightarrow> log_error + replay_result" where
  "replay_retaining file len key retain io =
     (if len > MAX_LOG_BYTES then Inl (TooLarge len MAX_LOG_BYTES)
      else if \<not> ri_seek_start io then Inl LogIo
      else case replay_loop retain key progress_start (window_new \<lparr>src_rest = file, src_reads = ri_reads io\<rparr>) of
        Inl e \<Rightarrow> if e \<noteq> LogIo \<and> \<not> ri_seek_end io then Inl LogIo else Inl e
      | Inr (r, w) \<Rightarrow>
          if \<not> ri_seek_end io then Inl LogIo
          else if wn_over_limit w then Inl (TooLarge (wn_total_read w) MAX_LOG_BYTES)
          else Inr r)"

text \<open>The replay of a whole buffer, the reference of the differential test.\<close>

function replay_buffered :: "(frame \<Rightarrow> bool) \<Rightarrow> byte list \<Rightarrow> progress \<Rightarrow> byte list \<Rightarrow> log_error + replay_result" where
  "replay_buffered retain key p remaining =
     (if remaining = [] then Inr (clean_end p)
      else case frame_decode remaining key of
        Inr d \<Rightarrow> (case accept_frame retain d p of
                    Inl e \<Rightarrow> Inl e
                  | Inr p' \<Rightarrow> replay_buffered retain key p' (drop (df_length d) remaining))
      | Inl e \<Rightarrow> (case refuse_outright e p of Some le \<Rightarrow> Inl le
                  | None \<Rightarrow> stop_on e p (surviving_sequence_after remaining key (pg_previous p))))"
  by auto
termination
  by (relation "measure (\<lambda>(r, k, p, rem). length rem)") (auto dest: decode_nonempty)

declare replay_buffered.simps [simp del]

section \<open>Appending\<close>

record log =
  lg_file :: "byte list"
  lg_sync_on_append :: bool
  lg_len :: nat
  lg_poisoned :: bool

definition log_open :: "byte list \<Rightarrow> bool \<Rightarrow> log" where
  "log_open file sync = \<lparr>lg_file = file, lg_sync_on_append = sync, lg_len = length file, lg_poisoned = False\<rparr>"

text \<open>Setting the length of a file cuts it or pads it with zeros.\<close>

definition file_set_len :: "nat \<Rightarrow> byte list \<Rightarrow> byte list" where
  "file_set_len n f = take n f @ replicate (n - length f) 0"

text \<open>What the disk does to one append: the write goes through or stops part way, and each later call works or not.\<close>

datatype write_outcome = WriteDone | WriteStops nat

record append_io =
  ai_write :: write_outcome
  ai_sync_data :: bool
  ai_set_len :: bool
  ai_sync_all :: bool

datatype append_error = AppendPoisoned | AppendInvalid frame_error | AppendIo

text \<open>The file is opened for appending: bytes land at its real end.\<close>

definition write_frame :: "append_io \<Rightarrow> byte list \<Rightarrow> log \<Rightarrow> bool \<times> log" where
  "write_frame io bytes l =
     (case ai_write io of
        WriteStops n \<Rightarrow> (False, l\<lparr>lg_file := lg_file l @ take n bytes\<rparr>)
      | WriteDone \<Rightarrow> (lg_sync_on_append l \<longrightarrow> ai_sync_data io, l\<lparr>lg_file := lg_file l @ bytes\<rparr>))"

definition roll_back :: "append_io \<Rightarrow> log \<Rightarrow> log" where
  "roll_back io l =
     (let l' = (if ai_set_len io then l\<lparr>lg_file := file_set_len (lg_len l) (lg_file l)\<rparr> else l)
      in if ai_set_len io \<and> ai_sync_all io then l' else l'\<lparr>lg_poisoned := True\<rparr>)"

definition log_append :: "record_kind \<Rightarrow> nat \<Rightarrow> byte list \<Rightarrow> byte list \<Rightarrow> append_io \<Rightarrow> log \<Rightarrow> (append_error + nat) \<times> log" where
  "log_append kind sequence payload key io l =
     (if lg_poisoned l then (Inl AppendPoisoned, l)
      else case frame_encode kind sequence payload key of
        Inl e \<Rightarrow> (Inl (AppendInvalid e), l)
      | Inr bytes \<Rightarrow>
          (case write_frame io bytes l of
             (False, l') \<Rightarrow> (Inl AppendIo, roll_back io l')
           | (True, l') \<Rightarrow> (Inr (lg_len l), l'\<lparr>lg_len := sat_add64 (lg_len l') (length bytes)\<rparr>)))"

text \<open>Cutting the log back: three calls that may each fail, the first of which changes the file.\<close>

record cut_io =
  ci_set_len :: bool
  ci_sync_all :: bool
  ci_seek :: bool

definition log_truncate :: "nat \<Rightarrow> cut_io \<Rightarrow> log \<Rightarrow> bool \<times> log" where
  "log_truncate valid_len io l =
     (if \<not> ci_set_len io then (False, l)
      else let l = l\<lparr>lg_file := file_set_len valid_len (lg_file l)\<rparr> in
        if \<not> ci_sync_all io \<or> \<not> ci_seek io then (False, l)
        else (True, l\<lparr>lg_len := valid_len, lg_poisoned := False\<rparr>))"

definition log_reset :: "cut_io \<Rightarrow> log \<Rightarrow> bool \<times> log" where
  "log_reset io l = log_truncate 0 io l"

definition log_replay :: "byte list \<Rightarrow> (frame \<Rightarrow> bool) \<Rightarrow> replay_io \<Rightarrow> log \<Rightarrow> log_error + replay_result" where
  "log_replay key retain io l = replay_retaining (lg_file l) (lg_len l) key retain io"

section \<open>Windows over a readable file\<close>

text \<open>
  A window over a file whose reads do not fail, with \<open>R\<close> still to be looked at: what it holds followed by what the
  file holds. It has not been cut short by the size limit, and its buffer is within its bounds.
\<close>

definition window_ok :: "byte list \<Rightarrow> window \<Rightarrow> bool" where
  "window_ok R w \<longleftrightarrow>
     wn_data w @ src_rest (wn_source w) = R \<and> None \<notin> set (src_reads (wn_source w)) \<and>
     (wn_exhausted w \<longrightarrow> src_rest (wn_source w) = []) \<and> \<not> wn_over_limit w \<and>
     WINDOW_START_BYTES \<le> wn_cap w \<and> wn_cap w \<le> MAX_FRAME_BYTES \<and> wn_end w \<le> wn_cap w \<and>
     (wn_data w = [] \<longrightarrow> wn_start w = 0) \<and>
     wn_total_read w + length (src_rest (wn_source w)) \<le> MAX_LOG_BYTES"

lemmas log_sizes = MAX_LOG_BYTES_def WINDOW_START_BYTES_def MAX_FRAME_BYTES_def frame_lens

lemma window_new_ok:
  assumes "None \<notin> set reads" "length file \<le> MAX_LOG_BYTES"
  shows "window_ok file (window_new \<lparr>src_rest = file, src_reads = reads\<rparr>)"
  using assms by (simp add: window_ok_def window_new_def wn_end_def log_sizes)

lemma consume_ok:
  assumes "window_ok R w" "n \<le> length (wn_data w)"
  shows "window_ok (drop n R) (consume n w)"
proof -
  have e: "wn_end (consume n w) \<le> wn_end w" "wn_data (consume n w) = [] \<longrightarrow> wn_start (consume n w) = 0"
    using assms(2) by (auto simp: consume_def wn_end_def Let_def min_def)
  have d: "drop n R = drop n (wn_data w) @ src_rest (wn_source w)"
    using assms by (auto simp: window_ok_def)
  show ?thesis using assms(1) e by (auto simp: window_ok_def d)
qed

lemma source_read_ok:
  assumes "None \<notin> set (src_reads s)" "0 < n"
  shows "\<exists>bytes s'. source_read n s = (Some bytes, s') \<and> src_rest s = bytes @ src_rest s' \<and>
    None \<notin> set (src_reads s') \<and> length bytes \<le> n \<and> (bytes = [] \<longrightarrow> src_rest s = [])"
proof (cases "src_reads s")
  case Nil
  then show ?thesis using assms by (simp add: source_read_def)
next
  case (Cons r rs)
  then obtain k where "r = Some k" using assms(1) by (cases r) auto
  then show ?thesis using assms Cons by (auto simp: source_read_def Let_def min_def max_def)
qed

text \<open>More bytes arrive, or the file has ended, or the window already holds the largest possible frame.\<close>

lemma window_refill_ok:
  assumes "window_ok R w"
  obtains got w' where "refill w = Some (got, w')" "window_ok R w'" "wn_start w' = 0 \<or> w' = w"
    "\<not> got \<Longrightarrow> wn_data w' = wn_data w"
    "\<not> got \<Longrightarrow> wn_exhausted w' \<or> MAX_FRAME_BYTES \<le> length (wn_data w)"
proof (cases "wn_exhausted w \<or> length (wn_data w) = wn_cap w \<and> wn_cap w \<ge> MAX_FRAME_BYTES")
  case True
  then show ?thesis using assms
    by (intro that [of False "if wn_exhausted w then w else w\<lparr>wn_start := 0\<rparr>"])
      (auto simp: refill_def window_ok_def wn_end_def Let_def)
next
  case False
  define c where "c = (if length (wn_data w) = wn_cap w then grow_to (wn_cap w) else wn_cap w)"
  have le: "length (wn_data w) \<le> wn_cap w" using assms by (simp add: window_ok_def wn_end_def)
  have c: "length (wn_data w) < c" "wn_cap w \<le> c" "c \<le> MAX_FRAME_BYTES"
    using False assms le by (auto simp: c_def window_ok_def grow_to_def sat_mul64_def sat_u64_def u64_max_def log_sizes)
  obtain bytes s' where r: "source_read (c - length (wn_data w)) (wn_source w) = (Some bytes, s')"
    "src_rest (wn_source w) = bytes @ src_rest s'" "None \<notin> set (src_reads s')" "length bytes \<le> c - length (wn_data w)"
    "bytes = [] \<Longrightarrow> src_rest (wn_source w) = []"
    using source_read_ok [of "wn_source w" "c - length (wn_data w)"] assms c(1) unfolding window_ok_def by fastforce
  have tot: "sat_add64 (wn_total_read w) (length bytes) = wn_total_read w + length bytes"
    "wn_total_read w + length bytes \<le> MAX_LOG_BYTES"
    using assms r(2) by (auto simp: window_ok_def sat_add64_def sat_u64_def u64_max_def log_sizes)
  define w' where "w' = (if bytes = [] then w\<lparr>wn_start := 0, wn_cap := c, wn_source := s', wn_exhausted := True\<rparr>
    else w\<lparr>wn_start := 0, wn_cap := c, wn_source := s', wn_data := wn_data w @ bytes, wn_total_read := wn_total_read w + length bytes\<rparr>)"
  have "refill w = Some (bytes \<noteq> [], w')"
    using False r(1) tot by (auto simp: refill_def Let_def c_def w'_def)
  moreover have "window_ok R w'"
    using assms r(2-5) c tot(2) by (auto simp: window_ok_def w'_def wn_end_def)
  ultimately show ?thesis by (rule that) (auto simp: w'_def)
qed

lemma fill_ok:
  assumes "window_ok R w"
  shows "\<exists>w'. fill w = Some w' \<and> window_ok R w' \<and> (wn_exhausted w' \<or> wn_cap w' \<le> wn_end w') \<and> (wn_exhausted w \<longrightarrow> w' = w)"
  using assms
proof (induction w rule: fill.induct)
  case (1 w)
  show ?case
  proof (cases "wn_end w < wn_cap w \<and> \<not> wn_exhausted w")
    case True
    note c = True [THEN conjunct1] True [THEN conjunct2]
    obtain got w' where r: "refill w = Some (got, w')" "window_ok R w'"
      "\<not> got \<Longrightarrow> wn_exhausted w' \<or> MAX_FRAME_BYTES \<le> length (wn_data w)"
      using window_refill_ok [OF 1(2)] by metis
    show ?thesis
    proof (cases got)
      case True
      have "\<exists>x. fill w' = Some x \<and> window_ok R x \<and> (wn_exhausted x \<or> wn_cap x \<le> wn_end x) \<and> (wn_exhausted w' \<longrightarrow> x = w')"
        by (rule 1(1) [OF _ r(1) refl]) (use c True r(2) in auto)
      then show ?thesis using fill_eqs(3) [OF c] r(1) True c(2) by auto
    next
      case False
      have "length (wn_data w) < MAX_FRAME_BYTES" using c(1) 1(2) by (simp add: window_ok_def wn_end_def)
      then show ?thesis using fill_eqs(4) [OF c] r False c(2) by auto
    qed
  next
    case False
    then show ?thesis using fill_eqs(1) [OF False] 1(2) by auto
  qed
qed

section \<open>The streaming scan\<close>

lemma starts_magic_append: "4 \<le> length buf \<Longrightarrow> starts_magic (buf @ zs) = starts_magic buf"
  by (simp add: starts_magic_def)

lemma starts_magic_length: "starts_magic buf \<Longrightarrow> 4 \<le> length buf"
  by (rule ccontr) (auto simp: starts_magic_def MAGIC_def dest: arg_cong [where f = length])

lemma scan_all_short: "length bs < 4 \<Longrightarrow> scan_all t key bs = None"
proof (induction bs)
  case (Cons b bs)
  then have "\<not> starts_magic (b # bs)" using starts_magic_length [of "b # bs"] by auto
  then show ?case using Cons by simp
qed simp

text \<open>Dropping the first byte of what is left does not change the scan's answer.\<close>

lemma scan_all_skip:
  assumes "4 \<le> length buf"
    "\<And>d. frame_decode buf key = Inr d \<Longrightarrow> starts_magic buf \<Longrightarrow> \<not> fr_sequence (df_frame d) > t"
    "starts_magic buf \<Longrightarrow> frame_decode buf key = Inl Incomplete \<Longrightarrow> rest = []"
  shows "scan_all t key (buf @ rest) = scan_all t key (tl buf @ rest)"
proof (cases buf)
  case (Cons b bs)
  have m: "starts_magic (b # bs @ rest) = starts_magic buf"
    using starts_magic_append [OF assms(1), of rest] Cons by simp
  have d: "frame_decode (b # bs @ rest) key = frame_decode buf key" if "starts_magic buf"
    using decode_extend [of buf key rest] assms(3) that Cons by (cases "frame_decode buf key = Inl Incomplete") auto
  show ?thesis using m d assms(2) by (auto simp: Cons split: sum.splits)
qed (use assms(1) in simp)

lemma scan_window_short: "length data < 4 \<Longrightarrow> scan_window ex t key off data = Nothing"
proof (induction data arbitrary: off)
  case (Cons b bs)
  then have "\<not> starts_magic (b # bs)" using starts_magic_length [of "b # bs"] by auto
  then show ?case using Cons by simp
qed simp

text \<open>What a pass does at one position where a whole magic fits.\<close>

lemma scan_window_step:
  assumes "4 \<le> length (b # bs)" "ex \<longrightarrow> rest = []"
  obtains (found) d where "frame_decode (b # bs) key = Inr d" "scan_window ex t key off (b # bs) = Found (fr_sequence (df_frame d))"
      "scan_all t key ((b # bs) @ rest) = Some (fr_sequence (df_frame d))"
  | (undecided) "\<not> ex" "frame_decode (b # bs) key = Inl Incomplete" "scan_window ex t key off (b # bs) = Undecided off"
  | (skip) "scan_window ex t key off (b # bs) = scan_window ex t key (off + 1) bs"
      "scan_all t key ((b # bs) @ rest) = scan_all t key (bs @ rest)"
proof (cases "starts_magic (b # bs)")
  case False
  then have "scan_all t key ((b # bs) @ rest) = scan_all t key (bs @ rest)" using scan_all_skip [OF assms(1), of key t rest] by simp
  then show ?thesis using False by (intro skip) simp_all
next
  case True
  show ?thesis
  proof (cases "frame_decode (b # bs) key")
    case (Inr d)
    show ?thesis
    proof (cases "fr_sequence (df_frame d) > t")
      case True
      have "starts_magic (b # bs @ rest)" "frame_decode (b # bs @ rest) key = Inr d"
        using \<open>starts_magic (b # bs)\<close> starts_magic_append [OF assms(1), of rest] decode_extend [of "b # bs" key rest] Inr by simp_all
      then show ?thesis using \<open>starts_magic (b # bs)\<close> Inr True by (intro found) simp_all
    next
      case False
      then have "scan_all t key ((b # bs) @ rest) = scan_all t key (bs @ rest)"
        using scan_all_skip [OF assms(1), of key t rest] Inr by simp
      then show ?thesis using False Inr \<open>starts_magic (b # bs)\<close> by (intro skip) simp_all
    qed
  next
    case (Inl e)
    show ?thesis
    proof (cases "e = Incomplete \<and> \<not> ex")
      case True
      then show ?thesis using Inl \<open>starts_magic (b # bs)\<close> by (intro undecided) simp_all
    next
      case False
      then have "scan_all t key ((b # bs) @ rest) = scan_all t key (bs @ rest)"
        using scan_all_skip [OF assms(1), of key t rest] Inl assms(2) by auto
      then show ?thesis using False Inl \<open>starts_magic (b # bs)\<close> by (intro skip) auto
    qed
  qed
qed

text \<open>
  A record found is the record a scan of everything finds; a candidate that cannot be judged yet is where that scan
  would go on; and when nothing was found, three bytes are enough to keep.
\<close>

lemma scan_window_spec:
  assumes "ex \<longrightarrow> rest = []"
  shows "case scan_window ex t key off data of
      Found s \<Rightarrow> scan_all t key (data @ rest) = Some s
    | Undecided n \<Rightarrow> \<not> ex \<and> off \<le> n \<and> n - off \<le> length data \<and> frame_decode (drop (n - off) data) key = Inl Incomplete \<and>
        scan_all t key (data @ rest) = scan_all t key (drop (n - off) data @ rest)
    | Nothing \<Rightarrow> scan_all t key (data @ rest) = scan_all t key (drop (length data - 3) data @ rest)"
proof (induction data arbitrary: off)
  case (Cons b bs)
  show ?case
  proof (cases "length (b # bs) < 4")
    case True
    then show ?thesis using scan_window_short [OF True] by auto
  next
    case False
    then have l: "4 \<le> length (b # bs)" by simp
    have d: "drop (length (b # bs) - 3) (b # bs) = drop (length bs - 3) bs"
      using l by (simp add: drop_Cons')
    show ?thesis
      using l assms
    proof (cases rule: scan_window_step [where key = key and t = t and off = off])
      case skip
      show ?thesis unfolding skip d using Cons [of "off + 1"] by (auto split: scan_result.splits simp: drop_Cons')
    qed (auto simp: d)
  qed
qed simp

lemma surviving_loop_final:
  assumes "window_ok R w" "wn_exhausted w"
  shows "surviving_loop t key True w = Some (scan_all t key R, w)"
proof -
  have f: "fill w = Some w" using assms(2) by (intro fill_eqs(1)) simp
  have r: "src_rest (wn_source w) = []" "wn_data w = R" using assms by (auto simp: window_ok_def)
  have "case scan_window True t key 0 R of Found s \<Rightarrow> scan_all t key R = Some s | Undecided n \<Rightarrow> False | Nothing \<Rightarrow> scan_all t key R = None"
    using scan_window_spec [of True "[]" t key R 0] scan_all_short [of "drop (length R - 3) R"] by (auto split: scan_result.splits)
  then show ?thesis using assms(2) r
    by (subst surviving_loop.simps) (auto simp: surviving_round_def f split: scan_result.splits)
qed

lemma surviving_loop_spec:
  assumes "window_ok R w"
  shows "\<exists>w'. surviving_loop t key False w = Some (scan_all t key R, w') \<and> \<not> wn_over_limit w'"
  using assms
proof (induction "length (src_rest (wn_source w))" arbitrary: w R rule: less_induct)
  case less
  obtain w1 where f: "fill w = Some w1" "window_ok R w1" "wn_exhausted w1 \<or> wn_cap w1 \<le> wn_end w1"
    using fill_ok [OF less(2)] by blast
  let ?s = "scan_window (wn_exhausted w1) t key 0 (wn_data w1)"
  let ?rest = "src_rest (wn_source w1)"
  have R: "wn_data w1 @ ?rest = R" "wn_exhausted w1 \<longrightarrow> ?rest = []" "\<not> wn_over_limit w1" using f(2) by (auto simp: window_ok_def)
  note spec = scan_window_spec [OF R(2), of t key "wn_data w1" 0]
  show ?case
  proof (cases "wn_data w1 = [] \<or> (\<exists>s. ?s = Found s)")
    case True
    have "wn_data w1 = [] \<Longrightarrow> R = []"
      using f(2,3) by (auto simp: window_ok_def wn_end_def WINDOW_START_BYTES_def)
    then show ?thesis using True f(1) R spec
      by (subst surviving_loop.simps) (auto simp: surviving_round_def)
  next
    case False
    define n where "n = (case ?s of Undecided off \<Rightarrow> off | _ \<Rightarrow> length (wn_data w1) - 3)"
    define R' where "R' = drop n R"
    have n: "n \<le> length (wn_data w1)" "scan_all t key R = scan_all t key R'"
      "frame_decode (drop n (wn_data w1)) key = Inl Incomplete \<or> length (drop n (wn_data w1)) < 4"
      using False spec R(1) by (auto simp: n_def R'_def split: scan_result.splits)
    have ok: "window_ok R' (consume n w1)" unfolding R'_def by (rule consume_ok [OF f(2) n(1)])
    obtain got w2 where r: "refill (consume n w1) = Some (got, w2)" "window_ok R' w2"
      "\<not> got \<Longrightarrow> wn_exhausted w2 \<or> MAX_FRAME_BYTES \<le> length (drop n (wn_data w1))"
      using window_refill_ok [OF ok] by (metis consume_data)
    have round: "surviving_round t key False w = Some (Inr (\<not> got, w2))"
      using False f(1) r(1) by (auto simp: surviving_round_def n_def split: scan_result.splits)
    show ?thesis
    proof (cases got)
      case True
      have "length (src_rest (wn_source w2)) < length (src_rest (wn_source w))"
        using refill_shrinks [of "consume n w1" w2] r(1) True fill_le [OF f(1)] by simp
      from less(1) [OF this r(2)] show ?thesis
        using round True n(2) by (subst surviving_loop.simps) simp
    next
      case False
      have "length (drop n (wn_data w1)) < MAX_FRAME_BYTES"
        using n(3) decode_complete [of "drop n (wn_data w1)" key] by (cases "MAX_FRAME_BYTES \<le> length (drop n (wn_data w1))") (auto simp: log_sizes)
      then have "wn_exhausted w2" using r(3) False by simp
      from surviving_loop_final [OF r(2) this] show ?thesis
        using round False n(2) r(2) by (subst surviving_loop.simps) (simp add: window_ok_def)
    qed
  qed
qed

section \<open>Streaming replay is buffered replay\<close>

lemma replay_stop_spec:
  assumes "window_ok R w" "frame_decode (wn_data w) key = Inl e" "R \<noteq> []"
    "e = Incomplete \<Longrightarrow> wn_exhausted w" "wn_data w \<noteq> [] \<or> wn_exhausted w"
  shows "\<exists>w'. \<not> wn_over_limit w' \<and>
    (case refuse_outright e p of Some le \<Rightarrow> Inl le
     | None \<Rightarrow> (case surviving_sequence_streaming w key (pg_previous p) of
           None \<Rightarrow> Inl LogIo
         | Some (surviving, w'') \<Rightarrow> map_sum id (\<lambda>r. (r, w'')) (stop_on e p surviving))) =
    map_sum id (\<lambda>r. (r, w')) (replay_buffered retain key p R)"
proof -
  have "wn_data w @ src_rest (wn_source w) = R" "wn_exhausted w \<longrightarrow> src_rest (wn_source w) = []" "\<not> wn_over_limit w"
    using assms(1) by (auto simp: window_ok_def)
  note R = this
  have d: "frame_decode R key = Inl e"
    using decode_extend [of "wn_data w" key "src_rest (wn_source w)"] assms(2,4) R(1,2) by (cases "e = Incomplete") auto
  have "wn_data w \<noteq> []" using assms(3,5) R by auto
  then have "window_ok (drop 1 R) (consume 1 w)" by (intro consume_ok [OF assms(1)]) (cases "wn_data w", auto)
  from surviving_loop_spec [OF this, of "unwrap_or 0 (pg_previous p)" key] obtain w' where
    "surviving_sequence_streaming w key (pg_previous p) = Some (surviving_sequence_after R key (pg_previous p), w')"
    "\<not> wn_over_limit w'"
    by (auto simp: surviving_sequence_streaming_def surviving_sequence_after_def)
  then show ?thesis using d assms(3) R(3)
    by (subst replay_buffered.simps) (auto split: option.splits)
qed

lemma replay_loop_spec:
  assumes "window_ok R w"
  shows "\<exists>w'. \<not> wn_over_limit w' \<and> replay_loop retain key p w = map_sum id (\<lambda>r. (r, w')) (replay_buffered retain key p R)"
  using assms
proof (induction retain key p w arbitrary: R rule: replay_loop.induct)
  case (1 retain key p w)
  have R: "wn_data w @ src_rest (wn_source w) = R" "\<not> wn_over_limit w" using 1(3) by (auto simp: window_ok_def)
  show ?case
  proof (cases "frame_decode (wn_data w) key")
    case (Inr d)
    have dl: "df_length d \<le> length (wn_data w)" "R \<noteq> []" using decode_length [OF Inr] R(1) by auto
    have dR: "frame_decode R key = Inr d" using decode_extend [of "wn_data w" key "src_rest (wn_source w)"] Inr R(1) by simp
    show ?thesis
    proof (cases "accept_frame retain d p")
      case (Inl e)
      then show ?thesis using Inr dR dl(2) R(2) by (subst replay_loop.simps, subst replay_buffered.simps) auto
    next
      case (Inr p')
      from 1(2) [OF \<open>frame_decode (wn_data w) key = Inr d\<close> Inr consume_ok [OF 1(3) dl(1)]] show ?thesis
        using Inr \<open>frame_decode (wn_data w) key = Inr d\<close> dR dl(2)
        by (subst replay_loop.simps, subst replay_buffered.simps) (simp add: id_def)
    qed
  next
    case (Inl e)
    show ?thesis
    proof (cases "e = Incomplete")
      case True
      obtain got w' where r: "refill w = Some (got, w')" "window_ok R w'" "\<not> got \<Longrightarrow> wn_data w' = wn_data w"
        "\<not> got \<Longrightarrow> wn_exhausted w' \<or> MAX_FRAME_BYTES \<le> length (wn_data w)"
        using window_refill_ok [OF 1(3)] by metis
      show ?thesis
      proof (cases got)
        case True
        from 1(1) [OF Inl, of "(got, w')" got w'] r True \<open>e = Incomplete\<close> show ?thesis
          using Inl by (subst replay_loop.simps) (simp add: id_def)
      next
        case False
        have ex: "wn_exhausted w'" "wn_data w' = wn_data w"
          using r(3,4) False decode_complete [of "wn_data w" key] Inl True by auto
        have R': "wn_data w = R" "\<not> wn_over_limit w'" using r(2) ex by (auto simp: window_ok_def)
        show ?thesis
        proof (cases "R = []")
          case True
          then show ?thesis using Inl r(1) False ex R' \<open>e = Incomplete\<close>
            by (subst replay_loop.simps, subst replay_buffered.simps) auto
        next
          case False
          have "frame_decode (wn_data w') key = Inl e" using Inl ex by simp
          from replay_stop_spec [OF r(2) this False ex(1) disjI2 [OF ex(1)], of p retain, unfolded True] show ?thesis
            using ex(2) Inl r(1) \<open>\<not> got\<close> R' False True by (subst replay_loop.simps) simp
        qed
      qed
    next
      case False
      have ne: "wn_data w \<noteq> []" using Inl False by (auto simp: frame_decode_def HEADER_LEN_def)
      then have "R \<noteq> []" using R(1) by auto
      from replay_stop_spec [OF 1(3) Inl this, of p retain] False ne show ?thesis
        using Inl by (subst replay_loop.simps) simp
    qed
  qed
qed

lemma replay_retaining_buffered:
  assumes "None \<notin> set reads" "length file \<le> MAX_LOG_BYTES"
  shows "replay_retaining file (length file) key retain \<lparr>ri_seek_start = True, ri_reads = reads, ri_seek_end = True\<rparr> =
    replay_buffered retain key progress_start file"
proof -
  from replay_loop_spec [OF window_new_ok [OF assms], of retain key progress_start]
  show ?thesis using assms(2)
    by (cases "replay_buffered retain key progress_start file") (auto simp: replay_retaining_def)
qed

text \<open>
  C21: Replaying a log through a bounded window ends, whatever the sizes of the reads, and gives what the buffered
  replay of the whole file gives: the same frames, the same torn tail, the same refusal.
\<close>

theorem replay_streaming_equiv:
  assumes "None \<notin> set reads" "length file \<le> MAX_LOG_BYTES"
  shows "replay_retaining file (length file) key retain \<lparr>ri_seek_start = True, ri_reads = reads, ri_seek_end = True\<rparr> =
    replay_buffered retain key progress_start file"
  by (rule replay_retaining_buffered [OF assms])

theorem replay_streaming_equiv_witness:
  "replay_retaining [0x48, 0x59, 7] 3 [9] (\<lambda>_. True) \<lparr>ri_seek_start = True, ri_reads = [Some 1, Some 0, Some 5], ri_seek_end = True\<rparr> =
     Inr \<lparr>rp_frames = [], rp_truncated_at = Some 0, rp_stop_reason = Some Incomplete, rp_valid_len = 0\<rparr>"
proof -
  have "replay_buffered (\<lambda>_. True) [9] progress_start [0x48, 0x59, 7] =
      Inr \<lparr>rp_frames = [], rp_truncated_at = Some 0, rp_stop_reason = Some Incomplete, rp_valid_len = 0\<rparr>"
    by (subst replay_buffered.simps)
      (simp add: frame_decode_def HEADER_LEN_def refuse_outright_def is_integrity_violation_def is_recoverable_tail_def
        surviving_sequence_after_def starts_magic_def MAGIC_def stop_on_def torn_tail_def progress_start_def)
  then show ?thesis
    using replay_streaming_equiv [of "[Some 1, Some 0, Some 5]" "[0x48, 0x59, 7]" "[9]" "\<lambda>_. True"]
    by (simp add: MAX_LOG_BYTES_def numeral_3_eq_3)
qed

section \<open>What is appended is what is replayed\<close>

definition frame_ok :: "frame \<Rightarrow> bool" where
  "frame_ok f \<longleftrightarrow> kind_ok (fr_kind f) \<and> fr_sequence f < 2 ^ 64 \<and> length (fr_payload f) \<le> MAX_PAYLOAD_LEN \<and>
     fr_protected f = is_protected (fr_kind f)"

definition frame_bytes :: "byte list \<Rightarrow> frame \<Rightarrow> byte list" where
  "frame_bytes key f = encoded (fr_kind f) (fr_sequence f) (fr_payload f) key"

definition log_image :: "byte list \<Rightarrow> frame list \<Rightarrow> byte list" where
  "log_image key fs = concat (map (frame_bytes key) fs)"

definition increasing :: "frame list \<Rightarrow> bool" where
  "increasing fs \<longleftrightarrow> sorted_wrt (<) (map fr_sequence fs)"

lemma decode_frame_bytes:
  "frame_ok f \<Longrightarrow> frame_decode (frame_bytes key f @ zs) key = Inr \<lparr>df_frame = f, df_length = length (frame_bytes key f)\<rparr>"
  using decode_encoded [of "fr_kind f" "fr_sequence f" "fr_payload f" key zs]
  by (simp add: frame_ok_def frame_bytes_def)

text \<open>The progress of a replay that has read some frames.\<close>

definition advance :: "byte list \<Rightarrow> (frame \<Rightarrow> bool) \<Rightarrow> frame list \<Rightarrow> progress \<Rightarrow> progress" where
  "advance key retain fs p =
     \<lparr>pg_frames = pg_frames p @ filter retain fs, pg_offset = pg_offset p + length (log_image key fs),
      pg_previous = (if fs = [] then pg_previous p else Some (fr_sequence (last fs)))\<rparr>"

lemma replay_buffered_frames:
  assumes "list_all frame_ok fs" "increasing fs" "\<forall>f \<in> set fs. \<forall>q. pg_previous p = Some q \<longrightarrow> q < fr_sequence f"
  shows "replay_buffered retain key p (log_image key fs @ zs) = replay_buffered retain key (advance key retain fs p) zs"
  using assms
proof (induction fs arbitrary: p)
  case Nil
  then show ?case by (cases p) (simp add: log_image_def advance_def)
next
  case (Cons f fs)
  let ?d = "\<lparr>df_frame = f, df_length = length (frame_bytes key f)\<rparr>"
  let ?p = "\<lparr>pg_frames = pg_frames p @ (if retain f then [f] else []), pg_offset = pg_offset p + length (frame_bytes key f),
    pg_previous = Some (fr_sequence f)\<rparr>"
  have d: "frame_decode (log_image key (f # fs) @ zs) key = Inr ?d"
    using decode_frame_bytes [of f key "log_image key fs @ zs"] Cons(2) by (simp add: log_image_def)
  have a: "accept_frame retain ?d p = Inr ?p"
    using Cons(4) by (cases "pg_previous p") (auto simp: accept_frame_def is_some_and_def)
  have "replay_buffered retain key p (log_image key (f # fs) @ zs) = replay_buffered retain key ?p (log_image key fs @ zs)"
    using decode_nonempty [OF d] by (subst replay_buffered.simps) (simp add: d a, simp add: log_image_def)
  also have "\<dots> = replay_buffered retain key (advance key retain fs ?p) zs"
    by (rule Cons(1)) (use Cons(2,3) in \<open>auto simp: increasing_def\<close>)
  also have "advance key retain fs ?p = advance key retain (f # fs) p"
    by (simp add: advance_def log_image_def)
  finally show ?case .
qed

text \<open>
  The file an interrupted log leaves: the acknowledged frames, and a prefix of at most one frame that was being
  appended.
\<close>

definition follows :: "frame list \<Rightarrow> frame \<Rightarrow> bool" where
  "follows fs f \<longleftrightarrow> frame_ok f \<and> (\<forall>g \<in> set fs. fr_sequence g < fr_sequence f)"

definition crash_image :: "byte list \<Rightarrow> frame list \<Rightarrow> frame \<Rightarrow> nat \<Rightarrow> byte list" where
  "crash_image key fs f n = log_image key fs @ take n (frame_bytes key f)"

lemma increasing_snoc: "increasing (fs @ [f]) \<longleftrightarrow> increasing fs \<and> (\<forall>g \<in> set fs. fr_sequence g < fr_sequence f)"
  by (auto simp: increasing_def sorted_wrt_append)

lemma log_image_snoc: "log_image key (fs @ [f]) = log_image key fs @ frame_bytes key f"
  by (simp add: log_image_def)

lemma advance_start:
  "advance key retain fs progress_start =
     \<lparr>pg_frames = filter retain fs, pg_offset = length (log_image key fs),
      pg_previous = (if fs = [] then None else Some (fr_sequence (last fs)))\<rparr>"
  by (simp add: advance_def progress_start_def)

lemma replay_from_start:
  assumes "list_all frame_ok fs" "increasing fs"
  shows "replay_buffered retain key progress_start (log_image key fs @ zs) =
    replay_buffered retain key (advance key retain fs progress_start) zs"
  by (rule replay_buffered_frames [OF assms]) (simp add: progress_start_def)

lemma replay_whole_image:
  assumes "list_all frame_ok fs" "increasing fs"
  shows "replay_buffered retain key progress_start (log_image key fs) =
    Inr \<lparr>rp_frames = filter retain fs, rp_truncated_at = None, rp_stop_reason = None, rp_valid_len = length (log_image key fs)\<rparr>"
  using replay_from_start [OF assms, of retain key "[]"]
  by (simp add: replay_buffered.simps [of retain key _ "[]"] advance_start clean_end_def)

lemma replay_crash_image:
  assumes "list_all frame_ok fs" "increasing fs" "frame_ok f" "0 < n" "n < length (frame_bytes key f)"
    "surviving_sequence_after (take n (frame_bytes key f)) key (if fs = [] then None else Some (fr_sequence (last fs))) = None"
  shows "replay_buffered retain key progress_start (crash_image key fs f n) =
    Inr \<lparr>rp_frames = filter retain fs, rp_truncated_at = Some (length (log_image key fs)), rp_stop_reason = Some Incomplete,
         rp_valid_len = length (log_image key fs)\<rparr>"
proof -
  let ?t = "take n (frame_bytes key f)" and ?p = "advance key retain fs progress_start"
  have "?t \<noteq> []" using assms(4,5) by auto
  moreover have "frame_decode ?t key = Inl Incomplete"
    using decode_torn [of "fr_kind f" "fr_sequence f" "fr_payload f" n key] assms(3,5)
    by (simp add: frame_ok_def frame_bytes_def)
  moreover have "refuse_outright Incomplete ?p = None"
    by (simp add: refuse_outright_def is_integrity_violation_def is_recoverable_tail_def)
  moreover have "surviving_sequence_after ?t key (pg_previous ?p) = None" using assms(6) by (simp add: advance_start)
  ultimately show ?thesis
    using replay_from_start [OF assms(1,2), of retain key ?t]
    by (simp add: crash_image_def replay_buffered.simps [of retain key _ ?t] stop_on_def torn_tail_def)
      (simp add: advance_start)
qed

text \<open>
  A log in use: it was opened empty, and appends were tried with growing sequence numbers on a disk that may fail in any
  way. The list holds the frames whose append reported success.
\<close>

inductive log_run :: "byte list \<Rightarrow> frame list \<Rightarrow> log \<Rightarrow> bool" for key where
  log_fresh: "log_run key [] (log_open [] sync)"
| log_acked: "log_run key fs l \<Longrightarrow> follows fs f \<Longrightarrow> lg_len l + length (frame_bytes key f) \<le> u64_max \<Longrightarrow>
    log_append (fr_kind f) (fr_sequence f) (fr_payload f) key io l = (Inr offset, l') \<Longrightarrow> log_run key (fs @ [f]) l'"
| log_failed: "log_run key fs l \<Longrightarrow> \<forall>g \<in> set fs. fr_sequence g < s \<Longrightarrow> kind_ok k \<Longrightarrow> s < 2 ^ 64 \<Longrightarrow>
    log_append k s payload key io l = (Inl e, l') \<Longrightarrow> log_run key fs l'"

definition log_holds :: "byte list \<Rightarrow> frame list \<Rightarrow> log \<Rightarrow> bool" where
  "log_holds key fs l \<longleftrightarrow>
     list_all frame_ok fs \<and> increasing fs \<and> lg_len l = length (log_image key fs) \<and>
     (if lg_poisoned l then \<exists>f n. follows fs f \<and> lg_file l = crash_image key fs f n else lg_file l = log_image key fs)"

lemma append_ok_cases:
  assumes "log_append k s payload key io l = (Inr offset, l')"
  shows "\<not> lg_poisoned l \<and> length payload \<le> MAX_PAYLOAD_LEN \<and> offset = lg_len l \<and>
    l' = l\<lparr>lg_file := lg_file l @ encoded k s payload key, lg_len := sat_add64 (lg_len l) (length (encoded k s payload key))\<rparr>"
  using assms
  by (auto simp: log_append_def frame_encode_eq write_frame_def split: if_splits sum.splits write_outcome.splits bool.splits prod.splits)

text \<open>A failed append leaves the log as it was, or poisoned over a prefix of the frame that failed.\<close>

lemma append_failed_cases:
  assumes "log_append k s payload key io l = (Inl e, l')" "lg_len l = length (lg_file l) \<or> lg_poisoned l"
  shows "lg_len l' = lg_len l \<and>
    (l' = l \<or> \<not> lg_poisoned l \<and> length payload \<le> MAX_PAYLOAD_LEN \<and> lg_poisoned l' \<and>
       (\<exists>n. lg_file l' = lg_file l @ take n (encoded k s payload key)))"
proof (cases "lg_poisoned l \<or> length payload > MAX_PAYLOAD_LEN")
  case True
  then show ?thesis using assms by (auto simp: log_append_def frame_encode_eq split: if_splits)
next
  case False
  let ?b = "encoded k s payload key"
  obtain n where w: "write_frame io ?b l = (False, l\<lparr>lg_file := lg_file l @ take n ?b\<rparr>)"
    using assms(1) False
    by (cases "ai_write io") (auto simp: log_append_def frame_encode_eq write_frame_def split: bool.splits intro: that [of "length ?b"])
  have l': "l' = roll_back io (l\<lparr>lg_file := lg_file l @ take n ?b\<rparr>)"
    using assms(1) False by (simp add: log_append_def frame_encode_eq w)
  have s: "file_set_len (lg_len l) (lg_file l @ take n ?b) = lg_file l" using assms(2) False by (simp add: file_set_len_def)
  show ?thesis
  proof (cases "ai_set_len io")
    case True
    then show ?thesis using l' s False
      by (cases l) (auto simp: roll_back_def Let_def intro: exI [of _ 0])
  next
    case False
    then show ?thesis using l' \<open>\<not> (lg_poisoned l \<or> length payload > MAX_PAYLOAD_LEN)\<close> by (auto simp: roll_back_def Let_def)
  qed
qed

lemma log_run_holds: "log_run key fs l \<Longrightarrow> log_holds key fs l"
proof (induction rule: log_run.induct)
  case (log_fresh sync)
  show ?case by (simp add: log_holds_def log_open_def log_image_def increasing_def)
next
  case (log_acked fs l f io offset l')
  from append_ok_cases [OF log_acked(4)] log_acked show ?case
    by (auto simp: log_holds_def follows_def increasing_snoc log_image_snoc frame_bytes_def sat_add64_def sat_u64_def)
next
  case (log_failed fs l s k payload io e l')
  let ?f = "\<lparr>fr_kind = k, fr_sequence = s, fr_payload = payload, fr_protected = is_protected k\<rparr>"
  have h: "lg_len l = length (lg_file l) \<or> lg_poisoned l" using log_failed(6) by (auto simp: log_holds_def split: if_splits)
  from append_failed_cases [OF log_failed(5) h] show ?case
  proof (elim conjE disjE)
    assume a: "\<not> lg_poisoned l" "length payload \<le> MAX_PAYLOAD_LEN" "lg_poisoned l'" "\<exists>n. lg_file l' = lg_file l @ take n (encoded k s payload key)"
      "lg_len l' = lg_len l"
    have "follows fs ?f" using log_failed a(2) by (simp add: follows_def frame_ok_def)
    moreover obtain n where "lg_file l' = crash_image key fs ?f n"
      using a log_failed(6) by (auto simp: log_holds_def crash_image_def frame_bytes_def)
    ultimately show ?thesis using log_failed(6) a(1,3,5) unfolding log_holds_def by auto
  qed (use log_failed(6) in simp)
qed

text \<open>
  C22: Appending is all or nothing whatever the disk does: a successful append puts exactly the frame at the end of the
  file and returns where it starts; a failed one leaves the log untouched or poisons it; and a poisoned log refuses
  every append.
\<close>

theorem append_all_or_nothing:
  assumes "log_run key fs l" "log_append k s payload key io l = (r, l')"
  shows "case r of
      Inr offset \<Rightarrow> offset = length (lg_file l) \<and> frame_encode k s payload key = Inr (drop offset (lg_file l')) \<and>
        take offset (lg_file l') = lg_file l \<and> \<not> lg_poisoned l'
    | Inl e \<Rightarrow> l' = l \<or> \<not> lg_poisoned l \<and> lg_poisoned l' \<and> lg_len l' = lg_len l \<and>
        (\<forall>k s payload io. log_append k s payload key io l' = (Inl AppendPoisoned, l'))"
proof (cases r)
  case (Inl e)
  have "lg_len l = length (lg_file l) \<or> lg_poisoned l"
    using log_run_holds [OF assms(1)] by (auto simp: log_holds_def split: if_splits)
  from append_failed_cases [OF assms(2) [unfolded Inl] this] show ?thesis
    using Inl by (auto simp: log_append_def [of _ _ _ _ _ l'])
next
  case (Inr offset)
  have "\<not> lg_poisoned l \<Longrightarrow> lg_len l = length (lg_file l)"
    using log_run_holds [OF assms(1)] by (auto simp: log_holds_def)
  then show ?thesis using append_ok_cases [of k s payload key io l offset l'] assms(2) Inr by (auto simp: frame_encode_eq)
qed

theorem append_all_or_nothing_witness:
  "snd (log_append AuditEvent 1 [] [9] \<lparr>ai_write = WriteStops 3, ai_sync_data = True, ai_set_len = True, ai_sync_all = True\<rparr> (log_open [] True)) =
     log_open [] True"
proof -
  let ?io = "\<lparr>ai_write = WriteStops 3, ai_sync_data = True, ai_set_len = True, ai_sync_all = True\<rparr>"
  let ?l = "log_open [] True"
  obtain l' where "log_append AuditEvent 1 [] [9] ?io ?l = (Inl AppendIo, l')" "\<not> lg_poisoned l'"
    by (simp add: log_append_def frame_encode_eq write_frame_def roll_back_def log_open_def MAX_PAYLOAD_LEN_def)
  then show ?thesis using append_all_or_nothing [OF log_fresh, of AuditEvent 1 "[]" "[9]" ?io True "Inl AppendIo" l'] by auto
qed

definition last_sequence :: "frame list \<Rightarrow> nat option" where
  "last_sequence fs = (if fs = [] then None else Some (fr_sequence (last fs)))"

lemma recover_image:
  assumes "list_all frame_ok fs" "increasing fs" "follows fs f"
    "surviving_sequence_after (take n (frame_bytes key f)) key (last_sequence fs) = None"
  shows "\<exists>r. replay_buffered (\<lambda>_. True) key progress_start (crash_image key fs f n) = Inr r \<and>
    (rp_frames r = fs \<or> rp_frames r = fs @ [f]) \<and>
    take (rp_valid_len r) (crash_image key fs f n) = log_image key (rp_frames r) \<and> rp_valid_len r \<le> length (crash_image key fs f n)"
proof -
  consider "n = 0" | "0 < n" "n < length (frame_bytes key f)" | "length (frame_bytes key f) \<le> n" by linarith
  then show ?thesis
  proof cases
    case 1
    then show ?thesis using replay_whole_image [OF assms(1,2), of "\<lambda>_. True" key] by (simp add: crash_image_def)
  next
    case 2
    from replay_crash_image [OF assms(1,2) _ 2, of "\<lambda>_. True"] assms(3,4) show ?thesis
      by (simp add: follows_def last_sequence_def crash_image_def)
  next
    case 3
    have "list_all frame_ok (fs @ [f])" "increasing (fs @ [f])" using assms by (auto simp: follows_def increasing_snoc)
    from replay_whole_image [OF this, of "\<lambda>_. True" key] 3 show ?thesis by (simp add: crash_image_def log_image_snoc)
  qed
qed

lemma run_image:
  assumes "log_run key fs l"
    "file = lg_file l \<or> \<not> lg_poisoned l \<and> follows fs f \<and> lg_len l \<le> m \<and> file = take m (lg_file l @ frame_bytes key f)"
  shows "list_all frame_ok fs \<and> increasing fs \<and> lg_len l = length (log_image key fs) \<and>
    (file = log_image key fs \<or> (\<exists>g n. follows fs g \<and> file = crash_image key fs g n))"
proof -
  note h = log_run_holds [OF assms(1), unfolded log_holds_def]
  from assms(2) show ?thesis
  proof
    assume "file = lg_file l"
    then show ?thesis using h by (auto split: if_splits)
  next
    assume a: "\<not> lg_poisoned l \<and> follows fs f \<and> lg_len l \<le> m \<and> file = take m (lg_file l @ frame_bytes key f)"
    then have "file = crash_image key fs f (m - lg_len l)" using h by (simp add: crash_image_def)
    then show ?thesis using h a by blast
  qed
qed

text \<open>
  C20: Recovery: after any history of appends on a disk that may fail, and a crash that tears the append in progress at
  any byte, reopening succeeds. Replay, however its reads are sized, returns every acknowledged frame in order and
  nothing else but at most the one frame whose append was not acknowledged; and cutting the file at the length it
  reports leaves exactly those frames. The torn bytes must not themselves contain a later record.
\<close>

theorem log_recovers:
  assumes "log_run key fs l"
    and "file = lg_file l \<or> \<not> lg_poisoned l \<and> follows fs f \<and> lg_len l \<le> m \<and> file = take m (lg_file l @ frame_bytes key f)"
    and "surviving_sequence_after (drop (lg_len l) file) key (last_sequence fs) = None"
    and "length file \<le> MAX_LOG_BYTES" "None \<notin> set reads"
  shows "\<exists>r. log_replay key (\<lambda>_. True) \<lparr>ri_seek_start = True, ri_reads = reads, ri_seek_end = True\<rparr> (log_open file sync) = Inr r \<and>
    (rp_frames r = fs \<or> (\<exists>g. follows fs g \<and> rp_frames r = fs @ [g])) \<and>
    (file = lg_file l \<and> \<not> lg_poisoned l \<longrightarrow> rp_frames r = fs) \<and>
    log_truncate (rp_valid_len r) \<lparr>ci_set_len = True, ci_sync_all = True, ci_seek = True\<rparr> (log_open file sync) =
      (True, log_open (log_image key (rp_frames r)) sync)"
proof -
  have streaming: "log_replay key retain \<lparr>ri_seek_start = True, ri_reads = reads, ri_seek_end = True\<rparr> (log_open file sync) =
      replay_buffered retain key progress_start file" for retain
    using replay_retaining_buffered [OF assms(5,4), of key retain] by (simp add: log_replay_def log_open_def)
  note h = run_image [OF assms(1,2)]
  have cut: "log_truncate n \<lparr>ci_set_len = True, ci_sync_all = True, ci_seek = True\<rparr> (log_open file sync) = (True, log_open (take n file) sync)"
    if "n \<le> length file" for n
    using that by (simp add: log_truncate_def log_open_def file_set_len_def)
  have keep: "file = lg_file l \<and> \<not> lg_poisoned l \<longrightarrow> file = log_image key fs"
    using log_run_holds [OF assms(1)] by (auto simp: log_holds_def)
  show ?thesis
  proof (cases "file = log_image key fs")
    case True
    show ?thesis unfolding streaming using replay_whole_image [of fs "\<lambda>_. True" key] h cut [of "length file"] by (simp add: True)
  next
    case False
    then obtain g n where g: "follows fs g" "file = crash_image key fs g n" using h by blast
    have "surviving_sequence_after (take n (frame_bytes key g)) key (last_sequence fs) = None"
      using assms(3) g(2) h by (simp add: crash_image_def)
    from recover_image [OF _ _ g(1) this] h obtain r where r: "replay_buffered (\<lambda>_. True) key progress_start file = Inr r"
      "rp_frames r = fs \<or> rp_frames r = fs @ [g]" "take (rp_valid_len r) file = log_image key (rp_frames r)" "rp_valid_len r \<le> length file"
      by (auto simp: g(2))
    then show ?thesis using cut [OF r(4)] keep False g(1) by (auto simp: streaming)
  qed
qed

theorem log_recovers_witness:
  "\<exists>r. log_replay [9] (\<lambda>_. True) \<lparr>ri_seek_start = True, ri_reads = [Some 1], ri_seek_end = True\<rparr>
      (log_open (encoded UsageAggregate 1 [] [9] @ take 3 (encoded AuditEvent 2 [7] [9])) True) = Inr r \<and>
    hd (rp_frames r) = \<lparr>fr_kind = UsageAggregate, fr_sequence = 1, fr_payload = [], fr_protected = False\<rparr>"
proof -
  let ?f = "\<lparr>fr_kind = UsageAggregate, fr_sequence = 1, fr_payload = [], fr_protected = False\<rparr> :: frame"
  let ?g = "\<lparr>fr_kind = AuditEvent, fr_sequence = 2, fr_payload = [7], fr_protected = True\<rparr> :: frame"
  let ?io = "\<lparr>ai_write = WriteDone, ai_sync_data = True, ai_set_len = True, ai_sync_all = True\<rparr>"
  let ?b = "encoded UsageAggregate 1 [] [9]"
  let ?l = "log_open ?b True"
  have k: "kind_ok UsageAggregate" "kind_ok AuditEvent" by (simp_all add: kind_ok_def from_u16_def)
  have "log_run [9] ([] @ [?f]) ?l"
    by (rule log_acked [OF log_fresh [of "[9]" True], of ?f ?io 0])
      (simp_all add: follows_def frame_ok_def k log_open_def frame_bytes_def encoded_length u64_max_def MAX_PAYLOAD_LEN_def
        log_append_def frame_encode_eq write_frame_def sat_add64_def sat_u64_def)
  moreover have "follows [?f] ?g" by (simp add: follows_def frame_ok_def k MAX_PAYLOAD_LEN_def)
  ultimately have "\<exists>r. log_replay [9] (\<lambda>_. True) \<lparr>ri_seek_start = True, ri_reads = [Some 1], ri_seek_end = True\<rparr>
      (log_open (?b @ take 3 (encoded AuditEvent 2 [7] [9])) True) = Inr r \<and>
    (rp_frames r = [?f] \<or> (\<exists>g. follows [?f] g \<and> rp_frames r = [?f] @ [g]))"
    using log_recovers [of "[9]" "[?f]" ?l "?b @ take 3 (encoded AuditEvent 2 [7] [9])" ?g 31 "[Some 1]" True]
    by (auto simp: frame_bytes_def log_open_def encoded_length MAX_LOG_BYTES_def surviving_sequence_after_def scan_all_short)
  then show ?thesis by auto
qed

end
