(* ===== verification/Utf8.thy ===== *)
theory Utf8
  imports Prelude
begin

text \<open>
  UTF-8 as the Rust standard library has it: what \<open>str::from_utf8\<close> accepts, the characters of a string and the bytes of
  a character. A \<open>String\<close> is its UTF-8 bytes, as elsewhere in the development.
\<close>

abbreviation ord :: "char \<Rightarrow> nat" where "ord c \<equiv> of_char c"

text \<open>The length of a sequence from its first byte (\<open>utf8_len\<close> of \<open>wire-json/src/parse.rs\<close>).\<close>

definition utf8_len :: "char \<Rightarrow> nat" where
  "utf8_len a =
     (if ord a \<le> 0x7F then 1 else if 0xC0 \<le> ord a \<and> ord a \<le> 0xDF then 2
      else if 0xE0 \<le> ord a \<and> ord a \<le> 0xEF then 3 else if 0xF0 \<le> ord a \<and> ord a \<le> 0xF7 then 4 else 1)"

lemma utf8_len_pos [simp]: "0 < utf8_len a"
  by (simp add: utf8_len_def)

definition continuation :: "char \<Rightarrow> bool" where
  "continuation b \<longleftrightarrow> 0x80 \<le> ord b \<and> ord b \<le> 0xBF"

text \<open>One well-formed sequence: no overlong form, no surrogate, nothing above the last code point.\<close>

fun utf8_char :: "string \<Rightarrow> bool" where
  "utf8_char [a] = (ord a \<le> 0x7F)"
| "utf8_char [a, b] = (0xC2 \<le> ord a \<and> ord a \<le> 0xDF \<and> continuation b)"
| "utf8_char [a, b, c] =
     (0xE0 \<le> ord a \<and> ord a \<le> 0xEF \<and> continuation b \<and> continuation c \<and>
      (ord a = 0xE0 \<longrightarrow> 0xA0 \<le> ord b) \<and> (ord a = 0xED \<longrightarrow> ord b \<le> 0x9F))"
| "utf8_char [a, b, c, d] =
     (0xF0 \<le> ord a \<and> ord a \<le> 0xF4 \<and> continuation b \<and> continuation c \<and> continuation d \<and>
      (ord a = 0xF0 \<longrightarrow> 0x90 \<le> ord b) \<and> (ord a = 0xF4 \<longrightarrow> ord b \<le> 0x8F))"
| "utf8_char _ = False"

text \<open>The characters of a string, each as its bytes.\<close>

function utf8_chars :: "string \<Rightarrow> string list" where
  "utf8_chars [] = []"
| "utf8_chars (a # s) = take (utf8_len a) (a # s) # utf8_chars (drop (utf8_len a) (a # s))"
  by pat_completeness auto
termination by (relation "measure length") auto

definition utf8_valid :: "string \<Rightarrow> bool" where
  "utf8_valid s = list_all utf8_char (utf8_chars s)"

lemma utf8_chars_concat [simp]: "concat (utf8_chars s) = s"
  by (induction s rule: utf8_chars.induct) simp_all

lemma utf8_char_length:
  assumes "utf8_char (a # s)"
  shows "length (a # s) = utf8_len a"
  using assms by (cases "a # s" rule: utf8_char.cases) (auto simp: utf8_len_def)

lemma utf8_chars_append:
  assumes "utf8_valid s"
  shows "utf8_chars (s @ t) = utf8_chars s @ utf8_chars t"
  using assms
proof (induction s rule: utf8_chars.induct)
  case (2 a s)
  have c: "utf8_char (take (utf8_len a) (a # s))" "utf8_valid (drop (utf8_len a) (a # s))"
    using 2(2) by (auto simp: utf8_valid_def)
  then obtain s' where "take (utf8_len a) (a # s) = a # s'" by (cases "utf8_len a") simp_all
  then have l: "utf8_len a \<le> length (a # s)"
    using utf8_char_length [of a s'] c(1) by (metis length_take min.cobounded1)
  have "utf8_chars (a # s @ t) = take (utf8_len a) ((a # s) @ t) # utf8_chars (drop (utf8_len a) ((a # s) @ t))" by simp
  also have "\<dots> = take (utf8_len a) (a # s) # utf8_chars (drop (utf8_len a) (a # s) @ t)" using l by (simp del: append_Cons)
  finally show ?case using 2(1) [OF c(2)] by simp
qed simp

lemma utf8_valid_append [simp]: "utf8_valid s \<Longrightarrow> utf8_valid (s @ t) = utf8_valid t"
  by (simp add: utf8_valid_def utf8_chars_append)

lemma utf8_valid_char: "utf8_char c \<Longrightarrow> utf8_chars c = [c] \<and> utf8_valid c"
proof (cases c)
  case (Cons a s)
  assume "utf8_char c"
  then show ?thesis using utf8_char_length [of a s] Cons by (simp add: utf8_valid_def)
qed simp

lemma utf8_valid_Nil [simp]: "utf8_valid []"
  by (simp add: utf8_valid_def)

lemma utf8_valid_ascii: "ord a \<le> 0x7F \<Longrightarrow> utf8_valid (a # s) = utf8_valid s"
  by (simp add: utf8_valid_def utf8_len_def)

lemma utf8_valid_concat: "list_all utf8_valid ss \<Longrightarrow> utf8_valid (concat ss)"
  by (induction ss) simp_all

lemma utf8_valid_ascii_all: "list_all (\<lambda>a. ord a \<le> 0x7F) s \<Longrightarrow> utf8_valid s"
  by (induction s) (simp_all add: utf8_valid_ascii)

text \<open>The bytes of a code point.\<close>

definition utf8_encode :: "nat \<Rightarrow> string" where
  "utf8_encode cp =
     (if cp < 0x80 then [char_of cp]
      else if cp < 0x800 then [char_of (0xC0 + cp div 64), char_of (0x80 + cp mod 64)]
      else if cp < 0x10000 then [char_of (0xE0 + cp div 4096), char_of (0x80 + cp div 64 mod 64), char_of (0x80 + cp mod 64)]
      else [char_of (0xF0 + cp div 262144), char_of (0x80 + cp div 4096 mod 64), char_of (0x80 + cp div 64 mod 64),
            char_of (0x80 + cp mod 64)])"

text \<open>\<open>char::from_u32\<close>: every code point but the surrogates.\<close>

definition from_u32 :: "nat \<Rightarrow> string option" where
  "from_u32 cp = (if cp < 0xD800 \<or> 0xE000 \<le> cp \<and> cp < 0x110000 then Some (utf8_encode cp) else None)"

lemma ord_char_of [simp]: "n < 256 \<Longrightarrow> ord (char_of n) = n"
  by simp

lemma split_64:
  fixes q lo hi :: nat
  assumes "q < 64 * (hi + 1)"
  shows "q div 64 \<le> hi" "64 * d + lo \<le> q \<Longrightarrow> q div 64 = d \<Longrightarrow> lo \<le> q mod 64" "q < 64 * d + lo \<Longrightarrow> q div 64 = d \<Longrightarrow> q mod 64 < lo"
proof -
  have e: "q = 64 * (q div 64) + q mod 64" by simp
  show "q div 64 \<le> hi" using less_mult_imp_div_less [of q "hi + 1" 64] assms by (simp add: mult.commute)
  show "64 * d + lo \<le> q \<Longrightarrow> q div 64 = d \<Longrightarrow> lo \<le> q mod 64" using e by simp
  show "q < 64 * d + lo \<Longrightarrow> q div 64 = d \<Longrightarrow> q mod 64 < lo" using e by simp
qed

lemma from_u32_char:
  assumes "from_u32 cp = Some s"
  shows "utf8_char s"
proof -
  have cp: "cp < 0xD800 \<or> 0xE000 \<le> cp \<and> cp < 0x110000" and s: "s = utf8_encode cp"
    using assms by (auto simp: from_u32_def split: if_splits)
  have m64: "n mod 64 \<le> 63" for n :: nat using mod_less_divisor [of 64 n] by linarith
  consider "cp < 0x80" | "0x80 \<le> cp" "cp < 0x800" | "0x800 \<le> cp" "cp < 0x10000" | "0x10000 \<le> cp" by linarith
  then show ?thesis
  proof cases
    case 1
    then show ?thesis by (simp add: s utf8_encode_def)
  next
    case 2
    then have "2 \<le> cp div 64" "cp div 64 < 32" by linarith+
    then show ?thesis using 2 by (simp add: s utf8_encode_def continuation_def)
  next
    case 3
    have a: "32 \<le> cp div 64" "cp div 64 < 1024" "cp div 64 < 864 \<or> 896 \<le> cp div 64" "cp div 4096 = cp div 64 div 64"
      using 3 cp by (auto simp: div_mult2_eq [symmetric] less_mult_imp_div_less)
    have d: "cp div 4096 \<le> 15" "cp div 4096 = 0 \<longrightarrow> 32 \<le> cp div 64 mod 64" "cp div 4096 = 13 \<longrightarrow> cp div 64 mod 64 < 32"
      using split_64(1) [where q = "cp div 64" and hi = 15] split_64(2) [where q = "cp div 64" and hi = 15 and d = 0 and lo = 32]
        split_64(3) [where q = "cp div 64" and hi = 15 and d = 13 and lo = 32] div_le_mono [of 896 "cp div 64" 64] a by auto
    then show ?thesis using 3 m64 by (auto simp: s utf8_encode_def continuation_def)
  next
    case 4
    have a: "16 \<le> cp div 4096" "cp div 4096 < 272" "cp div 262144 = cp div 4096 div 64"
      using 4 cp by (simp_all add: div_mult2_eq [symmetric] less_mult_imp_div_less)
    have d: "cp div 262144 \<le> 4" "cp div 262144 = 0 \<longrightarrow> 16 \<le> cp div 4096 mod 64" "cp div 262144 = 4 \<longrightarrow> cp div 4096 mod 64 < 16"
      using split_64(1) [where q = "cp div 4096" and hi = 4] split_64(2) [where q = "cp div 4096" and hi = 4 and d = 0 and lo = 16]
        split_64(3) [where q = "cp div 4096" and hi = 4 and d = 4 and lo = 16] a by auto
    then show ?thesis using 4 m64 by (auto simp: s utf8_encode_def continuation_def)
  qed
qed

end
