(* ===== verification/Json.thy ===== *)
theory Json
  imports Utf8
begin

text \<open>
  JSON values, their limits and their serialization (\<open>wire-json/src/value.rs\<close>, \<open>limits.rs\<close>, \<open>write.rs\<close>).

  Double-precision numbers are an abstract type: \<open>f64_ops\<close> holds what the crate uses of them (\<open>parse::<f64>\<close>, the
  \<open>Debug\<close> rendering, \<open>is_finite\<close>, conversion from an integer).
\<close>

section \<open>Limits\<close>

record limits =
  max_depth :: nat
  max_string_bytes :: nat
  max_input_bytes :: nat
  max_array_items :: nat
  max_object_entries :: nat
  reject_duplicate_keys :: bool

definition LIMITS_DEFAULT :: limits where
  "LIMITS_DEFAULT =
     \<lparr>max_depth = 64, max_string_bytes = 8 * 1024 * 1024, max_input_bytes = 16 * 1024 * 1024,
      max_array_items = 100000, max_object_entries = 10000, reject_duplicate_keys = True\<rparr>"

definition LIMITS_SMALL :: limits where
  "LIMITS_SMALL =
     \<lparr>max_depth = 32, max_string_bytes = 64 * 1024, max_input_bytes = 1024 * 1024,
      max_array_items = 10000, max_object_entries = 2000, reject_duplicate_keys = True\<rparr>"

definition LIMITS_STREAM_EVENT :: limits where
  "LIMITS_STREAM_EVENT =
     \<lparr>max_depth = 32, max_string_bytes = 1024 * 1024, max_input_bytes = 2 * 1024 * 1024,
      max_array_items = 4096, max_object_entries = 512, reject_duplicate_keys = True\<rparr>"

definition with_max_input_bytes :: "limits \<Rightarrow> nat \<Rightarrow> limits" where
  "with_max_input_bytes l n = l\<lparr>max_input_bytes := n\<rparr>"

definition with_max_depth :: "limits \<Rightarrow> nat \<Rightarrow> limits" where
  "with_max_depth l n = l\<lparr>max_depth := n\<rparr>"

section \<open>Values\<close>

datatype 'f number = NInt int | NFloat 'f

datatype 'f json =
    JNull
  | JBool bool
  | JNumber "'f number"
  | JString string
  | JArray "'f json list"
  | JObject "(string \<times> 'f json) list"

record 'f f64_ops =
  f64_parse :: "string \<Rightarrow> 'f option"
  f64_debug :: "'f \<Rightarrow> string"
  f64_finite :: "'f \<Rightarrow> bool"
  f64_of_int :: "int \<Rightarrow> 'f"

fun number_as_i64 :: "'f number \<Rightarrow> int option" where
  "number_as_i64 (NInt i) = Some i"
| "number_as_i64 (NFloat _) = None"

fun number_as_u64 :: "'f number \<Rightarrow> nat option" where
  "number_as_u64 (NInt i) = (if 0 \<le> i then Some (nat i) else None)"
| "number_as_u64 (NFloat _) = None"

fun number_as_f64 :: "'f f64_ops \<Rightarrow> 'f number \<Rightarrow> 'f" where
  "number_as_f64 F (NInt i) = f64_of_int F i"
| "number_as_f64 F (NFloat f) = f"

fun number_is_int :: "'f number \<Rightarrow> bool" where
  "number_is_int (NInt _) = True"
| "number_is_int (NFloat _) = False"

text \<open>Objects are their entries in insertion order; lookup finds the first occurrence.\<close>

definition object_push :: "string \<Rightarrow> 'v \<Rightarrow> (string \<times> 'v) list \<Rightarrow> (string \<times> 'v) list" where
  "object_push k v es = es @ [(k, v)]"

definition object_push_opt :: "string \<Rightarrow> 'v option \<Rightarrow> (string \<times> 'v) list \<Rightarrow> (string \<times> 'v) list" where
  "object_push_opt k ov es = (case ov of Some v \<Rightarrow> es @ [(k, v)] | None \<Rightarrow> es)"

definition object_get :: "(string \<times> 'v) list \<Rightarrow> string \<Rightarrow> 'v option" where
  "object_get es k = map_option snd (List.find (\<lambda>(k', _). k' = k) es)"

definition object_contains_key :: "(string \<times> 'v) list \<Rightarrow> string \<Rightarrow> bool" where
  "object_contains_key es k = (object_get es k \<noteq> None)"

record type_error =
  te_path :: string
  te_expected :: string
  te_found :: string

fun type_name :: "'f json \<Rightarrow> string" where
  "type_name JNull = ''null''"
| "type_name (JBool _) = ''boolean''"
| "type_name (JNumber _) = ''number''"
| "type_name (JString _) = ''string''"
| "type_name (JArray _) = ''array''"
| "type_name (JObject _) = ''object''"

fun as_str :: "'f json \<Rightarrow> string option" where
  "as_str (JString s) = Some s" | "as_str _ = None"

fun as_bool :: "'f json \<Rightarrow> bool option" where
  "as_bool (JBool b) = Some b" | "as_bool _ = None"

fun as_number :: "'f json \<Rightarrow> 'f number option" where
  "as_number (JNumber n) = Some n" | "as_number _ = None"

definition as_i64 :: "'f json \<Rightarrow> int option" where
  "as_i64 v = Option.bind (as_number v) number_as_i64"

definition as_u64 :: "'f json \<Rightarrow> nat option" where
  "as_u64 v = Option.bind (as_number v) number_as_u64"

definition as_f64 :: "'f f64_ops \<Rightarrow> 'f json \<Rightarrow> 'f option" where
  "as_f64 F v = map_option (number_as_f64 F) (as_number v)"

fun as_array :: "'f json \<Rightarrow> 'f json list option" where
  "as_array (JArray a) = Some a" | "as_array _ = None"

fun as_object :: "'f json \<Rightarrow> (string \<times> 'f json) list option" where
  "as_object (JObject o') = Some o'" | "as_object _ = None"

definition is_null :: "'f json \<Rightarrow> bool" where
  "is_null v = (v = JNull)"

definition json_get :: "'f json \<Rightarrow> string \<Rightarrow> 'f json option" where
  "json_get v k = Option.bind (as_object v) (\<lambda>es. object_get es k)"

text \<open>An explicit \<open>null\<close> reads as absent.\<close>

definition get_present :: "'f json \<Rightarrow> string \<Rightarrow> 'f json option" where
  "get_present v k = (case json_get v k of Some JNull \<Rightarrow> None | r \<Rightarrow> r)"

definition json_index :: "'f json \<Rightarrow> nat \<Rightarrow> 'f json option" where
  "json_index v i = Option.bind (as_array v) (\<lambda>a. if i < length a then Some (a ! i) else None)"

text \<open>The strict accessors: a required field, an optional one, and what they expect.\<close>

definition mismatch :: "string \<Rightarrow> string \<Rightarrow> 'f json option \<Rightarrow> type_error" where
  "mismatch k expected found =
     \<lparr>te_path = k, te_expected = expected, te_found = (case found of None \<Rightarrow> ''missing'' | Some v \<Rightarrow> type_name v)\<rparr>"

definition required :: "string \<Rightarrow> ('f json \<Rightarrow> 'a option) \<Rightarrow> 'f json \<Rightarrow> string \<Rightarrow> type_error + 'a" where
  "required expected read v k =
     (case Option.bind (json_get v k) read of Some x \<Rightarrow> Inr x | None \<Rightarrow> Inl (mismatch k expected (json_get v k)))"

definition optional :: "string \<Rightarrow> ('f json \<Rightarrow> 'a option) \<Rightarrow> 'f json \<Rightarrow> string \<Rightarrow> type_error + 'a option" where
  "optional expected read v k =
     (case get_present v k of None \<Rightarrow> Inr None
      | Some w \<Rightarrow> (case read w of Some x \<Rightarrow> Inr (Some x) | None \<Rightarrow> Inl (mismatch k expected (Some w))))"

definition field_str :: "'f json \<Rightarrow> string \<Rightarrow> type_error + string" where
  "field_str = required ''string'' as_str"

definition opt_field_str :: "'f json \<Rightarrow> string \<Rightarrow> type_error + string option" where
  "opt_field_str = optional ''string'' as_str"

definition field_i64 :: "'f json \<Rightarrow> string \<Rightarrow> type_error + int" where
  "field_i64 = required ''integer'' as_i64"

definition opt_field_i64 :: "'f json \<Rightarrow> string \<Rightarrow> type_error + int option" where
  "opt_field_i64 = optional ''integer'' as_i64"

definition opt_field_f64 :: "'f f64_ops \<Rightarrow> 'f json \<Rightarrow> string \<Rightarrow> type_error + 'f option" where
  "opt_field_f64 F = optional ''number'' (as_f64 F)"

definition opt_field_bool :: "'f json \<Rightarrow> string \<Rightarrow> type_error + bool option" where
  "opt_field_bool = optional ''boolean'' as_bool"

definition field_array :: "'f json \<Rightarrow> string \<Rightarrow> type_error + 'f json list" where
  "field_array = required ''array'' as_array"

definition opt_field_array :: "'f json \<Rightarrow> string \<Rightarrow> type_error + 'f json list option" where
  "opt_field_array = optional ''array'' as_array"

definition opt_field_object :: "'f json \<Rightarrow> string \<Rightarrow> type_error + (string \<times> 'f json) list option" where
  "opt_field_object = optional ''object'' as_object"

definition json_of_u64 :: "'f f64_ops \<Rightarrow> nat \<Rightarrow> 'f json" where
  "json_of_u64 F n = JNumber (if int n \<le> i64_max then NInt (int n) else NFloat (f64_of_int F (int n)))"

text \<open>Sorting every object by key, which is a stable sort; the order of strings is that of their bytes.\<close>

fun sort_keys :: "'f json \<Rightarrow> 'f json" where
  "sort_keys (JArray xs) = JArray (map sort_keys xs)"
| "sort_keys (JObject es) = JObject (sort_key fst (map (\<lambda>(k, v). (k, sort_keys v)) es))"
| "sort_keys v = v"

section \<open>Serialization\<close>

definition QUOTE :: char where "QUOTE = CHR 0x22"
definition BACKSLASH :: char where "BACKSLASH = CHR 0x5C"

definition json_hex_digit :: "nat \<Rightarrow> char" where
  "json_hex_digit d = char_of (if d < 10 then 48 + d else 87 + d)"

text \<open>One character of a string literal, given by its bytes.\<close>

definition write_char :: "string \<Rightarrow> string" where
  "write_char ch =
     (if ch = [QUOTE] then [BACKSLASH, QUOTE]
      else if ch = [BACKSLASH] then [BACKSLASH, BACKSLASH]
      else if ch = [CHR 0x0A] then [BACKSLASH, CHR ''n'']
      else if ch = [CHR 0x0D] then [BACKSLASH, CHR ''r'']
      else if ch = [CHR 0x09] then [BACKSLASH, CHR ''t'']
      else if ch = [CHR 0x08] then [BACKSLASH, CHR ''b'']
      else if ch = [CHR 0x0C] then [BACKSLASH, CHR ''f'']
      else if length ch = 1 \<and> ord (hd ch) < 0x20
        then BACKSLASH # CHR ''u'' # map (\<lambda>d. json_hex_digit (ord (hd ch) div d mod 16)) [4096, 256, 16, 1]
      else if ch = utf8_encode 0x2028 then BACKSLASH # ''u2028''
      else if ch = utf8_encode 0x2029 then BACKSLASH # ''u2029''
      else ch)"

definition write_string :: "string \<Rightarrow> string" where
  "write_string s = [QUOTE] @ concat (map write_char (utf8_chars s)) @ [QUOTE]"

text \<open>The digits of an \<open>i64\<close>, least significant first into a buffer that is then reversed.\<close>

fun itoa_digits :: "nat \<Rightarrow> nat \<Rightarrow> string" where
  "itoa_digits 0 n = []"
| "itoa_digits (Suc slots) n = (if n = 0 then [] else char_of (48 + n mod 10) # itoa_digits slots (n div 10))"

definition itoa :: "int \<Rightarrow> string" where
  "itoa v = (if v = 0 then ''0'' else (if v < 0 then ''-'' else []) @ rev (itoa_digits 20 (nat \<bar>v\<bar>)))"

definition write_number :: "'f f64_ops \<Rightarrow> 'f number \<Rightarrow> string" where
  "write_number F n = (case n of NInt i \<Rightarrow> itoa i | NFloat f \<Rightarrow> if f64_finite F f then f64_debug F f else ''null'')"

text \<open>Items and entries with commas between them.\<close>

definition commas :: "string list \<Rightarrow> string" where
  "commas xs = (case xs of [] \<Rightarrow> [] | y # ys \<Rightarrow> y @ concat (map (\<lambda>s. CHR '','' # s) ys))"

fun write_value :: "'f f64_ops \<Rightarrow> 'f json \<Rightarrow> string" where
  "write_value F JNull = ''null''"
| "write_value F (JBool b) = (if b then ''true'' else ''false'')"
| "write_value F (JNumber n) = write_number F n"
| "write_value F (JString s) = write_string s"
| "write_value F (JArray items) = ''['' @ commas (map (write_value F) items) @ '']''"
| "write_value F (JObject es) = ''{'' @ commas (map (\<lambda>(k, v). write_string k @ '':'' @ write_value F v) es) @ ''}''"

definition to_string :: "'f f64_ops \<Rightarrow> 'f json \<Rightarrow> string" where
  "to_string F v = write_value F v"

definition to_canonical_string :: "'f f64_ops \<Rightarrow> 'f json \<Rightarrow> string" where
  "to_canonical_string F v = to_string F (sort_keys v)"

definition escape_string :: "string \<Rightarrow> string" where
  "escape_string s = write_string s"

end
