(* ===== verification/Json_Parse.thy ===== *)
theory Json_Parse
  imports Json
begin

text \<open>
  The strict JSON parser (\<open>wire-json/src/parse.rs\<close>). The parser's position in the input is a pair: the offset, which
  only the errors report, and the input from there on.
\<close>

section \<open>Errors and position\<close>

datatype json_error_kind =
    InvalidUtf8 | InputTooLarge | EmptyInput | UnexpectedEnd | UnexpectedByte | TrailingContent | DepthExceeded
  | StringTooLong | ArrayTooLong | ObjectTooLarge | DuplicateKey | ControlCharacterInString | InvalidEscape
  | InvalidUnicodeEscape | InvalidNumber | NumberOutOfRange | ByteOrderMark

fun json_error_code :: "json_error_kind \<Rightarrow> string" where
  "json_error_code InvalidUtf8 = ''invalid_utf8''"
| "json_error_code InputTooLarge = ''input_too_large''"
| "json_error_code EmptyInput = ''empty_input''"
| "json_error_code UnexpectedEnd = ''unexpected_end''"
| "json_error_code UnexpectedByte = ''unexpected_byte''"
| "json_error_code TrailingContent = ''trailing_content''"
| "json_error_code DepthExceeded = ''depth_exceeded''"
| "json_error_code StringTooLong = ''string_too_long''"
| "json_error_code ArrayTooLong = ''array_too_long''"
| "json_error_code ObjectTooLarge = ''object_too_large''"
| "json_error_code DuplicateKey = ''duplicate_key''"
| "json_error_code ControlCharacterInString = ''control_character_in_string''"
| "json_error_code InvalidEscape = ''invalid_escape''"
| "json_error_code InvalidUnicodeEscape = ''invalid_unicode_escape''"
| "json_error_code InvalidNumber = ''invalid_number''"
| "json_error_code NumberOutOfRange = ''number_out_of_range''"
| "json_error_code ByteOrderMark = ''byte_order_mark''"

record json_error =
  je_kind :: json_error_kind
  je_offset :: nat

definition fail_at :: "json_error_kind \<Rightarrow> nat \<Rightarrow> json_error + 'a" where
  "fail_at k p = Inl \<lparr>je_kind = k, je_offset = p\<rparr>"

definition is_ws :: "char \<Rightarrow> bool" where
  "is_ws c = (c = CHR '' '' \<or> c = CHR 0x09 \<or> c = CHR 0x0A \<or> c = CHR 0x0D)"

fun skip_ws :: "nat \<Rightarrow> string \<Rightarrow> nat \<times> string" where
  "skip_ws p [] = (p, [])"
| "skip_ws p (c # cs) = (if is_ws c then skip_ws (p + 1) cs else (p, c # cs))"

lemma skip_ws_length: "length (snd (skip_ws p s)) \<le> length s"
  by (induction p s rule: skip_ws.induct) (auto intro: le_SucI)

definition expect_byte :: "char \<Rightarrow> nat \<Rightarrow> string \<Rightarrow> json_error + nat \<times> string" where
  "expect_byte b p s =
     (case s of [] \<Rightarrow> fail_at UnexpectedEnd p
      | c # cs \<Rightarrow> if c = b then Inr (p + 1, cs) else fail_at UnexpectedByte p)"

definition parse_literal :: "string \<Rightarrow> 'v \<Rightarrow> nat \<Rightarrow> string \<Rightarrow> json_error + 'v \<times> nat \<times> string" where
  "parse_literal word v p s =
     (if length s < length word then fail_at UnexpectedEnd p
      else if take (length word) s \<noteq> word then fail_at UnexpectedByte p
      else Inr (v, p + length word, drop (length word) s))"

section \<open>Strings\<close>

definition hex_digit_value :: "char \<Rightarrow> nat option" where
  "hex_digit_value c =
     (if CHR ''0'' \<le> c \<and> c \<le> CHR ''9'' then Some (ord c - 48)
      else if CHR ''a'' \<le> c \<and> c \<le> CHR ''f'' then Some (ord c - 97 + 10)
      else if CHR ''A'' \<le> c \<and> c \<le> CHR ''F'' then Some (ord c - 65 + 10)
      else None)"

fun parse_hex :: "nat \<Rightarrow> nat \<Rightarrow> nat \<Rightarrow> string \<Rightarrow> json_error + nat \<times> nat \<times> string" where
  "parse_hex 0 v p s = Inr (v, p, s)"
| "parse_hex (Suc n) v p s =
     (case s of [] \<Rightarrow> fail_at UnexpectedEnd p
      | c # cs \<Rightarrow> (case hex_digit_value c of None \<Rightarrow> fail_at InvalidUnicodeEscape p
                   | Some d \<Rightarrow> parse_hex n (v * 16 + d) (p + 1) cs))"

definition parse_hex4 :: "nat \<Rightarrow> string \<Rightarrow> json_error + nat \<times> nat \<times> string" where
  "parse_hex4 p s = parse_hex 4 0 p s"

text \<open>The character of a \<open>\u\<close> escape, as its bytes.\<close>

definition parse_unicode_escape :: "nat \<Rightarrow> string \<Rightarrow> json_error + string \<times> nat \<times> string" where
  "parse_unicode_escape p s =
     (case parse_hex4 p s of Inl e \<Rightarrow> Inl e
      | Inr (v1, p, s) \<Rightarrow>
          if 0xD800 \<le> v1 \<and> v1 < 0xDC00 then
            (case s of
               c # s' \<Rightarrow>
                 if c \<noteq> BACKSLASH then fail_at InvalidUnicodeEscape p
                 else (case s' of
                         d # s'' \<Rightarrow>
                           if d \<noteq> CHR ''u'' then fail_at InvalidUnicodeEscape (p + 1)
                           else (case parse_hex4 (p + 2) s'' of Inl e \<Rightarrow> Inl e
                                 | Inr (v2, p, s) \<Rightarrow>
                                     if \<not> (0xDC00 \<le> v2 \<and> v2 < 0xE000) then fail_at InvalidUnicodeEscape p
                                     else (case from_u32 (0x10000 + (v1 - 0xD800) * 1024 + (v2 - 0xDC00)) of
                                             Some ch \<Rightarrow> Inr (ch, p, s) | None \<Rightarrow> fail_at InvalidUnicodeEscape p))
                       | [] \<Rightarrow> fail_at InvalidUnicodeEscape (p + 1))
             | [] \<Rightarrow> fail_at InvalidUnicodeEscape p)
          else if 0xDC00 \<le> v1 \<and> v1 < 0xE000 then fail_at InvalidUnicodeEscape p
          else (case from_u32 v1 of Some ch \<Rightarrow> Inr (ch, p, s) | None \<Rightarrow> fail_at InvalidUnicodeEscape p))"

lemma parse_hex_length: "parse_hex n v p s = Inr (v', p', s') \<Longrightarrow> length s' + n = length s"
  by (induction n v p s rule: parse_hex.induct) (auto simp: fail_at_def split: list.splits option.splits)

lemma unicode_escape_length: "parse_unicode_escape p s = Inr (ch, p', s') \<Longrightarrow> length s' < length s"
  by (auto simp: parse_unicode_escape_def parse_hex4_def fail_at_def split: sum.splits list.splits if_splits option.splits
      dest!: parse_hex_length)

definition simple_escape :: "char \<Rightarrow> char option" where
  "simple_escape e =
     (if e = QUOTE \<or> e = BACKSLASH \<or> e = CHR ''/'' then Some e
      else if e = CHR ''b'' then Some (CHR 0x08) else if e = CHR ''f'' then Some (CHR 0x0C)
      else if e = CHR ''n'' then Some (CHR 0x0A) else if e = CHR ''r'' then Some (CHR 0x0D)
      else if e = CHR ''t'' then Some (CHR 0x09) else None)"

text \<open>
  What has been decoded so far: a buffer once an escape was seen, before that the input from the string's start.
\<close>

definition decoded_so_far :: "string option \<Rightarrow> string \<Rightarrow> nat \<Rightarrow> json_error + string" where
  "decoded_so_far out raw p =
     (case out of Some s \<Rightarrow> Inr s | None \<Rightarrow> if utf8_valid raw then Inr raw else fail_at InvalidUtf8 p)"

text \<open>
  One turn of the loop of \<open>parse_string\<close>: it returns, or goes on with a buffer and a position. \<open>whole\<close> is the input
  from the string's start at \<open>start\<close>.
\<close>

datatype turn_result = Return "json_error + string \<times> nat \<times> string" | Continue "string option" nat string

definition close_turn :: "limits \<Rightarrow> string \<Rightarrow> nat \<Rightarrow> string \<Rightarrow> turn_result" where
  "close_turn L s p bs = Return (if length s > max_string_bytes L then fail_at StringTooLong p else Inr (s, p + 1, bs))"

definition escape_turn :: "limits \<Rightarrow> string \<Rightarrow> nat \<Rightarrow> string \<Rightarrow> turn_result" where
  "escape_turn L buf p bs =
     (if length buf > max_string_bytes L then Return (fail_at StringTooLong p)
      else case bs of [] \<Rightarrow> Return (fail_at UnexpectedEnd (p + 1))
      | e # bs' \<Rightarrow>
          (case simple_escape e of
             Some ch \<Rightarrow> Continue (Some (buf @ [ch])) (p + 2) bs'
           | None \<Rightarrow>
               if e = CHR ''u'' then
                 (case parse_unicode_escape (p + 2) bs' of Inl err \<Rightarrow> Return (Inl err)
                  | Inr (ch, p', s') \<Rightarrow> Continue (Some (buf @ ch)) p' s')
               else Return (fail_at InvalidEscape (p + 1))))"

definition plain_turn :: "limits \<Rightarrow> nat \<Rightarrow> string option \<Rightarrow> nat \<Rightarrow> char \<Rightarrow> string \<Rightarrow> turn_result" where
  "plain_turn L start out p b bs =
     (let len = (case out of None \<Rightarrow> 1 | Some _ \<Rightarrow> utf8_len b); chunk = take len (b # bs) in
      if out \<noteq> None \<and> (length chunk < len \<or> \<not> utf8_valid chunk) then Return (fail_at InvalidUtf8 p)
      else if p + len - start > max_string_bytes L then Return (fail_at StringTooLong (p + len))
      else Continue (map_option (\<lambda>s. s @ chunk) out) (p + len) (drop len (b # bs)))"

definition string_turn :: "limits \<Rightarrow> nat \<Rightarrow> string \<Rightarrow> string option \<Rightarrow> nat \<Rightarrow> string \<Rightarrow> turn_result" where
  "string_turn L start whole out p s =
     (case s of [] \<Rightarrow> Return (fail_at UnexpectedEnd p)
      | b # bs \<Rightarrow>
          if b = QUOTE \<or> b = BACKSLASH then
            (case decoded_so_far out (take (p - start) whole) p of Inl e \<Rightarrow> Return (Inl e)
             | Inr buf \<Rightarrow> if b = QUOTE then close_turn L buf p bs else escape_turn L buf p bs)
          else if ord b \<le> 0x1F then Return (fail_at ControlCharacterInString p)
          else plain_turn L start out p b bs)"

lemma string_turn_length: "string_turn L start whole out p s = Continue out' p' s' \<Longrightarrow> length s' < length s"
  by (auto simp: string_turn_def close_turn_def escape_turn_def plain_turn_def Let_def
      split: list.splits sum.splits if_splits option.splits dest!: unicode_escape_length)

function string_loop :: "limits \<Rightarrow> nat \<Rightarrow> string \<Rightarrow> string option \<Rightarrow> nat \<Rightarrow> string \<Rightarrow> json_error + string \<times> nat \<times> string" where
  "string_loop L start whole out p s =
     (case string_turn L start whole out p s of Return r \<Rightarrow> r | Continue out' p' s' \<Rightarrow> string_loop L start whole out' p' s')"
  by auto
termination
  by (relation "measure (\<lambda>(L, start, whole, out, p, s). length s)") (auto dest: string_turn_length)

declare string_loop.simps [simp del]

definition parse_string :: "limits \<Rightarrow> nat \<Rightarrow> string \<Rightarrow> json_error + string \<times> nat \<times> string" where
  "parse_string L p s =
     (case expect_byte QUOTE p s of Inl e \<Rightarrow> Inl e | Inr (p, s) \<Rightarrow> string_loop L p s None p s)"

lemma string_return_length: "string_turn L start whole out p s = Return (Inr (t, p', s')) \<Longrightarrow> length s' < length s"
  by (auto simp: string_turn_def close_turn_def escape_turn_def plain_turn_def Let_def fail_at_def
      split: list.splits sum.splits if_splits option.splits)

lemma string_loop_length: "string_loop L start whole out p s = Inr (t, p', s') \<Longrightarrow> length s' < length s"
proof (induction L start whole out p s rule: string_loop.induct)
  case (1 L start whole out p s)
  show ?case
  proof (cases "string_turn L start whole out p s")
    case (Return r)
    then show ?thesis using 1(2) string_return_length by (simp add: string_loop.simps [of L start whole out p s])
  next
    case (Continue out' p1 s1)
    then show ?thesis
      using 1 string_turn_length [OF Continue] by (simp add: string_loop.simps [of L start whole out p s])
  qed
qed

lemma parse_string_length: "parse_string L p s = Inr (t, p', s') \<Longrightarrow> length s' < length s"
  by (auto simp: parse_string_def expect_byte_def fail_at_def split: sum.splits list.splits if_splits dest!: string_loop_length)

section \<open>Numbers\<close>

definition digits :: "string \<Rightarrow> string" where
  "digits s = takeWhile is_ascii_digit s"

text \<open>
  The three parts of a number as the grammar has them: how many bytes each takes, or that it is malformed.
\<close>

definition int_part :: "string \<Rightarrow> nat option" where
  "int_part s =
     (case s of [] \<Rightarrow> None
      | c # cs \<Rightarrow>
          if c = CHR ''0'' then (if cs \<noteq> [] \<and> is_ascii_digit (hd cs) then None else Some 1)
          else if is_ascii_digit c then Some (length (digits s)) else None)"

definition frac_part :: "string \<Rightarrow> nat option" where
  "frac_part s =
     (case s of c # cs \<Rightarrow> if c = CHR ''.'' then (if digits cs = [] then None else Some (1 + length (digits cs))) else Some 0
      | [] \<Rightarrow> Some 0)"

definition exp_part :: "string \<Rightarrow> nat option" where
  "exp_part s =
     (case s of
        c # cs \<Rightarrow>
          if c = CHR ''e'' \<or> c = CHR ''E'' then
            (let sign = (case cs of d # _ \<Rightarrow> if d = CHR ''+'' \<or> d = CHR ''-'' then 1 else 0 | [] \<Rightarrow> 0);
                 ds = digits (drop sign cs)
             in if ds = [] then None else Some (1 + sign + length ds))
          else Some 0
      | [] \<Rightarrow> Some 0)"

text \<open>The length of the number at the front of the input, and whether it has a fraction or an exponent.\<close>

definition scan_number :: "string \<Rightarrow> (nat \<times> bool) option" where
  "scan_number s =
     (let m = (case s of c # _ \<Rightarrow> if c = CHR ''-'' then 1 else 0 | [] \<Rightarrow> 0) in
      case int_part (drop m s) of None \<Rightarrow> None
      | Some i \<Rightarrow>
          (case frac_part (drop (m + i) s) of None \<Rightarrow> None
           | Some f \<Rightarrow>
               (case exp_part (drop (m + i + f) s) of None \<Rightarrow> None
                | Some x \<Rightarrow> Some (m + i + f + x, f > 0 \<or> x > 0))))"

text \<open>\<open>text.parse::<i64>()\<close> on a text of that grammar: the value, when it is in range.\<close>

definition parse_i64 :: "string \<Rightarrow> int option" where
  "parse_i64 t =
     (let neg = (t \<noteq> [] \<and> hd t = CHR ''-''); n = int (read_nat (if neg then tl t else t)); v = (if neg then - n else n)
      in if i64_min \<le> v \<and> v \<le> i64_max then Some v else None)"

definition parse_number :: "'f f64_ops \<Rightarrow> nat \<Rightarrow> string \<Rightarrow> json_error + 'f json \<times> nat \<times> string" where
  "parse_number F p s =
     (case scan_number s of None \<Rightarrow> fail_at InvalidNumber p
      | Some (n, is_float) \<Rightarrow>
          (let t = take n s; p' = p + n; s' = drop n s in
           case (if is_float then None else parse_i64 t) of
             Some i \<Rightarrow> Inr (JNumber (NInt i), p', s')
           | None \<Rightarrow>
               (case f64_parse F t of None \<Rightarrow> fail_at InvalidNumber p
                | Some f \<Rightarrow> if f64_finite F f then Inr (JNumber (NFloat f), p', s') else fail_at NumberOutOfRange p)))"

lemma parse_number_length: "parse_number F p s = Inr (v, p', s') \<Longrightarrow> length s' \<le> length s"
  by (auto simp: parse_number_def fail_at_def Let_def split: option.splits if_splits)

section \<open>Values\<close>

text \<open>What follows an item or an entry: a comma and another one, or the end; \<open>True\<close> is the end.\<close>

definition separator :: "char \<Rightarrow> nat \<Rightarrow> string \<Rightarrow> json_error + bool \<times> nat \<times> string" where
  "separator close p s =
     (case skip_ws p s of (p, s) \<Rightarrow>
        (case s of [] \<Rightarrow> fail_at UnexpectedEnd p
         | c # cs \<Rightarrow>
             if c = CHR '','' then
               (case skip_ws (p + 1) cs of (p, s) \<Rightarrow>
                  if s \<noteq> [] \<and> hd s = close then fail_at UnexpectedByte p else Inr (False, p, s))
             else if c = close then Inr (True, p + 1, cs)
             else fail_at UnexpectedByte p))"

text \<open>What follows an opening bracket: the closing one at once, or an item.\<close>

definition after_open :: "char \<Rightarrow> nat \<Rightarrow> string \<Rightarrow> bool \<times> nat \<times> string" where
  "after_open close p s =
     (case skip_ws p s of (p, s) \<Rightarrow> if s \<noteq> [] \<and> hd s = close then (True, p + 1, tl s) else (False, p, s))"

text \<open>The key of an entry and the colon after it, up to the value.\<close>

definition parse_key :: "limits \<Rightarrow> (string \<times> 'v) list \<Rightarrow> nat \<Rightarrow> string \<Rightarrow> json_error + string \<times> nat \<times> string" where
  "parse_key L es p s =
     (if s = [] then fail_at UnexpectedEnd p
      else if hd s \<noteq> QUOTE then fail_at UnexpectedByte p
      else case parse_string L p s of Inl e \<Rightarrow> Inl e
      | Inr (k, p', s') \<Rightarrow>
          if reject_duplicate_keys L \<and> object_contains_key es k then fail_at DuplicateKey p
          else case (case skip_ws p' s' of (p, s) \<Rightarrow> expect_byte (CHR '':'') p s) of Inl e \<Rightarrow> Inl e
          | Inr (p, s) \<Rightarrow> (case skip_ws p s of (p, s) \<Rightarrow> Inr (k, p, s)))"

text \<open>How a value starts: it is read at once, or an array or object opens whose first item or entry comes next.\<close>

datatype 'f value_start = Read "json_error + 'f json \<times> nat \<times> string" | InArray nat string | InObject nat string

definition open_container :: "limits \<Rightarrow> nat \<Rightarrow> char \<Rightarrow> 'f json \<Rightarrow> (nat \<Rightarrow> string \<Rightarrow> 'f value_start) \<Rightarrow> nat \<Rightarrow> string \<Rightarrow> 'f value_start" where
  "open_container L depth close nothing_in go p bs =
     (if depth \<ge> max_depth L then Read (fail_at DepthExceeded p)
      else case after_open close (p + 1) bs of
        (True, p, s) \<Rightarrow> Read (Inr (nothing_in, p, s))
      | (False, p, s) \<Rightarrow> go p s)"

definition start_value :: "'f f64_ops \<Rightarrow> limits \<Rightarrow> nat \<Rightarrow> nat \<Rightarrow> string \<Rightarrow> 'f value_start" where
  "start_value F L depth p s =
     (case s of [] \<Rightarrow> Read (fail_at UnexpectedEnd p)
      | b # bs \<Rightarrow>
          if b = CHR ''n'' then Read (parse_literal ''null'' JNull p s)
          else if b = CHR ''t'' then Read (parse_literal ''true'' (JBool True) p s)
          else if b = CHR ''f'' then Read (parse_literal ''false'' (JBool False) p s)
          else if b = QUOTE then Read (map_sum id (\<lambda>(t, r). (JString t, r)) (parse_string L p s))
          else if b = CHR ''['' then open_container L depth (CHR '']'') (JArray []) InArray p bs
          else if b = CHR ''{'' then open_container L depth (CHR ''}'') (JObject []) InObject p bs
          else if b = CHR ''-'' \<or> is_ascii_digit b then Read (parse_number F p s)
          else Read (fail_at UnexpectedByte p))"

text \<open>
  The three functions of the parser. The white space that the source skips again at the top of each turn of its two
  loops is already gone there: \<open>after_open\<close> and \<open>separator\<close> end with skipping it.
\<close>

function parse_value :: "'f f64_ops \<Rightarrow> limits \<Rightarrow> nat \<Rightarrow> nat \<Rightarrow> string \<Rightarrow> json_error + 'f json \<times> nat \<times> string"
  and array_loop :: "'f f64_ops \<Rightarrow> limits \<Rightarrow> nat \<Rightarrow> 'f json list \<Rightarrow> nat \<Rightarrow> string \<Rightarrow> json_error + 'f json \<times> nat \<times> string"
  and object_loop :: "'f f64_ops \<Rightarrow> limits \<Rightarrow> nat \<Rightarrow> (string \<times> 'f json) list \<Rightarrow> nat \<Rightarrow> string \<Rightarrow> json_error + 'f json \<times> nat \<times> string"
  where
  "parse_value F L depth p s =
     (case start_value F L depth p s of
        Read r \<Rightarrow> r
      | InArray p s \<Rightarrow> array_loop F L depth [] p s
      | InObject p s \<Rightarrow> object_loop F L depth [] p s)"
| "array_loop F L depth items p s =
     (if length items \<ge> max_array_items L then fail_at ArrayTooLong p
      else case parse_value F L (depth + 1) p s of Inl e \<Rightarrow> Inl e
      | Inr (v, p, s) \<Rightarrow>
          (case separator (CHR '']'') p s of Inl e \<Rightarrow> Inl e
           | Inr (closed, p, s) \<Rightarrow>
               if closed then Inr (JArray (items @ [v]), p, s) else array_loop F L depth (items @ [v]) p s))"
| "object_loop F L depth es p s =
     (if length es \<ge> max_object_entries L then fail_at ObjectTooLarge p
      else case parse_key L es p s of Inl e \<Rightarrow> Inl e
      | Inr (k, p, s) \<Rightarrow>
          (case parse_value F L (depth + 1) p s of Inl e \<Rightarrow> Inl e
           | Inr (v, p, s) \<Rightarrow>
               (case separator (CHR ''}'') p s of Inl e \<Rightarrow> Inl e
                | Inr (closed, p, s) \<Rightarrow>
                    if closed then Inr (JObject (object_push k v es), p, s)
                    else object_loop F L depth (object_push k v es) p s)))"
  by pat_completeness auto

lemma separator_length: "separator c p s = Inr (b, p', s') \<Longrightarrow> length s' < length s"
  using skip_ws_length [of p s]
  by (auto simp: separator_def fail_at_def split: prod.splits list.splits if_splits)
    (metis Suc_le_lessD le_SucI skip_ws_length snd_conv order.strict_trans1)+

lemma skip_ws_le: "skip_ws p s = (p', s') \<Longrightarrow> length s' \<le> length s"
  using skip_ws_length [of p s] by simp

lemma parse_key_length: "parse_key L es p s = Inr (k, p', s') \<Longrightarrow> length s' < length s"
  by (auto simp: parse_key_def expect_byte_def fail_at_def split: if_splits sum.splits prod.splits list.splits
      dest!: parse_string_length skip_ws_le)

lemma parse_literal_length: "parse_literal w v p s = Inr (v', p', s') \<Longrightarrow> length s' \<le> length s"
  by (auto simp: parse_literal_def fail_at_def split: if_splits)

lemma after_open_length: "after_open c p s = (b, p', s') \<Longrightarrow> length s' \<le> length s"
  by (auto simp: after_open_def split: prod.splits if_splits dest!: skip_ws_le)

lemma open_container_length:
  "open_container L d c e InArray p bs = Read (Inr (v, p', s')) \<Longrightarrow> length s' \<le> length bs"
  "open_container L d c e InObject p bs = Read (Inr (v, p', s')) \<Longrightarrow> length s' \<le> length bs"
  "open_container L d c e InArray p bs = InArray p' s' \<Longrightarrow> length s' \<le> length bs"
  "open_container L d c e InObject p bs = InObject p' s' \<Longrightarrow> length s' \<le> length bs"
  by (auto simp: open_container_def fail_at_def split: if_splits prod.splits bool.splits dest: after_open_length)

lemma open_container_kind [simp]:
  "open_container L d c e InArray p bs \<noteq> InObject p' s'" "open_container L d c e InObject p bs \<noteq> InArray p' s'"
  by (auto simp: open_container_def split: prod.splits bool.splits)

lemma start_value_length:
  "start_value F L d p s = Read (Inr (v, p', s')) \<Longrightarrow> length s' \<le> length s"
  "start_value F L d p s = InArray p' s' \<Longrightarrow> length s' < length s"
  "start_value F L d p s = InObject p' s' \<Longrightarrow> length s' < length s"
proof -
  assume a: "start_value F L d p s = Read (Inr (v, p', s'))"
  have str: "map_sum id (\<lambda>(t, r). (JString t, r)) x = Inr (v, p', s') \<Longrightarrow> \<exists>t. x = Inr (t, p', s')" for x :: "json_error + string \<times> nat \<times> string"
    by (cases x) auto
  show "length s' \<le> length s"
  proof (cases s)
    case Nil
    then show ?thesis using a by (simp add: start_value_def fail_at_def)
  next
    case (Cons b bs)
    consider x w where "parse_literal w x p s = Inr (v, p', s')" | t where "parse_string L p s = Inr (t, p', s')"
      | "open_container L d (CHR '']'') (JArray []) InArray p bs = Read (Inr (v, p', s'))"
      | "open_container L d (CHR ''}'') (JObject []) InObject p bs = Read (Inr (v, p', s'))"
      | "parse_number F p s = Inr (v, p', s')"
      using a str by (simp add: start_value_def Cons fail_at_def split: if_split_asm) blast+
    then show ?thesis
      by cases (auto simp: Cons dest: parse_literal_length parse_string_length open_container_length parse_number_length)
  qed
qed (auto simp: start_value_def split: list.splits if_splits dest!: open_container_length)

lemma parse_lengths:
  fixes F :: "'f f64_ops"
  shows "parse_value_array_loop_object_loop_dom (Inl (F, L, d, p, s)) \<Longrightarrow>
      (\<And>v p' s'. parse_value F L d p s = Inr (v, p', s') \<Longrightarrow> length s' \<le> length s)"
    and "parse_value_array_loop_object_loop_dom (Inr (Inl (F, L, d, items, p, s))) \<Longrightarrow>
      (\<And>v p' s'. array_loop F L d items p s = Inr (v, p', s') \<Longrightarrow> length s' \<le> length s)"
    and "parse_value_array_loop_object_loop_dom (Inr (Inr (F, L, d, es, p, s))) \<Longrightarrow>
      (\<And>v p' s'. object_loop F L d es p s = Inr (v, p', s') \<Longrightarrow> length s' \<le> length s)"
proof (induction F L d p s and F L d items p s and F L d es p s rule: parse_value_array_loop_object_loop.pinduct)
  case (1 F L depth p s)
  note eq = 1(4) [unfolded parse_value.psimps [OF 1(1)]]
  show ?case
  proof (cases "start_value F L depth p s")
    case (Read r)
    then show ?thesis using eq start_value_length(1) by simp
  next
    case (InArray p1 s1)
    then show ?thesis using eq start_value_length(2) [OF InArray] 1(2) [OF InArray] by fastforce
  next
    case (InObject p1 s1)
    then show ?thesis using eq start_value_length(3) [OF InObject] 1(3) [OF InObject] by fastforce
  qed
next
  case (2 F L depth items p s)
  note eq = 2(4) [unfolded array_loop.psimps [OF 2(1)]]
  obtain v1 p1 s1 b p2 s2 where s: "\<not> length items \<ge> max_array_items L" "parse_value F L (depth + 1) p s = Inr (v1, p1, s1)"
    "separator (CHR '']'') p1 s1 = Inr (b, p2, s2)"
    using eq by (auto simp: fail_at_def split: if_splits sum.splits)
  show ?case using eq s 2(2) [OF s(1,2)] 2(3) [OF s(1,2) refl refl s(3) refl refl] separator_length [OF s(3)]
    by (cases b) fastforce+
next
  case (3 F L depth es p s)
  note eq = 3(4) [unfolded object_loop.psimps [OF 3(1)]]
  obtain k p0 s0 v1 p1 s1 b p2 s2 where s: "\<not> length es \<ge> max_object_entries L" "parse_key L es p s = Inr (k, p0, s0)"
    "parse_value F L (depth + 1) p0 s0 = Inr (v1, p1, s1)" "separator (CHR ''}'') p1 s1 = Inr (b, p2, s2)"
    using eq by (auto simp: fail_at_def split: if_splits sum.splits)
  show ?case
    using eq s 3(2) [OF s(1,2) refl refl s(3)] 3(3) [OF s(1,2) refl refl s(3) refl refl s(4) refl refl]
      separator_length [OF s(4)] parse_key_length [OF s(2)]
    by (cases b) fastforce+
qed

termination parse_value
proof (relation "measure (\<lambda>x. case x of Inl (F, L, d, p, s) \<Rightarrow> 2 * length s
    | Inr (Inl (F, L, d, items, p, s)) \<Rightarrow> 2 * length s + 1 | Inr (Inr (F, L, d, es, p, s)) \<Rightarrow> 2 * length s + 1)")
qed (auto dest!: start_value_length(2,3) separator_length parse_key_length parse_lengths)

declare parse_value.simps [simp del] array_loop.simps [simp del] object_loop.simps [simp del]

definition json_parse :: "'f f64_ops \<Rightarrow> limits \<Rightarrow> string \<Rightarrow> json_error + 'f json" where
  "json_parse F L input =
     (if length input > max_input_bytes L then fail_at InputTooLarge 0
      else if take 3 input = [CHR 0xEF, CHR 0xBB, CHR 0xBF] then fail_at ByteOrderMark 0
      else if \<not> utf8_valid input then fail_at InvalidUtf8 0
      else case skip_ws 0 input of (p, s) \<Rightarrow>
        if s = [] then fail_at EmptyInput p
        else case parse_value F L 0 p s of Inl e \<Rightarrow> Inl e
        | Inr (v, p, s) \<Rightarrow>
            (case skip_ws p s of (p, s) \<Rightarrow> if s \<noteq> [] then fail_at TrailingContent p else Inr v))"

end
