(* ===== verification/Json_Roundtrip.thy ===== *)
theory Json_Roundtrip
  imports Json_Parse
begin

text \<open>
  What the writer writes the parser reads back, what the parser accepts is within its limits, and the canonical form
  does not depend on the order of keys.
\<close>

section \<open>Strings\<close>

definition plain :: "char \<Rightarrow> bool" where
  "plain b \<longleftrightarrow> b \<noteq> QUOTE \<and> b \<noteq> BACKSLASH \<and> 0x1F < ord b"

text \<open>Bytes that need no escape are taken one by one before the first escape, and character by character after it.\<close>

lemma plain_bytes:
  assumes "list_all plain c" "p + length c - start \<le> max_string_bytes L"
  shows "string_loop L start whole None p (c @ r) = string_loop L start whole None (p + length c) r"
  using assms
proof (induction c arbitrary: p)
  case (Cons b c)
  have "string_turn L start whole None p ((b # c) @ r) = Continue None (p + 1) (c @ r)"
    using Cons(2,3) by (simp add: string_turn_def plain_def plain_turn_def)
  then show ?case using Cons by (subst string_loop.simps) simp
qed simp

lemma plain_char:
  assumes "utf8_char c" "list_all plain c" "p + length c - start \<le> max_string_bytes L"
  shows "string_loop L start whole (Some buf) p (c @ r) = string_loop L start whole (Some (buf @ c)) (p + length c) r"
proof -
  obtain b c' where c: "c = b # c'" using assms(1) by (cases c) auto
  have l: "utf8_len b = length c" using utf8_char_length assms(1) c by metis
  have "string_turn L start whole (Some buf) p (c @ r) = Continue (Some (buf @ c)) (p + length c) r"
    using assms l utf8_valid_char [OF assms(1)] by (simp add: string_turn_def plain_def plain_turn_def Let_def c)
  then show ?thesis by (subst string_loop.simps) simp
qed

text \<open>
  The buffer that the loop has decoded: held in \<open>out\<close>, or still the part of the input before the position.
\<close>

definition buffered :: "nat \<Rightarrow> string \<Rightarrow> string option \<Rightarrow> nat \<Rightarrow> string \<Rightarrow> string \<Rightarrow> bool" where
  "buffered start whole out p s buf \<longleftrightarrow>
     utf8_valid buf \<and> start + length buf \<le> p \<and>
     (out = Some buf \<or> out = None \<and> whole = buf @ s \<and> p = start + length buf)"

lemma buffered_decoded: "buffered start whole out p s buf \<Longrightarrow> decoded_so_far out (take (p - start) whole) p = Inr buf"
  by (auto simp: buffered_def decoded_so_far_def)

lemma escape_loop:
  assumes "buffered start whole out p (BACKSLASH # e # s) buf" "length buf \<le> max_string_bytes L"
    "simple_escape e = Some ch \<and> c = [ch] \<and> p' = p + 2 \<and> s' = s \<or>
     e = CHR ''u'' \<and> parse_unicode_escape (p + 2) s = Inr (c, p', s')"
  shows "string_loop L start whole out p (BACKSLASH # e # s) = string_loop L start whole (Some (buf @ c)) p' s'"
proof -
  have u: "simple_escape (CHR ''u'') = None" by (simp add: simple_escape_def QUOTE_def BACKSLASH_def)
  have "string_turn L start whole out p (BACKSLASH # e # s) = Continue (Some (buf @ c)) p' s'"
    using assms(2,3) u buffered_decoded [OF assms(1)]
    by (auto simp: string_turn_def escape_turn_def BACKSLASH_def QUOTE_def)
  then show ?thesis by (subst string_loop.simps) simp
qed

text \<open>What is written for a character: itself, when it is plain, or an escape that reads back as it.\<close>

lemma hex_digit_read: "d < 16 \<Longrightarrow> hex_digit_value (json_hex_digit d) = Some d"
  by (cases "d < 10") (auto simp: hex_digit_value_def json_hex_digit_def less_eq_char_def)

lemma parse_hex4_digits:
  assumes "a < 16" "b < 16" "c < 16" "d < 16"
  shows "parse_hex4 p ([json_hex_digit a, json_hex_digit b, json_hex_digit c, json_hex_digit d] @ r) = Inr (((a * 16 + b) * 16 + c) * 16 + d, p + 4, r)"
  using assms by (simp add: parse_hex4_def numeral_eq_Suc hex_digit_read)

lemma unicode_escape_digits:
  assumes "a < 16" "b < 16" "c < 16" "d < 16" "((a * 16 + b) * 16 + c) * 16 + d < 0xD800"
  shows "parse_unicode_escape p ([json_hex_digit a, json_hex_digit b, json_hex_digit c, json_hex_digit d] @ r) =
    Inr (utf8_encode (((a * 16 + b) * 16 + c) * 16 + d), p + 4, r)"
  unfolding parse_unicode_escape_def parse_hex4_digits [OF assms(1-4)] using assms(5) by (simp add: from_u32_def)

lemma separator_digits:
  "''2028'' = [json_hex_digit 2, json_hex_digit 0, json_hex_digit 2, json_hex_digit 8]" "''2029'' = [json_hex_digit 2, json_hex_digit 0, json_hex_digit 2, json_hex_digit 9]"
  by code_simp+

lemma hex_digit_ascii: "d < 16 \<Longrightarrow> ord (json_hex_digit d) \<le> 0x7F"
  by (simp add: json_hex_digit_def)

lemma write_char_cases:
  assumes "utf8_char c"
  obtains (simple) e ch where "write_char c = [BACKSLASH, e]" "simple_escape e = Some ch" "c = [ch]"
  | (unicode) x where "write_char c = BACKSLASH # CHR ''u'' # x" "length x = 4" "list_all (\<lambda>a. ord a \<le> 0x7F) x"
      "\<And>p r. parse_unicode_escape p (x @ r) = Inr (c, p + 4, r)"
  | (itself) "write_char c = c" "list_all plain c"
proof -
  consider "c \<in> {[QUOTE], [BACKSLASH], [CHR 0x0A], [CHR 0x0D], [CHR 0x09], [CHR 0x08], [CHR 0x0C]}"
    | "c \<notin> {[QUOTE], [BACKSLASH], [CHR 0x0A], [CHR 0x0D], [CHR 0x09], [CHR 0x08], [CHR 0x0C]}" "length c = 1" "ord (hd c) < 0x20"
    | "c = utf8_encode 0x2028" | "c = utf8_encode 0x2029"
    | "c \<notin> {[QUOTE], [BACKSLASH], [CHR 0x0A], [CHR 0x0D], [CHR 0x09], [CHR 0x08], [CHR 0x0C]}"
      "\<not> (length c = 1 \<and> ord (hd c) < 0x20)" "c \<noteq> utf8_encode 0x2028" "c \<noteq> utf8_encode 0x2029"
    by blast
  then show thesis
  proof cases
    case 1
    then show thesis by (auto simp: write_char_def simple_escape_def QUOTE_def BACKSLASH_def intro: simple)
  next
    case 2
    obtain a where a: "c = [a]" "ord a < 32" using 2 by (cases c) auto
    let ?x = "[json_hex_digit 0, json_hex_digit 0, json_hex_digit (ord a div 16), json_hex_digit (ord a mod 16)]"
    have w: "write_char c = BACKSLASH # CHR ''u'' # ?x" using 2 a by (simp add: write_char_def)
    have "parse_unicode_escape p (?x @ r) = Inr (c, p + 4, r)" for p r
      using unicode_escape_digits [of 0 0 "ord a div 16" "ord a mod 16" p r] a by (simp add: utf8_encode_def)
    with w show thesis using a(2) by (intro unicode [of ?x]) (simp_all add: hex_digit_ascii)
  next
    case 3
    have "write_char c = BACKSLASH # CHR ''u'' # ''2028''" by (simp add: 3 write_char_def utf8_encode_def)
    then show thesis using unicode_escape_digits [of 2 0 2 8] 3 by (intro unicode [of "''2028''"]) (simp_all add: separator_digits hex_digit_ascii)
  next
    case 4
    have "write_char c = BACKSLASH # CHR ''u'' # ''2029''" by (simp add: 4 write_char_def utf8_encode_def)
    then show thesis using unicode_escape_digits [of 2 0 2 9] 4 by (intro unicode [of "''2029''"]) (simp_all add: separator_digits hex_digit_ascii)
  next
    case 5
    have "write_char c = c" using 5 by (auto simp: write_char_def)
    moreover have "list_all plain c"
    proof (cases "length c = 1")
      case True
      then obtain a where "c = [a]" by (cases c) auto
      then show ?thesis using 5 by (simp add: plain_def)
    next
      case False
      have "ord QUOTE = 0x22" "ord BACKSLASH = 0x5C" by (simp_all add: QUOTE_def BACKSLASH_def)
      then have "0x80 \<le> ord b \<Longrightarrow> plain b" for b by (auto simp: plain_def)
      then show ?thesis using False assms by (cases c rule: utf8_char.cases) (auto simp: continuation_def)
    qed
    ultimately show thesis by (rule itself)
  qed
qed

text \<open>The loop over what was written for some characters ends with them appended.\<close>

lemma written_loop:
  assumes "list_all utf8_char cs" "buffered start whole out p (concat (map write_char cs) @ QUOTE # r) buf"
    "p + length (concat (map write_char cs)) - start \<le> max_string_bytes L"
  shows "string_loop L start whole out p (concat (map write_char cs) @ QUOTE # r) =
    Inr (buf @ concat cs, p + length (concat (map write_char cs)) + 1, r)"
  using assms
proof (induction cs arbitrary: out p buf)
  case Nil
  then have "string_turn L start whole out p (QUOTE # r) = Return (Inr (buf, p + 1, r))"
    using buffered_decoded [OF Nil(2)] by (auto simp: string_turn_def close_turn_def buffered_def)
  then show ?case by (subst string_loop.simps) simp
next
  case (Cons c cs)
  let ?w = "concat (map write_char cs) @ QUOTE # r"
  have c: "utf8_char c" "list_all utf8_char cs" and v: "utf8_valid buf" "start + length buf \<le> p" "utf8_valid c"
    using Cons(2,3) utf8_valid_char [of c] by (auto simp: buffered_def)
  have len: "length buf \<le> max_string_bytes L" using Cons(3,4) by (auto simp: buffered_def)
  from c(1) show ?case
  proof (cases rule: write_char_cases)
    case (simple e ch)
    have "string_loop L start whole out p (BACKSLASH # e # ?w) = string_loop L start whole (Some (buf @ c)) (p + 2) ?w"
      using Cons(3) len simple by (intro escape_loop) auto
    moreover have "buffered start whole (Some (buf @ c)) (p + 2) ?w (buf @ c)" using v simple by (simp add: buffered_def)
    ultimately show ?thesis using Cons(1) [OF c(2), of "Some (buf @ c)" "p + 2" "buf @ c"] Cons(4) simple by simp
  next
    case (unicode x)
    have "string_loop L start whole out p (BACKSLASH # CHR ''u'' # x @ ?w) = string_loop L start whole (Some (buf @ c)) (p + 2 + 4) ?w"
      using Cons(3) len unicode by (intro escape_loop) auto
    moreover have "buffered start whole (Some (buf @ c)) (p + 2 + 4) ?w (buf @ c)"
      using v utf8_char_length [of "hd c" "tl c"] c(1) unicode(1) by (cases c) (auto simp: buffered_def utf8_len_def)
    ultimately show ?thesis using Cons(1) [OF c(2), of "Some (buf @ c)" "p + 2 + 4" "buf @ c"] Cons(4) unicode by simp
  next
    case itself
    have b: "p + length c - start \<le> max_string_bytes L" using Cons(4) itself by simp
    show ?thesis
    proof (cases out)
      case None
      have "buffered start whole None (p + length c) ?w (buf @ c)" using Cons(3) v None itself by (auto simp: buffered_def)
      then show ?thesis
        using Cons(1) [OF c(2), of None "p + length c" "buf @ c"] Cons(4) plain_bytes [OF itself(2) b, of whole ?w] None itself by simp
    next
      case (Some o')
      have "o' = buf" using Some Cons(3) by (auto simp: buffered_def)
      moreover have "buffered start whole (Some (buf @ c)) (p + length c) ?w (buf @ c)" using v by (simp add: buffered_def)
      ultimately show ?thesis
        using Cons(1) [OF c(2), of "Some (buf @ c)" "p + length c" "buf @ c"] Cons(4)
          plain_char [OF c(1) itself(2) b, of whole buf ?w] Some itself by simp
    qed
  qed
qed

definition string_fits :: "limits \<Rightarrow> string \<Rightarrow> bool" where
  "string_fits L s \<longleftrightarrow> utf8_valid s \<and> length (write_string s) \<le> max_string_bytes L + 2"

lemma parse_written_string:
  assumes "string_fits L s"
  shows "parse_string L p (write_string s @ r) = Inr (s, p + length (write_string s), r)"
proof -
  have "list_all utf8_char (utf8_chars s)" using assms by (simp add: string_fits_def utf8_valid_def)
  then show ?thesis
    using written_loop [of "utf8_chars s" "p + 1" "concat (map write_char (utf8_chars s)) @ QUOTE # r" None "p + 1" r "[]" L] assms
    by (simp add: parse_string_def expect_byte_def write_string_def string_fits_def buffered_def)
qed

section \<open>Numbers\<close>

text \<open>What may follow a value in what is written.\<close>

definition ends_value :: "string \<Rightarrow> bool" where
  "ends_value r \<longleftrightarrow> r = [] \<or> hd r \<in> {CHR '','', CHR '']'', CHR ''}''}"

lemma ends_value_cases:
  assumes "ends_value r"
  obtains "r = []" | c r' where "r = c # r'" "\<not> is_ascii_digit c" "c \<notin> {CHR ''.'', CHR ''e'', CHR ''E'', CHR ''+'', CHR ''-''}"
  using assms by (cases r) (auto simp: ends_value_def is_ascii_digit_def)

lemma digits_append [simp]: "ends_value r \<Longrightarrow> digits (s @ r) = digits s"
  by (induction s) (auto simp: digits_def elim: ends_value_cases)

lemma int_part_append: "ends_value r \<Longrightarrow> int_part (s @ r) = int_part s"
proof (cases s)
  case Nil
  assume r: "ends_value r"
  have "is_ascii_digit (CHR ''0'')" by (simp add: is_ascii_digit_def)
  then show ?thesis using Nil by (cases rule: ends_value_cases [OF r]) (auto simp: int_part_def)
next
  case (Cons c cs)
  assume r: "ends_value r"
  have "hd (cs @ r) = hd cs" if "cs \<noteq> []" using that by simp
  moreover have "r \<noteq> [] \<Longrightarrow> \<not> is_ascii_digit (hd r)" using r by (auto elim: ends_value_cases)
  ultimately show ?thesis using Cons digits_append [OF r, of "c # cs"] by (cases "cs = []") (auto simp: int_part_def)
qed

lemma frac_part_append: "ends_value r \<Longrightarrow> frac_part (s @ r) = frac_part s"
  using digits_append [of r] by (cases s) (auto simp: frac_part_def elim: ends_value_cases)

lemma exp_part_append:
  assumes "ends_value r"
  shows "exp_part (s @ r) = exp_part s"
proof (cases s)
  case Nil
  then show ?thesis using assms by (auto simp: exp_part_def elim: ends_value_cases)
next
  case (Cons c cs)
  show ?thesis
  proof (cases cs)
    case Nil
    have "digits r = []" using digits_append [OF assms, of "[]"] by (simp add: digits_def)
    then show ?thesis using Cons Nil by (cases rule: ends_value_cases [OF assms]) (auto simp: exp_part_def digits_def Let_def)
  next
    case (Cons d ds)
    have "digits (d # ds @ r) = digits (d # ds)" "digits (ds @ r) = digits ds"
      using digits_append [OF assms, of "d # ds"] digits_append [OF assms, of ds] by simp_all
    then show ?thesis by (simp add: exp_part_def Let_def Cons \<open>s = c # cs\<close>)
  qed
qed

lemma digits_length: "length (digits s) \<le> length s"
  by (simp add: digits_def length_takeWhile_le)

lemma part_lengths:
  "int_part s = Some i \<Longrightarrow> i \<le> length s" "frac_part s = Some i \<Longrightarrow> i \<le> length s"
  using digits_length [of "tl s"] digits_length [of s]
  by (auto simp: int_part_def frac_part_def split: list.splits if_splits)

lemma scan_number_append:
  assumes "ends_value r"
  shows "scan_number (t @ r) = scan_number t"
proof -
  define m where "m = (case t of c # _ \<Rightarrow> if c = CHR ''-'' then 1 else (0 :: nat) | [] \<Rightarrow> 0)"
  have m: "(case t @ r of c # _ \<Rightarrow> if c = CHR ''-'' then 1 else (0 :: nat) | [] \<Rightarrow> 0) = m" "m \<le> length t"
    using assms by (auto simp: m_def elim: ends_value_cases split: list.splits)
  have d: "drop n (t @ r) = drop n t @ r" if "n \<le> length t" for n using that by simp
  show ?thesis
  proof (cases "int_part (drop m t)")
    case None
    then show ?thesis
      using int_part_append [OF assms, of "drop m t"] m by (simp add: scan_number_def Let_def m_def [symmetric])
  next
    case (Some i)
    have i: "m + i \<le> length t" using part_lengths(1) [OF Some] m(2) by simp
    show ?thesis
    proof (cases "frac_part (drop (m + i) t)")
      case None
      then show ?thesis
        using int_part_append [OF assms, of "drop m t"] frac_part_append [OF assms, of "drop (m + i) t"] m i Some
        by (simp add: scan_number_def Let_def m_def [symmetric])
    next
      case (Some f)
      have f: "m + i + f \<le> length t" using part_lengths(2) [OF Some] i by simp
      then show ?thesis
        using int_part_append [OF assms, of "drop m t"] frac_part_append [OF assms, of "drop (m + i) t"]
          exp_part_append [OF assms, of "drop (m + i + f) t"] m i Some \<open>int_part (drop m t) = Some i\<close>
        by (simp add: scan_number_def Let_def m_def [symmetric])
    qed
  qed
qed

lemma itoa_digits_show: "0 < n \<Longrightarrow> n < 10 ^ k \<Longrightarrow> rev (itoa_digits k n) = show_nat n"
proof (induction k arbitrary: n)
  case (Suc k)
  have z: "itoa_digits k 0 = []" by (cases k) simp_all
  show ?case
  proof (cases "n < 10")
    case True
    then show ?thesis using Suc(2) z by (simp add: show_nat.simps [of n])
  next
    case False
    have "n div 10 < 10 ^ k" using Suc(3) by (simp add: less_mult_imp_div_less mult.commute)
    then show ?thesis using Suc False by (simp add: show_nat.simps [of n])
  qed
qed simp

lemma show_nat_head: "0 < n \<Longrightarrow> hd (show_nat n) \<noteq> CHR ''0''"
proof (induction n rule: show_nat.induct)
  case (1 n)
  show ?case
  proof (cases "n < 10")
    case True
    have "ord (char_of (48 + n)) = 48 + n" using True by simp
    moreover have "ord (CHR ''0'') = 48" by simp
    ultimately have "char_of (48 + n) \<noteq> CHR ''0''" using 1(2) by force
    then show ?thesis using True by (simp add: show_nat.simps [of n])
  next
    case False
    then show ?thesis using 1 by (simp add: show_nat.simps [of n])
  qed
qed

lemma show_nat_0: "show_nat 0 = ''0''"
  by code_simp

lemma itoa_show: "i64_min \<le> v \<Longrightarrow> v \<le> i64_max \<Longrightarrow> itoa v = (if v < 0 then ''-'' else []) @ show_nat (nat \<bar>v\<bar>)"
  using itoa_digits_show [of "nat \<bar>v\<bar>" 20] by (auto simp: itoa_def i64_min_def i64_max_def show_nat_0)

lemma int_part_show: "int_part (show_nat n) = Some (length (show_nat n))"
proof -
  obtain c cs where s: "show_nat n = c # cs" using show_nat_nonempty [of n] by (cases "show_nat n") auto
  have d: "list_all is_ascii_digit (c # cs)" using show_nat_digits [of n] s by simp
  show ?thesis
  proof (cases "n = 0")
    case True
    then show ?thesis by (simp add: int_part_def show_nat_0)
  next
    case False
    then have "c \<noteq> CHR ''0''" using show_nat_head [of n] s by simp
    moreover have "digits (c # cs) = c # cs" using d unfolding digits_def by (simp only: takeWhile_eq_all_conv list_all_iff)
    ultimately show ?thesis using d s by (simp add: int_part_def)
  qed
qed

lemma show_nat_not_minus: "hd (show_nat n) \<noteq> CHR ''-''"
  using show_nat_digits [of n] show_nat_nonempty [of n] by (cases "show_nat n") (auto simp: is_ascii_digit_def)

lemma scan_show:
  "scan_number (show_nat n) = Some (length (show_nat n), False)"
  "scan_number (CHR ''-'' # show_nat n) = Some (length (show_nat n) + 1, False)"
proof -
  have m: "(case show_nat n of c # _ \<Rightarrow> if c = CHR ''-'' then 1 else (0 :: nat) | [] \<Rightarrow> 0) = 0"
    using show_nat_not_minus [of n] by (cases "show_nat n") auto
  show "scan_number (show_nat n) = Some (length (show_nat n), False)"
    unfolding scan_number_def m by (simp add: int_part_show frac_part_def exp_part_def)
  show "scan_number (CHR ''-'' # show_nat n) = Some (length (show_nat n) + 1, False)"
    by (simp add: scan_number_def int_part_show frac_part_def exp_part_def)
qed

lemma parse_written_int:
  assumes "i64_min \<le> v" "v \<le> i64_max" "ends_value r"
  shows "parse_number F p (itoa v @ r) = Inr (JNumber (NInt v), p + length (itoa v), r)"
proof -
  let ?n = "show_nat (nat \<bar>v\<bar>)"
  have t: "itoa v = (if v < 0 then ''-'' else []) @ ?n" by (rule itoa_show [OF assms(1,2)])
  have "scan_number (itoa v) = Some (length (itoa v), False)" using scan_show by (simp add: t)
  moreover have "parse_i64 (itoa v) = Some v"
    using assms(1,2) show_nat_not_minus by (auto simp: t parse_i64_def read_show_nat Let_def)
  ultimately show ?thesis using scan_number_append [OF assms(3), of "itoa v"] by (simp add: parse_number_def)
qed

section \<open>Values\<close>

text \<open>
  What \<open>Debug\<close> writes for a finite double, which the standard library documents: a number of the JSON grammar with a
  fraction or an exponent, which parses back to the same double.
\<close>

definition f64_text_ok :: "'f f64_ops \<Rightarrow> 'f \<Rightarrow> bool" where
  "f64_text_ok F f \<longleftrightarrow>
     f64_finite F f \<and> scan_number (f64_debug F f) = Some (length (f64_debug F f), True) \<and>
     f64_parse F (f64_debug F f) = Some f \<and> list_all (\<lambda>c. ord c \<le> 0x7F) (f64_debug F f)"

text \<open>A value within the limits when it is read at a depth.\<close>

fun json_fits :: "'f f64_ops \<Rightarrow> limits \<Rightarrow> nat \<Rightarrow> 'f json \<Rightarrow> bool" where
  "json_fits F L d JNull = True"
| "json_fits F L d (JBool _) = True"
| "json_fits F L d (JNumber (NInt i)) = (i64_min \<le> i \<and> i \<le> i64_max)"
| "json_fits F L d (JNumber (NFloat f)) = f64_text_ok F f"
| "json_fits F L d (JString s) = string_fits L s"
| "json_fits F L d (JArray xs) =
     (d < max_depth L \<and> length xs \<le> max_array_items L \<and> list_all (json_fits F L (d + 1)) xs)"
| "json_fits F L d (JObject es) =
     (d < max_depth L \<and> length es \<le> max_object_entries L \<and> distinct (map fst es) \<and>
      list_all (\<lambda>(k, v). string_fits L k \<and> json_fits F L (d + 1) v) es)"

text \<open>How a value that is written starts: never with white space or a closing bracket.\<close>

definition starts_item :: "string \<Rightarrow> bool" where
  "starts_item w \<longleftrightarrow> w \<noteq> [] \<and> \<not> is_ws (hd w) \<and> ord (hd w) \<le> 0x7F \<and> hd w \<noteq> CHR '']'' \<and> hd w \<noteq> CHR ''}''"

lemma scan_number_start: "scan_number s = Some x \<Longrightarrow> s \<noteq> [] \<and> (hd s = CHR ''-'' \<or> is_ascii_digit (hd s))"
proof (cases s)
  case Nil
  assume "scan_number s = Some x"
  then show ?thesis using Nil by (simp add: scan_number_def int_part_def)
next
  case (Cons c cs)
  have "is_ascii_digit (CHR ''0'')" by (simp add: is_ascii_digit_def)
  moreover assume "scan_number s = Some x"
  ultimately show ?thesis using Cons by (auto simp: scan_number_def int_part_def Let_def split: if_splits)
qed

lemma digit_starts_item: "s \<noteq> [] \<Longrightarrow> hd s = CHR ''-'' \<or> is_ascii_digit (hd s) \<Longrightarrow> starts_item s"
  by (auto simp: starts_item_def is_ws_def is_ascii_digit_def Let_def)

lemma itoa_scan: "i64_min \<le> v \<Longrightarrow> v \<le> i64_max \<Longrightarrow> scan_number (itoa v) = Some (length (itoa v), False)"
  using scan_show by (simp add: itoa_show)

lemma write_value_starts:
  assumes "json_fits F L d v"
  shows "starts_item (write_value F v)"
  using assms
proof (induction F L d v rule: json_fits.induct)
  case (3 F L d i)
  then show ?case using scan_number_start [OF itoa_scan [of i]] digit_starts_item by (auto simp: write_number_def)
next
  case (4 F L d f)
  then show ?case using scan_number_start [of "f64_debug F f"] digit_starts_item by (auto simp: write_number_def f64_text_ok_def)
qed (auto simp: starts_item_def is_ws_def write_string_def QUOTE_def)

lemma skip_ws_item: "starts_item s \<Longrightarrow> skip_ws p (s @ r) = (p, s @ r)"
  by (cases s) (auto simp: starts_item_def)

lemma separator_comma: "starts_item s \<Longrightarrow> c = CHR '']'' \<or> c = CHR ''}'' \<Longrightarrow> separator c p (CHR '','' # s @ r) = Inr (False, p + 1, s @ r)"
  using skip_ws_item [of s "p + 1" r] by (auto simp: separator_def is_ws_def starts_item_def)

lemma separator_close: "c = CHR '']'' \<or> c = CHR ''}'' \<Longrightarrow> separator c p (c # r) = Inr (True, p + 1, r)"
  by (auto simp: separator_def is_ws_def)

lemma after_open_item: "starts_item s \<Longrightarrow> c = CHR '']'' \<or> c = CHR ''}'' \<Longrightarrow> after_open c p (s @ r) = (False, p, s @ r)"
  using skip_ws_item [of s p r] by (auto simp: after_open_def starts_item_def)

lemma after_open_close: "c = CHR '']'' \<or> c = CHR ''}'' \<Longrightarrow> after_open c p (c # r) = (True, p + 1, r)"
  by (auto simp: after_open_def is_ws_def)

lemma commas_Cons: "commas (x # y # ys) = x @ CHR '','' # commas (y # ys)"
  by (simp add: commas_def)

lemma commas_single: "commas [x] = x"
  by (simp add: commas_def)

lemma array_loop_written:
  assumes "\<And>x p r. x \<in> set xs \<Longrightarrow> ends_value r \<Longrightarrow> parse_value F L (d + 1) p (w x @ r) = Inr (x, p + length (w x), r)"
    and "\<And>x. x \<in> set xs \<Longrightarrow> starts_item (w x)" "xs \<noteq> []" "length items + length xs \<le> max_array_items L"
  shows "array_loop F L d items p (commas (map w xs) @ CHR '']'' # r) =
    Inr (JArray (items @ xs), p + length (commas (map w xs)) + 1, r)"
  using assms
proof (induction xs arbitrary: items p)
  case (Cons x xs)
  show ?case
  proof (cases xs)
    case Nil
    have "parse_value F L (d + 1) p (w x @ CHR '']'' # r) = Inr (x, p + length (w x), CHR '']'' # r)"
      by (rule Cons(2)) (simp_all add: ends_value_def)
    then show ?thesis using Cons(5) Nil
      by (subst array_loop.simps) (simp add: commas_single separator_close)
  next
    case (Cons y ys)
    let ?t = "commas (map w xs) @ CHR '']'' # r"
    have st: "starts_item (w y)" using Cons.prems(2) \<open>xs = y # ys\<close> by simp
    then have sep: "separator (CHR '']'') q (CHR '','' # ?t) = Inr (False, q + 1, ?t)" for q
      using separator_comma [of "w y" "CHR '']''" q "drop (length (w y)) ?t"] Cons by (simp add: commas_def)
    have "parse_value F L (d + 1) p (w x @ CHR '','' # ?t) = Inr (x, p + length (w x), CHR '','' # ?t)"
      by (rule Cons.prems(1)) (simp_all add: ends_value_def)
    moreover have "array_loop F L d (items @ [x]) (p + length (w x) + 1) ?t =
        Inr (JArray ((items @ [x]) @ xs), p + length (w x) + 1 + length (commas (map w xs)) + 1, r)"
      by (rule Cons.IH) (use Cons.prems Cons in auto)
    ultimately show ?thesis using Cons.prems(4) Cons sep [of "p + length (w x)"]
      by (subst array_loop.simps) (simp add: commas_Cons)
  qed
qed simp

definition write_entry :: "'f f64_ops \<Rightarrow> string \<times> 'f json \<Rightarrow> string" where
  "write_entry F = (\<lambda>(k, v). write_string k @ '':'' @ write_value F v)"

lemma write_entry_starts: "starts_item (write_entry F e)"
  by (auto simp: write_entry_def starts_item_def is_ws_def write_string_def QUOTE_def split: prod.splits)

lemma object_contains: "object_contains_key es k \<longleftrightarrow> k \<in> fst ` set es"
  by (force simp: object_contains_key_def object_get_def find_None_iff split: prod.splits)

lemma parse_key_written:
  assumes "string_fits L k" "k \<notin> fst ` set es" "starts_item w"
  shows "parse_key L es p (write_string k @ '':'' @ w @ r) = Inr (k, p + length (write_string k) + 1, w @ r)"
proof -
  have q: "write_string k = QUOTE # tl (write_string k)" by (simp add: write_string_def)
  have h: "hd (write_string k @ '':'' @ w @ r) = QUOTE" "write_string k @ '':'' @ w @ r \<noteq> []" by (subst q, simp)+
  show ?thesis
    using parse_written_string [OF assms(1), of p "'':'' @ w @ r"] assms(2) skip_ws_item [OF assms(3)] h
    by (simp add: parse_key_def object_contains is_ws_def expect_byte_def)
qed

lemma object_loop_written:
  assumes "\<And>e p r. e \<in> set xs \<Longrightarrow> ends_value r \<Longrightarrow>
      parse_value F L (d + 1) p (write_value F (snd e) @ r) = Inr (snd e, p + length (write_value F (snd e)), r)"
    and "\<And>e. e \<in> set xs \<Longrightarrow> starts_item (write_value F (snd e)) \<and> string_fits L (fst e)"
    and "xs \<noteq> []" "length es + length xs \<le> max_object_entries L" "distinct (map fst (es @ xs))"
  shows "object_loop F L d es p (commas (map (write_entry F) xs) @ CHR ''}'' # r) =
    Inr (JObject (es @ xs), p + length (commas (map (write_entry F) xs)) + 1, r)"
  using assms
proof (induction xs arbitrary: es p)
  case (Cons x xs)
  obtain k v where x: "x = (k, v)" by (cases x)
  have fits: "starts_item (write_value F v)" "string_fits L k" "k \<notin> fst ` set es"
    using Cons.prems(2) [of x] Cons.prems(5) x by auto
  let ?q = "p + length (write_string k) + 1"
  have key: "parse_key L es p (write_entry F x @ z) = Inr (k, ?q, write_value F v @ z)" for z
    using parse_key_written [OF fits(2,3,1), of p z] x by (simp add: write_entry_def)
  have val: "parse_value F L (d + 1) ?q (write_value F v @ z) = Inr (v, p + length (write_entry F x), z)" if "ends_value z" for z
    using Cons.prems(1) [of x z ?q] that x by (simp add: write_entry_def)
  show ?case
  proof (cases xs)
    case Nil
    have "ends_value (CHR ''}'' # r)" by (simp add: ends_value_def)
    then show ?thesis using Cons.prems(4) Nil key val [of "CHR ''}'' # r"]
      by (subst object_loop.simps) (simp add: commas_single separator_close object_push_def x)
  next
    case (Cons y ys)
    let ?t = "commas (map (write_entry F) xs) @ CHR ''}'' # r"
    have sep: "separator (CHR ''}'') q (CHR '','' # ?t) = Inr (False, q + 1, ?t)" for q
      using separator_comma [OF write_entry_starts [of F y], of "CHR ''}''" q "drop (length (write_entry F y)) ?t"] Cons by (simp add: commas_def)
    have e: "ends_value (CHR '','' # ?t)" by (simp add: ends_value_def)
    have "object_loop F L d (es @ [x]) (p + length (write_entry F x) + 1) ?t =
        Inr (JObject ((es @ [x]) @ xs), p + length (write_entry F x) + 1 + length (commas (map (write_entry F) xs)) + 1, r)"
      by (rule Cons.IH) (use Cons.prems Cons in auto)
    then show ?thesis using Cons.prems(4) Cons sep [of "p + length (write_entry F x)"] key val [OF e]
      by (subst object_loop.simps) (simp add: commas_Cons object_push_def x)
  qed
qed simp

lemma write_object_eq: "write_value F (JObject es) = CHR ''{'' # commas (map (write_entry F) es) @ [CHR ''}'']"
  by (simp add: write_entry_def)

lemma commas_start: "xs \<noteq> [] \<Longrightarrow> starts_item (w (hd xs)) \<Longrightarrow> starts_item (commas (map w xs))"
  by (cases xs) (auto simp: commas_def starts_item_def)

lemma start_value_number:
  assumes "s \<noteq> []" "hd s = CHR ''-'' \<or> is_ascii_digit (hd s)"
  shows "start_value F L d p (s @ r) = Read (parse_number F p (s @ r))"
  using assms by (cases s) (auto simp: start_value_def is_ascii_digit_def QUOTE_def)

lemma parse_written:
  assumes "json_fits F L d v" "ends_value r"
  shows "parse_value F L d p (write_value F v @ r) = Inr (v, p + length (write_value F v), r)"
  using assms
proof (induction F L d v arbitrary: p r rule: json_fits.induct)
  case (1 F L d)
  show ?case by (subst parse_value.simps) (simp add: start_value_def parse_literal_def)
next
  case (2 F L d b)
  show ?case by (subst parse_value.simps) (simp add: start_value_def parse_literal_def)
next
  case (3 F L d i)
  then have "itoa i \<noteq> []" "hd (itoa i) = CHR ''-'' \<or> is_ascii_digit (hd (itoa i))"
    using scan_number_start [OF itoa_scan [of i]] by auto
  from start_value_number [OF this, of F L d p r] 3 show ?case
    by (subst parse_value.simps) (simp add: write_number_def parse_written_int)
next
  case (4 F L d f)
  then have s: "scan_number (f64_debug F f) = Some (length (f64_debug F f), True)" by (simp add: f64_text_ok_def)
  from start_value_number [OF conjunct1 [OF scan_number_start [OF s]] conjunct2 [OF scan_number_start [OF s]], of F L d p r] 4
    scan_number_append [OF 4(2), of "f64_debug F f"] s
  show ?case by (subst parse_value.simps) (simp add: write_number_def f64_text_ok_def parse_number_def)
next
  case (5 F L d s)
  obtain t where "write_string s = QUOTE # t" by (simp add: write_string_def)
  then have "start_value F L d p (write_string s @ r) = Read (map_sum id (\<lambda>(t, r). (JString t, r)) (parse_string L p (write_string s @ r)))"
    by (simp add: start_value_def QUOTE_def)
  then show ?case using parse_written_string [of L s p r] 5 by (subst parse_value.simps) simp
next
  case (6 F L d xs)
  show ?case
  proof (cases "xs = []")
    case True
    then show ?thesis using 6(2) after_open_close [of "CHR '']''" "p + 1" r]
      by (subst parse_value.simps) (simp add: start_value_def open_container_def commas_def QUOTE_def)
  next
    case False
    have fit: "json_fits F L (d + 1) x" if "x \<in> set xs" for x using 6(2) that by (auto simp: list_all_iff)
    have "starts_item (commas (map (write_value F) xs))"
      using False by (intro commas_start) (auto intro: write_value_starts [OF fit])
    from after_open_item [OF this, of "CHR '']''" "p + 1" "CHR '']'' # r"]
    have "start_value F L d p (write_value F (JArray xs) @ r) = InArray (p + 1) (commas (map (write_value F) xs) @ CHR '']'' # r)"
      using 6(2) by (simp add: start_value_def open_container_def QUOTE_def)
    moreover have "array_loop F L d [] (p + 1) (commas (map (write_value F) xs) @ CHR '']'' # r) =
        Inr (JArray ([] @ xs), p + 1 + length (commas (map (write_value F) xs)) + 1, r)"
      by (rule array_loop_written) (use 6 False fit write_value_starts [OF fit] in auto)
    ultimately show ?thesis by (subst parse_value.simps) simp
  qed
next
  case (7 F L d es)
  show ?case
  proof (cases "es = []")
    case True
    then show ?thesis using 7(2) after_open_close [of "CHR ''}''" "p + 1" r]
      by (subst parse_value.simps) (simp add: start_value_def open_container_def commas_def QUOTE_def)
  next
    case False
    have fit: "string_fits L (fst e) \<and> json_fits F L (d + 1) (snd e)" if "e \<in> set es" for e
      using 7(2) that by (cases e) (auto simp: list_all_iff)
    have "starts_item (commas (map (write_entry F) es))"
      using False by (intro commas_start) (auto intro: write_entry_starts)
    from after_open_item [OF this, of "CHR ''}''" "p + 1" "CHR ''}'' # r"]
    have "start_value F L d p (write_value F (JObject es) @ r) = InObject (p + 1) (commas (map (write_entry F) es) @ CHR ''}'' # r)"
      using 7(2) unfolding write_object_eq by (simp add: start_value_def open_container_def QUOTE_def)
    moreover have "object_loop F L d [] (p + 1) (commas (map (write_entry F) es) @ CHR ''}'' # r) =
        Inr (JObject ([] @ es), p + 1 + length (commas (map (write_entry F) es)) + 1, r)"
    proof (rule object_loop_written)
      fix e p r
      assume e: "e \<in> set es" "ends_value r"
      show "parse_value F L (d + 1) p (write_value F (snd e) @ r) = Inr (snd e, p + length (write_value F (snd e)), r)"
        using 7(1) e fit by (cases e) auto
    qed (use 7(2) False fit write_value_starts [OF conjunct2 [OF fit]] in auto)
    ultimately show ?thesis unfolding write_object_eq by (subst parse_value.simps) simp
  qed
qed

section \<open>Documents\<close>

lemma utf8_valid_write_char:
  assumes "utf8_char c"
  shows "utf8_valid (write_char c)"
  using assms
proof (cases rule: write_char_cases)
  case (simple e ch)
  then have "ord e \<le> 0x7F" by (auto simp: simple_escape_def QUOTE_def BACKSLASH_def split: if_splits)
  then show ?thesis using simple(1) by (simp add: utf8_valid_ascii BACKSLASH_def)
next
  case (unicode x)
  then show ?thesis using utf8_valid_ascii_all [of "write_char c"] by (simp add: BACKSLASH_def)
next
  case itself
  then show ?thesis using utf8_valid_char [OF assms] by simp
qed

lemma utf8_valid_write_string: "utf8_valid s \<Longrightarrow> utf8_valid (write_string s)"
proof -
  assume "utf8_valid s"
  then have "\<forall>c \<in> set (utf8_chars s). utf8_char c" by (simp add: utf8_valid_def list_all_iff)
  then have "list_all utf8_valid (map write_char (utf8_chars s))" by (simp add: list_all_iff utf8_valid_write_char)
  then show ?thesis by (simp add: write_string_def utf8_valid_ascii QUOTE_def utf8_valid_concat utf8_valid_append [OF utf8_valid_concat])
qed

lemma utf8_valid_commas: "list_all utf8_valid ss \<Longrightarrow> utf8_valid (commas ss)"
proof (cases ss)
  case (Cons s ts)
  assume a: "list_all utf8_valid ss"
  then have "utf8_valid (concat (map (\<lambda>s. CHR '','' # s) ts))"
    using Cons by (intro utf8_valid_concat) (auto simp: list_all_iff utf8_valid_ascii)
  then show ?thesis using a Cons by (simp add: commas_def)
qed (simp add: commas_def)

lemma utf8_valid_write: "json_fits F L d v \<Longrightarrow> utf8_valid (write_value F v)"
proof (induction F L d v rule: json_fits.induct)
  case (3 F L d i)
  have "list_all (\<lambda>c. ord c \<le> 0x7F) (show_nat n)" for n
    using show_nat_digits [of n] by (auto simp: list_all_iff is_ascii_digit_def Let_def)
  then show ?case using 3 by (auto simp: write_number_def itoa_show utf8_valid_ascii intro: utf8_valid_ascii_all)
next
  case (4 F L d f)
  then show ?case by (auto simp: write_number_def f64_text_ok_def intro: utf8_valid_ascii_all)
next
  case (5 F L d s)
  then show ?case by (simp add: string_fits_def utf8_valid_write_string)
next
  case (6 F L d xs)
  then have "utf8_valid (commas (map (write_value F) xs))" by (intro utf8_valid_commas) (auto simp: list_all_iff)
  then show ?case by (simp add: utf8_valid_ascii)
next
  case (7 F L d es)
  have "utf8_valid (commas (map (write_entry F) es))"
    using 7 by (intro utf8_valid_commas)
      (force simp: list_all_iff write_entry_def string_fits_def utf8_valid_write_string utf8_valid_ascii split: prod.splits)
  then show ?case unfolding write_object_eq by (simp add: utf8_valid_ascii)
qed (simp_all add: utf8_valid_ascii)

lemma json_parse_written:
  assumes "json_fits F L 0 v" "length (to_string F v) \<le> max_input_bytes L"
  shows "json_parse F L (to_string F v) = Inr v"
proof -
  note st = write_value_starts [OF assms(1), unfolded starts_item_def]
  have "take 3 (write_value F v) \<noteq> [CHR 0xEF, CHR 0xBB, CHR 0xBF]"
  proof
    assume "take 3 (write_value F v) = [CHR 0xEF, CHR 0xBB, CHR 0xBF]"
    then have "hd (write_value F v) = CHR 0xEF" by (metis hd_take list.sel(1) zero_less_numeral)
    then show False using st by simp
  qed
  moreover have "skip_ws 0 (write_value F v) = (0, write_value F v)"
    using skip_ws_item [OF write_value_starts [OF assms(1)], of 0 "[]"] by simp
  ultimately show ?thesis
    using parse_written [OF assms(1), of "[]" 0] assms utf8_valid_write [OF assms(1)] st
    by (simp add: json_parse_def to_string_def ends_value_def)
qed

text \<open>
  C25: Every JSON value within the limits that is written compactly parses back to the same value: strings with any
  characters and escapes, integers of the full 64-bit range, finite doubles, arrays and objects nested to the depth
  allowed, with their entries in order. In particular two different values are never written alike.
\<close>

theorem json_roundtrip:
  assumes "json_fits F L 0 v" "length (to_string F v) \<le> max_input_bytes L"
  shows "json_parse F L (to_string F v) = Inr v"
  by (rule json_parse_written [OF assms])

theorem json_roundtrip_witness:
  "json_parse \<lparr>f64_parse = \<lambda>t. if t = ''0.5'' then Some () else None, f64_debug = \<lambda>_. ''0.5'', f64_finite = \<lambda>_. True, f64_of_int = \<lambda>_. ()\<rparr>
     LIMITS_SMALL
     (to_string \<lparr>f64_parse = \<lambda>t. if t = ''0.5'' then Some () else None, f64_debug = \<lambda>_. ''0.5'', f64_finite = \<lambda>_. True, f64_of_int = \<lambda>_. ()\<rparr>
       (JObject [(''a'', JArray [JNumber (NInt (- 7)), JNumber (NFloat ())]), (''b'', JString [CHR 0x22, CHR 0x01])])) =
   Inr (JObject [(''a'', JArray [JNumber (NInt (- 7)), JNumber (NFloat ())]), (''b'', JString [CHR 0x22, CHR 0x01])])"
proof -
  let ?F = "\<lparr>f64_parse = \<lambda>t. if t = ''0.5'' then Some () else None, f64_debug = \<lambda>_. ''0.5'', f64_finite = \<lambda>_. True, f64_of_int = \<lambda>_. ()\<rparr> :: unit f64_ops"
  let ?v = "JObject [(''a'', JArray [JNumber (NInt (- 7)), JNumber (NFloat ())]), (''b'', JString [CHR 0x22, CHR 0x01])]"
  have "string_fits LIMITS_SMALL ''a''" "string_fits LIMITS_SMALL ''b''" "string_fits LIMITS_SMALL [CHR 0x22, CHR 0x01]"
    "f64_text_ok ?F ()"
    by (simp_all add: string_fits_def write_string_def write_char_def utf8_valid_def utf8_len_def LIMITS_SMALL_def QUOTE_def BACKSLASH_def
        utf8_encode_def f64_text_ok_def scan_number_def int_part_def frac_part_def exp_part_def digits_def is_ascii_digit_def)
  then have "json_fits ?F LIMITS_SMALL 0 ?v" by (simp add: LIMITS_SMALL_def i64_min_def i64_max_def)
  moreover have i7: "itoa (- 7) = ''-7''" by code_simp
  moreover have "length (to_string ?F ?v) \<le> max_input_bytes LIMITS_SMALL"
    by (simp add: to_string_def commas_def write_string_def write_char_def utf8_len_def LIMITS_SMALL_def QUOTE_def BACKSLASH_def
        write_number_def i7 utf8_encode_def)
  ultimately show ?thesis by (intro json_roundtrip)
qed

text \<open>
  The bound on the length of a string is meant for its decoded bytes, but what is compared with it while the string is
  read is the number of input bytes, escapes included: a short string written with escapes is refused.
\<close>

lemma string_limit_counts_escapes:
  assumes "max_string_bytes L = 8"
  shows "parse_string L 0 ([QUOTE, BACKSLASH] @ ''u0041'' @ [BACKSLASH] @ ''u0041b'' @ [QUOTE]) = fail_at StringTooLong 14"
proof -
  have h: "''0041'' = [json_hex_digit 0, json_hex_digit 0, json_hex_digit 4, json_hex_digit 1]" by code_simp
  have A: "utf8_encode 65 = ''A''" by code_simp
  have u: "parse_unicode_escape p (''0041'' @ r) = Inr (''A'', p + 4, r)" for p r
    unfolding h using unicode_escape_digits [of 0 0 4 1 p r] A by simp
  let ?w = "BACKSLASH # CHR ''u'' # ''0041'' @ BACKSLASH # CHR ''u'' # ''0041'' @ [CHR ''b'', QUOTE]"
  have "string_loop L 1 ?w None 1 ?w = string_loop L 1 ?w (Some ([] @ ''A'')) 7 (BACKSLASH # CHR ''u'' # ''0041'' @ [CHR ''b'', QUOTE])"
    using u [of 3] assms by (intro escape_loop) (auto simp: buffered_def numeral_3_eq_3)
  also have "\<dots> = string_loop L 1 ?w (Some (''A'' @ ''A'')) 13 [CHR ''b'', QUOTE]"
    using u [of 9 "[CHR ''b'', QUOTE]"] assms by (simp only: append_Nil, intro escape_loop) (auto simp: buffered_def utf8_valid_ascii)
  also have "\<dots> = fail_at StringTooLong 14"
    using assms by (subst string_loop.simps) (simp add: string_turn_def plain_turn_def QUOTE_def BACKSLASH_def utf8_len_def utf8_valid_ascii)
  finally show ?thesis by (simp add: parse_string_def expect_byte_def)
qed

section \<open>Canonical form\<close>

text \<open>Two values that differ only in the order of the entries of their objects.\<close>

inductive same_entries :: "'f json \<Rightarrow> 'f json \<Rightarrow> bool" where
  same_refl: "same_entries v v"
| same_array: "list_all2 same_entries xs ys \<Longrightarrow> same_entries (JArray xs) (JArray ys)"
| same_object: "list_all2 (rel_prod (=) same_entries) es fs \<Longrightarrow> mset fs = mset gs \<Longrightarrow> distinct (map fst gs) \<Longrightarrow>
    same_entries (JObject es) (JObject gs)"
monos prod.rel_mono

lemma filter_key: "distinct (map fst xs) \<Longrightarrow> k \<in> set xs \<Longrightarrow> filter (\<lambda>x. fst k = fst x) xs = [k]"
proof (induction xs)
  case (Cons x xs)
  show ?case
  proof (cases "k = x")
    case True
    then have "filter (\<lambda>x. fst k = fst x) xs = []" using Cons(2) by (auto simp: filter_empty_conv)
    then show ?thesis using True by simp
  next
    case False
    then have "k \<in> set xs" using Cons(3) by simp
    moreover from this have "fst k \<noteq> fst x" using Cons(2) by simp (metis imageI)
    ultimately show ?thesis using Cons by simp
  qed
qed simp

lemma sort_key_distinct:
  assumes "mset fs = mset gs" "distinct (map fst gs)"
  shows "sort_key fst fs = sort_key fst gs"
proof (rule properties_for_sort_key)
  show "mset (sort_key fst gs) = mset fs" using assms(1) by simp
  show "sorted (map fst (sort_key fst gs))" by simp
  fix k
  assume k: "k \<in> set (sort_key fst gs)"
  have s: "set fs = set gs" using assms(1) by (rule mset_eq_setD)
  have "distinct (map fst fs)" "distinct (map fst (sort_key fst gs))"
    using assms by (metis distinct_count_atmost_1 mset_map mset_sort mset_eq_imp_distinct_iff)+
  then show "filter (\<lambda>x. fst k = fst x) (sort_key fst gs) = filter (\<lambda>x. fst k = fst x) fs"
    using filter_key [of "sort_key fst gs" k] filter_key [of fs k] k s by simp
qed

lemma same_entries_sort: "same_entries v w \<Longrightarrow> sort_keys v = sort_keys w"
proof (induction rule: same_entries.induct)
  case (same_array xs ys)
  then have "map sort_keys xs = map sort_keys ys" by (induction rule: list_all2_induct) auto
  then show ?case by simp
next
  case (same_object es fs gs)
  let ?h = "\<lambda>(k, v). (k, sort_keys v)"
  from same_object(1) have "map ?h es = map ?h fs" by (induction rule: list_all2_induct) auto
  moreover have "mset (map ?h fs) = mset (map ?h gs)" using same_object(2) by simp
  moreover have "map fst (map ?h gs) = map fst gs" by (auto split: prod.splits)
  ultimately show ?case using sort_key_distinct [of "map ?h fs" "map ?h gs"] same_object(3) by (simp only: sort_keys.simps)
qed simp

lemma json_fits_sort: "json_fits F L d (sort_keys v) = json_fits F L d v"
proof (induction F L d v rule: json_fits.induct)
  case (6 F L d xs)
  then show ?case by (auto simp: list_all_iff)
next
  case (7 F L d es)
  let ?h = "\<lambda>(k, v). (k, sort_keys v)"
  have k: "map fst (map ?h es) = map fst es" by (auto split: prod.splits)
  have "distinct (map fst (sort_key fst (map ?h es))) = distinct (map fst es)"
    by (metis k mset_map mset_sort mset_eq_imp_distinct_iff)
  then show ?case using 7 by (fastforce simp: list_all_iff split: prod.splits)
qed simp_all

text \<open>
  C27: The canonical form of a value does not depend on the order of the entries of its objects, at any depth, and it
  parses back to the value with its keys sorted: a digest of it stands for the value and for nothing else.
\<close>

theorem canonical_form:
  assumes "json_fits F L 0 v" "length (to_canonical_string F v) \<le> max_input_bytes L" "same_entries v w"
  shows "to_canonical_string F w = to_canonical_string F v \<and> json_parse F L (to_canonical_string F v) = Inr (sort_keys v)"
proof
  show "to_canonical_string F w = to_canonical_string F v"
    using same_entries_sort [OF assms(3)] by (simp add: to_canonical_string_def)
  show "json_parse F L (to_canonical_string F v) = Inr (sort_keys v)"
    using json_parse_written [of F L "sort_keys v"] assms(1,2) by (simp add: json_fits_sort to_canonical_string_def)
qed

definition no_floats :: "unit f64_ops" where
  "no_floats = \<lparr>f64_parse = \<lambda>_. None, f64_debug = \<lambda>_. [], f64_finite = \<lambda>_. False, f64_of_int = \<lambda>_. ()\<rparr>"

theorem canonical_form_witness:
  "to_canonical_string no_floats (JObject [(''b'', JNull), (''a'', JNull)]) =
   to_canonical_string no_floats (JObject [(''a'', JNull), (''b'', JNull)])"
proof -
  let ?v = "JObject [(''a'', JNull), (''b'', JNull)] :: unit json"
  have "string_fits LIMITS_SMALL ''a''" "string_fits LIMITS_SMALL ''b''"
    by (simp_all add: string_fits_def write_string_def write_char_def utf8_valid_def utf8_len_def LIMITS_SMALL_def QUOTE_def BACKSLASH_def
        utf8_encode_def)
  then have "json_fits no_floats LIMITS_SMALL 0 ?v" by (simp add: LIMITS_SMALL_def)
  moreover have "length (to_canonical_string no_floats ?v) \<le> max_input_bytes LIMITS_SMALL"
    by (simp add: to_canonical_string_def to_string_def commas_def write_string_def write_char_def utf8_len_def LIMITS_SMALL_def QUOTE_def
        BACKSLASH_def utf8_encode_def)
  moreover have "same_entries ?v (JObject [(''b'', JNull), (''a'', JNull)])"
    by (rule same_object [where fs = "[(''a'', JNull), (''b'', JNull)]"]) (auto intro: same_refl)
  ultimately show ?thesis using canonical_form [of no_floats LIMITS_SMALL ?v] by blast
qed

section \<open>What is accepted is within the limits\<close>

fun json_within :: "'f f64_ops \<Rightarrow> limits \<Rightarrow> nat \<Rightarrow> 'f json \<Rightarrow> bool" where
  "json_within F L d (JNumber (NInt i)) = (i64_min \<le> i \<and> i \<le> i64_max)"
| "json_within F L d (JNumber (NFloat f)) = f64_finite F f"
| "json_within F L d (JString s) = (utf8_valid s \<and> length s \<le> max_string_bytes L)"
| "json_within F L d (JArray xs) =
     (d < max_depth L \<and> length xs \<le> max_array_items L \<and> list_all (json_within F L (d + 1)) xs)"
| "json_within F L d (JObject es) =
     (d < max_depth L \<and> length es \<le> max_object_entries L \<and> (reject_duplicate_keys L \<longrightarrow> distinct (map fst es)) \<and>
      list_all (\<lambda>(k, v). utf8_valid k \<and> length k \<le> max_string_bytes L \<and> json_within F L (d + 1) v) es)"
| "json_within F L d _ = True"

lemma unicode_escape_char: "parse_unicode_escape p s = Inr (ch, p', s') \<Longrightarrow> utf8_valid ch"
  by (auto simp: parse_unicode_escape_def fail_at_def split: sum.splits if_splits list.splits option.splits
      dest!: from_u32_char utf8_valid_char)

lemma string_turn_valid:
  "string_turn L start whole out p s = Continue out' p' s' \<Longrightarrow> (\<forall>b. out = Some b \<longrightarrow> utf8_valid b) \<Longrightarrow> out' = Some b' \<Longrightarrow> utf8_valid b'"
  "string_turn L start whole out p s = Return (Inr (t, p', s')) \<Longrightarrow> (\<forall>b. out = Some b \<longrightarrow> utf8_valid b) \<Longrightarrow>
    utf8_valid t \<and> length t \<le> max_string_bytes L"
proof -
  assume a: "string_turn L start whole out p s = Continue out' p' s'" "\<forall>b. out = Some b \<longrightarrow> utf8_valid b" "out' = Some b'"
  have v: "utf8_valid x" if "decoded_so_far out raw q = Inr x" for raw q x
    using that a(2) by (auto simp: decoded_so_far_def fail_at_def split: option.splits if_splits)
  have e: "utf8_valid [ch]" if "simple_escape c = Some ch" for c ch
    using that by (auto simp: simple_escape_def QUOTE_def BACKSLASH_def utf8_valid_ascii split: if_splits)
  show "utf8_valid b'"
    using a by (auto simp: string_turn_def close_turn_def escape_turn_def plain_turn_def Let_def
        split: list.splits if_splits sum.splits option.splits dest!: v e unicode_escape_char)
next
  assume "string_turn L start whole out p s = Return (Inr (t, p', s'))" "\<forall>b. out = Some b \<longrightarrow> utf8_valid b"
  then show "utf8_valid t \<and> length t \<le> max_string_bytes L"
    by (auto simp: string_turn_def close_turn_def escape_turn_def plain_turn_def decoded_so_far_def fail_at_def Let_def
        split: list.splits if_splits sum.splits option.splits)
qed

lemma string_loop_valid:
  "string_loop L start whole out p s = Inr (t, p', s') \<Longrightarrow> (\<forall>b. out = Some b \<longrightarrow> utf8_valid b) \<Longrightarrow>
    utf8_valid t \<and> length t \<le> max_string_bytes L"
proof (induction L start whole out p s rule: string_loop.induct)
  case (1 L start whole out p s)
  show ?case
  proof (cases "string_turn L start whole out p s")
    case (Return r)
    then show ?thesis using 1(2,3) string_turn_valid(2) [of L start whole out p s] by (simp add: string_loop.simps [of L start whole out p s])
  next
    case (Continue out' p1 s1)
    then show ?thesis
      using 1 string_turn_valid(1) [OF Continue 1(3)] by (simp add: string_loop.simps [of L start whole out p s])
  qed
qed

lemma parse_string_valid: "parse_string L p s = Inr (t, p', s') \<Longrightarrow> utf8_valid t \<and> length t \<le> max_string_bytes L"
  by (auto simp: parse_string_def split: sum.splits dest!: string_loop_valid)

lemma parse_number_within: "parse_number F p s = Inr (v, p', s') \<Longrightarrow> json_within F L d v"
  by (auto simp: parse_number_def parse_i64_def Let_def fail_at_def split: option.splits if_splits)

lemma parse_literal_value: "parse_literal w v p s = Inr (v', p', s') \<Longrightarrow> v' = v"
  by (auto simp: parse_literal_def fail_at_def split: if_splits)

lemma open_container_read:
  "open_container L d c e InArray p bs = Read (Inr (v, p', s')) \<Longrightarrow> v = e \<and> d < max_depth L"
  "open_container L d c e InObject p bs = Read (Inr (v, p', s')) \<Longrightarrow> v = e \<and> d < max_depth L"
  "open_container L d c e InArray p bs = InArray p' s' \<Longrightarrow> d < max_depth L"
  "open_container L d c e InObject p bs = InObject p' s' \<Longrightarrow> d < max_depth L"
  by (auto simp: open_container_def fail_at_def split: if_splits prod.splits bool.splits)

lemma start_value_depth:
  "start_value F L d p s = InArray p' s' \<Longrightarrow> d < max_depth L" "start_value F L d p s = InObject p' s' \<Longrightarrow> d < max_depth L"
  by (auto simp: start_value_def split: list.splits if_splits dest!: open_container_read)

lemma start_value_within:
  assumes "start_value F L d p s = Read (Inr (v, p', s'))"
  shows "json_within F L d v"
proof (cases s)
  case Nil
  then show ?thesis using assms by (simp add: start_value_def fail_at_def)
next
  case (Cons b bs)
  have str: "map_sum id (\<lambda>(t, r). (JString t, r)) x = Inr (v, p', s') \<Longrightarrow> \<exists>t. x = Inr (t, p', s') \<and> v = JString t"
    for x :: "json_error + string \<times> nat \<times> string"
    by (cases x) auto
  consider "parse_literal ''null'' JNull p s = Inr (v, p', s')" | "parse_literal ''true'' (JBool True) p s = Inr (v, p', s')"
    | "parse_literal ''false'' (JBool False) p s = Inr (v, p', s')" | t where "parse_string L p s = Inr (t, p', s')" "v = JString t"
    | "open_container L d (CHR '']'') (JArray []) InArray p bs = Read (Inr (v, p', s'))"
    | "open_container L d (CHR ''}'') (JObject []) InObject p bs = Read (Inr (v, p', s'))"
    | "parse_number F p s = Inr (v, p', s')"
    using assms str by (simp add: start_value_def Cons fail_at_def split: if_split_asm) blast+
  then show ?thesis
    by cases (auto dest: parse_literal_value parse_string_valid open_container_read parse_number_within)
qed

lemma parse_key_valid:
  "parse_key L es p s = Inr (k, p', s') \<Longrightarrow>
    utf8_valid k \<and> length k \<le> max_string_bytes L \<and> (reject_duplicate_keys L \<longrightarrow> k \<notin> fst ` set es)"
  by (auto simp: parse_key_def fail_at_def object_contains split: if_splits sum.splits prod.splits dest!: parse_string_valid)

lemma parse_value_within:
  fixes F :: "'f f64_ops"
  shows "parse_value F L d p s = Inr (v, p', s') \<Longrightarrow> json_within F L d v"
    and "array_loop F L d items p s = Inr (v, p', s') \<Longrightarrow> d < max_depth L \<Longrightarrow> list_all (json_within F L (d + 1)) items \<Longrightarrow>
      json_within F L d v"
    and "object_loop F L d es p s = Inr (v, p', s') \<Longrightarrow> d < max_depth L \<Longrightarrow> reject_duplicate_keys L \<longrightarrow> distinct (map fst es) \<Longrightarrow>
      list_all (\<lambda>(k, v). utf8_valid k \<and> length k \<le> max_string_bytes L \<and> json_within F L (d + 1) v) es \<Longrightarrow> json_within F L d v"
proof (induction F L d p s and F L d items p s and F L d es p s arbitrary: v p' s' and v p' s' and v p' s' rule: parse_value_array_loop_object_loop.induct)
  case (1 F L depth p s)
  show ?case
  proof (cases "start_value F L depth p s")
    case (Read r)
    then show ?thesis using 1(3) start_value_within by (simp add: parse_value.simps)
  next
    case (InArray p1 s1)
    then show ?thesis using 1(1) [OF InArray] 1(3) start_value_depth(1) [OF InArray] by (simp add: parse_value.simps)
  next
    case (InObject p1 s1)
    then show ?thesis using 1(2) [OF InObject] 1(3) start_value_depth(2) [OF InObject] by (simp add: parse_value.simps)
  qed
next
  case (2 F L depth items p s)
  note eq = 2(3) [unfolded array_loop.simps [of F L depth items p s]]
  obtain v1 p1 s1 b p2 s2 where s: "\<not> length items \<ge> max_array_items L" "parse_value F L (depth + 1) p s = Inr (v1, p1, s1)"
    "separator (CHR '']'') p1 s1 = Inr (b, p2, s2)"
    using eq by (auto simp: fail_at_def split: if_splits sum.splits)
  have w: "json_within F L (depth + 1) v1" by (rule 2(1) [OF s(1,2)])
  show ?case using eq s 2(4,5) w 2(2) [OF s(1,2) refl refl s(3) refl refl, of v p' s']
    by (cases b) auto
next
  case (3 F L depth es p s)
  note eq = 3(3) [unfolded object_loop.simps [of F L depth es p s]]
  obtain k p0 s0 v1 p1 s1 b p2 s2 where s: "\<not> length es \<ge> max_object_entries L" "parse_key L es p s = Inr (k, p0, s0)"
    "parse_value F L (depth + 1) p0 s0 = Inr (v1, p1, s1)" "separator (CHR ''}'') p1 s1 = Inr (b, p2, s2)"
    using eq by (auto simp: fail_at_def split: if_splits sum.splits)
  have w: "json_within F L (depth + 1) v1" by (rule 3(1) [OF s(1,2) refl refl s(3)])
  show ?case
    using eq s 3(4,5,6) w parse_key_valid [OF s(2)] 3(2) [OF s(1,2) refl refl s(3) refl refl s(4) refl refl, of v p' s']
    by (cases b) (auto simp: object_push_def)
qed

text \<open>
  C26: A document that is accepted is within every limit it was parsed under: nesting, string lengths, array and object
  sizes, no repeated keys, valid text, integers of 64 bits and finite doubles, and an input no longer than allowed.
\<close>

theorem json_accepted_within:
  assumes "json_parse F L input = Inr v"
  shows "json_within F L 0 v \<and> length input \<le> max_input_bytes L \<and> utf8_valid input"
  using assms
  by (auto simp: json_parse_def fail_at_def split: if_splits prod.splits sum.splits dest!: parse_value_within(1))

theorem json_accepted_within_witness:
  "json_parse no_floats LIMITS_SMALL ''[true]'' = Inr (JArray [JBool True]) \<and> json_within no_floats LIMITS_SMALL 0 (JArray [JBool True])"
proof -
  have "json_parse no_floats LIMITS_SMALL ''[true]'' = Inr (JArray [JBool True])"
    using json_parse_written [of no_floats LIMITS_SMALL "JArray [JBool True]"] by (simp add: to_string_def commas_def LIMITS_SMALL_def)
  then show ?thesis using json_accepted_within by blast
qed

end
