(* ===== verification/Audit_Log.thy ===== *)
theory Audit_Log
  imports Frame Errors Json_Roundtrip
begin

text \<open>
  The audit hash chain (\<open>hypellm-store/src/audit.rs\<close>): actions and events, their canonical JSON, the records that chain
  each event to the one before it, signed checkpoints, and the verification of a chain.
\<close>

section \<open>Actions and outcomes\<close>

datatype audit_action =
    Login | Logout | LoginFailed | KeyCreated | KeyRevoked | KeyExpiryChanged | KeyRestrictionsChanged
  | KeyBudgetSet | KeyBudgetCredited | CredentialCreated | CredentialRotated | CredentialProbed | ConfigAdopted
  | CredentialRevoked | PolicyDrafted | PolicyValidated | PolicyPublished | PolicyRolledBack | RoleChanged
  | TargetStateChanged | TargetQuarantined | TargetQuarantineLifted | BreakGlassOpened | BreakGlassClosed
  | AuditExported | RouterStarted | RouterStopped | SettingsChanged | StateBackedUp | FleetActivate
  | FleetDeactivate | FleetEvict | FleetForcedStop | FleetRollback | FleetFetch | FleetDivergence
  | FleetMemoryDrift | FleetLeaseExpired | FleetConfigurationMismatch | FleetEnrollmentIssued
  | FleetEnrollmentRegistered | FleetEnrollmentApproved | FleetEnrollmentRejected | FleetEnrollmentRevoked
  | FleetCopy | FleetChecksumLearned | FleetArtifactTampered

fun action_as_str :: "audit_action \<Rightarrow> string" where
  "action_as_str Login = ''login''"
| "action_as_str Logout = ''logout''"
| "action_as_str LoginFailed = ''login_failed''"
| "action_as_str KeyCreated = ''key_created''"
| "action_as_str KeyRevoked = ''key_revoked''"
| "action_as_str KeyExpiryChanged = ''key_expiry_changed''"
| "action_as_str KeyRestrictionsChanged = ''key_restrictions_changed''"
| "action_as_str KeyBudgetSet = ''key_budget_set''"
| "action_as_str KeyBudgetCredited = ''key_budget_credited''"
| "action_as_str CredentialCreated = ''credential_created''"
| "action_as_str CredentialRotated = ''credential_rotated''"
| "action_as_str CredentialProbed = ''credential_probed''"
| "action_as_str ConfigAdopted = ''config_adopted''"
| "action_as_str CredentialRevoked = ''credential_revoked''"
| "action_as_str PolicyDrafted = ''policy_drafted''"
| "action_as_str PolicyValidated = ''policy_validated''"
| "action_as_str PolicyPublished = ''policy_published''"
| "action_as_str PolicyRolledBack = ''policy_rolled_back''"
| "action_as_str RoleChanged = ''role_changed''"
| "action_as_str TargetStateChanged = ''target_state_changed''"
| "action_as_str TargetQuarantined = ''target_quarantined''"
| "action_as_str TargetQuarantineLifted = ''target_quarantine_lifted''"
| "action_as_str BreakGlassOpened = ''break_glass_opened''"
| "action_as_str BreakGlassClosed = ''break_glass_closed''"
| "action_as_str AuditExported = ''audit_exported''"
| "action_as_str RouterStarted = ''router_started''"
| "action_as_str RouterStopped = ''router_stopped''"
| "action_as_str SettingsChanged = ''settings_changed''"
| "action_as_str StateBackedUp = ''state_backed_up''"
| "action_as_str FleetActivate = ''fleet.activate''"
| "action_as_str FleetDeactivate = ''fleet.deactivate''"
| "action_as_str FleetEvict = ''fleet.evict''"
| "action_as_str FleetForcedStop = ''fleet.forced_stop''"
| "action_as_str FleetRollback = ''fleet.rollback''"
| "action_as_str FleetFetch = ''fleet.fetch''"
| "action_as_str FleetDivergence = ''fleet.divergence''"
| "action_as_str FleetMemoryDrift = ''fleet.memory_drift''"
| "action_as_str FleetLeaseExpired = ''fleet.lease_expired''"
| "action_as_str FleetConfigurationMismatch = ''fleet.configuration_mismatch''"
| "action_as_str FleetEnrollmentIssued = ''fleet.enrollment_issued''"
| "action_as_str FleetEnrollmentRegistered = ''fleet.enrollment_registered''"
| "action_as_str FleetEnrollmentApproved = ''fleet.enrollment_approved''"
| "action_as_str FleetEnrollmentRejected = ''fleet.enrollment_rejected''"
| "action_as_str FleetEnrollmentRevoked = ''fleet.enrollment_revoked''"
| "action_as_str FleetCopy = ''fleet.copy''"
| "action_as_str FleetChecksumLearned = ''fleet.checksum_learned''"
| "action_as_str FleetArtifactTampered = ''fleet.artifact_tampered''"

definition all_actions :: "audit_action list" where
  "all_actions =
     [Login, Logout, LoginFailed, KeyCreated, KeyRevoked, KeyExpiryChanged, KeyRestrictionsChanged,
      KeyBudgetSet, KeyBudgetCredited, CredentialCreated, CredentialRotated, CredentialProbed,
      ConfigAdopted, CredentialRevoked, PolicyDrafted, PolicyValidated, PolicyPublished,
      PolicyRolledBack, RoleChanged, TargetStateChanged, TargetQuarantined, TargetQuarantineLifted,
      BreakGlassOpened, BreakGlassClosed, AuditExported, RouterStarted, RouterStopped, SettingsChanged,
      StateBackedUp, FleetActivate, FleetDeactivate, FleetEvict, FleetForcedStop, FleetRollback,
      FleetFetch, FleetDivergence, FleetMemoryDrift, FleetLeaseExpired, FleetConfigurationMismatch,
      FleetEnrollmentIssued, FleetEnrollmentRegistered, FleetEnrollmentApproved, FleetEnrollmentRejected,
      FleetEnrollmentRevoked, FleetCopy, FleetChecksumLearned, FleetArtifactTampered]"

definition action_parse :: "string \<Rightarrow> audit_action option" where
  "action_parse s = List.find (\<lambda>a. action_as_str a = s) all_actions"

definition requires_reason :: "audit_action \<Rightarrow> bool" where
  "requires_reason a \<longleftrightarrow> a \<in> {TargetQuarantined, BreakGlassOpened, PolicyRolledBack, FleetForcedStop, FleetArtifactTampered}"

datatype audit_outcome = Success | Denied | Failed

fun outcome_as_str :: "audit_outcome \<Rightarrow> string" where
  "outcome_as_str Success = ''success''"
| "outcome_as_str Denied = ''denied''"
| "outcome_as_str Failed = ''failed''"

definition outcome_parse :: "string \<Rightarrow> audit_outcome option" where
  "outcome_parse s =
     (if s = ''success'' then Some Success else if s = ''denied'' then Some Denied else if s = ''failed'' then Some Failed else None)"

lemma action_in_all: "a \<in> set all_actions"
  by (cases a) (simp_all add: all_actions_def)

lemma actions_distinct: "distinct (map action_as_str all_actions)"
  by code_simp

lemma action_roundtrip [simp]: "action_parse (action_as_str a) = Some a"
  unfolding action_parse_def by (rule find_by_name [OF actions_distinct action_in_all])

lemma outcome_roundtrip [simp]: "outcome_parse (outcome_as_str r) = Some r"
  by (cases r) (simp_all add: outcome_parse_def)

section \<open>Events\<close>

record audit_event =
  ae_timestamp_millis :: nat
  ae_actor :: string
  ae_tenant :: "string option"
  ae_action :: audit_action
  ae_object :: "string option"
  ae_outcome :: audit_outcome
  ae_reason :: "capped option"
  ae_request_id :: "string option"
  ae_source :: "string option"

definition MAX_AUDIT_FIELD :: nat where "MAX_AUDIT_FIELD = 256"

definition capped_field :: "string \<Rightarrow> string" where
  "capped_field s = capped_text (capped_new s MAX_AUDIT_FIELD)"

definition audit_event_new :: "nat \<Rightarrow> string \<Rightarrow> audit_action \<Rightarrow> audit_event" where
  "audit_event_new ts actor action =
     \<lparr>ae_timestamp_millis = ts, ae_actor = capped_field actor, ae_tenant = None, ae_action = action, ae_object = None,
      ae_outcome = Success, ae_reason = None, ae_request_id = None, ae_source = None\<rparr>"

definition with_object :: "string \<Rightarrow> audit_event \<Rightarrow> audit_event" where
  "with_object s e = e\<lparr>ae_object := Some (capped_field s)\<rparr>"

definition with_tenant :: "string \<Rightarrow> audit_event \<Rightarrow> audit_event" where
  "with_tenant s e = e\<lparr>ae_tenant := Some (capped_field s)\<rparr>"

definition with_outcome :: "audit_outcome \<Rightarrow> audit_event \<Rightarrow> audit_event" where
  "with_outcome r e = e\<lparr>ae_outcome := r\<rparr>"

definition with_reason :: "string \<Rightarrow> audit_event \<Rightarrow> audit_event" where
  "with_reason s e = e\<lparr>ae_reason := Some (capped_new s 512)\<rparr>"

definition with_request_id :: "string \<Rightarrow> audit_event \<Rightarrow> audit_event" where
  "with_request_id s e = e\<lparr>ae_request_id := Some (capped_field s)\<rparr>"

definition with_source :: "string \<Rightarrow> audit_event \<Rightarrow> audit_event" where
  "with_source s e = e\<lparr>ae_source := Some (capped_field s)\<rparr>"

definition has_required_reason :: "audit_event \<Rightarrow> bool" where
  "has_required_reason e \<longleftrightarrow> \<not> requires_reason (ae_action e) \<or> is_some_and (\<lambda>r. capped_text r \<noteq> []) (ae_reason e)"

definition event_json :: "'f f64_ops \<Rightarrow> audit_event \<Rightarrow> 'f json" where
  "event_json F e =
     JObject (object_push_opt ''source'' (map_option JString (ae_source e))
       (object_push_opt ''request_id'' (map_option JString (ae_request_id e))
       (object_push_opt ''reason'' (map_option (\<lambda>r. JString (capped_text r)) (ae_reason e))
       (object_push_opt ''tenant'' (map_option JString (ae_tenant e))
       (object_push_opt ''object'' (map_option JString (ae_object e))
       (object_push ''timestamp_millis'' (json_of_u64 F (ae_timestamp_millis e))
       (object_push ''outcome'' (JString (outcome_as_str (ae_outcome e)))
       (object_push ''actor'' (JString (ae_actor e))
       (object_push ''action'' (JString (action_as_str (ae_action e))) [])))))))))"

text \<open>A byte string as bytes, and back.\<close>

definition to_bytes :: "string \<Rightarrow> byte list" where
  "to_bytes s = map (\<lambda>c. word_of_nat (ord c)) s"

definition of_bytes :: "byte list \<Rightarrow> string" where
  "of_bytes bs = map (\<lambda>b. char_of (unat b)) bs"

definition to_canonical_bytes :: "'f f64_ops \<Rightarrow> audit_event \<Rightarrow> byte list" where
  "to_canonical_bytes F e = to_bytes (to_canonical_string F (event_json F e))"

definition opt_str :: "'f json \<Rightarrow> string \<Rightarrow> string option" where
  "opt_str v k = Option.bind (json_get v k) as_str"

definition event_from_json :: "'f json \<Rightarrow> audit_event option" where
  "event_from_json v =
     (case Option.bind (json_get v ''timestamp_millis'') as_u64 of None \<Rightarrow> None
      | Some ts \<Rightarrow> (case opt_str v ''actor'' of None \<Rightarrow> None
      | Some actor \<Rightarrow> (case Option.bind (opt_str v ''action'') action_parse of None \<Rightarrow> None
      | Some action \<Rightarrow> (case Option.bind (opt_str v ''outcome'') outcome_parse of None \<Rightarrow> None
      | Some outcome \<Rightarrow>
          Some \<lparr>ae_timestamp_millis = ts, ae_actor = actor, ae_tenant = opt_str v ''tenant'', ae_action = action,
                ae_object = opt_str v ''object'', ae_outcome = outcome,
                ae_reason = map_option (\<lambda>s. capped_new s 512) (opt_str v ''reason''),
                ae_request_id = opt_str v ''request_id'', ae_source = opt_str v ''source''\<rparr>))))"

section \<open>Records and links\<close>

definition GENESIS :: "byte list" where "GENESIS = replicate 32 0"

record audit_record =
  ar_previous_link :: "byte list"
  ar_event :: audit_event

definition record_to_payload :: "'f f64_ops \<Rightarrow> audit_record \<Rightarrow> byte list" where
  "record_to_payload F r = ar_previous_link r @ to_canonical_bytes F (ar_event r)"

definition record_from_payload :: "'f f64_ops \<Rightarrow> byte list \<Rightarrow> audit_record option" where
  "record_from_payload F payload =
     (if length payload < 32 then None
      else case json_parse F LIMITS_SMALL (of_bytes (drop 32 payload)) of Inl _ \<Rightarrow> None
      | Inr v \<Rightarrow> map_option (\<lambda>e. \<lparr>ar_previous_link = take 32 payload, ar_event = e\<rparr>) (event_from_json v))"

definition link_of :: "byte list \<Rightarrow> byte list \<Rightarrow> byte list" where
  "link_of previous event_bytes = sha256_parts [to_bytes ''hypellm.audit.v1'', previous, event_bytes]"

definition record_link :: "'f f64_ops \<Rightarrow> audit_record \<Rightarrow> byte list" where
  "record_link F r = link_of (ar_previous_link r) (to_canonical_bytes F (ar_event r))"

section \<open>Checkpoints\<close>

record audit_checkpoint =
  cp_sequence :: nat
  cp_link :: "byte list"
  cp_timestamp_millis :: nat
  cp_mac :: "byte list"

definition checkpoint_mac :: "nat \<Rightarrow> byte list \<Rightarrow> nat \<Rightarrow> byte list \<Rightarrow> byte list" where
  "checkpoint_mac sequence link ts key =
     hmac_sha256_parts key [to_bytes ''hypellm.audit.checkpoint.v1'', le_bytes 8 sequence, link, le_bytes 8 ts]"

definition checkpoint_create :: "nat \<Rightarrow> byte list \<Rightarrow> nat \<Rightarrow> byte list \<Rightarrow> audit_checkpoint" where
  "checkpoint_create sequence link ts key =
     \<lparr>cp_sequence = sequence, cp_link = link, cp_timestamp_millis = ts, cp_mac = checkpoint_mac sequence link ts key\<rparr>"

definition checkpoint_verify :: "audit_checkpoint \<Rightarrow> byte list \<Rightarrow> bool" where
  "checkpoint_verify c key = ct_eq (checkpoint_mac (cp_sequence c) (cp_link c) (cp_timestamp_millis c) key) (cp_mac c)"

definition checkpoint_to_payload :: "audit_checkpoint \<Rightarrow> byte list" where
  "checkpoint_to_payload c = le_bytes 8 (cp_sequence c) @ cp_link c @ le_bytes 8 (cp_timestamp_millis c) @ cp_mac c"

definition checkpoint_from_payload :: "byte list \<Rightarrow> audit_checkpoint option" where
  "checkpoint_from_payload p =
     (if length p < 8 then None
      else let rest = drop 8 p in
        if length rest < 32 then None
        else let rest2 = drop 32 rest in
          if length rest2 < 8 then None
          else let rest3 = drop 8 rest2 in
            if length rest3 < 32 then None
            else if drop 32 rest3 \<noteq> [] then None
            else Some \<lparr>cp_sequence = le_value (take 8 p), cp_link = take 32 rest,
                       cp_timestamp_millis = le_value (take 8 rest2), cp_mac = take 32 rest3\<rparr>)"

section \<open>Chains\<close>

datatype chain_verification = Intact "byte list" nat | Broken nat

definition is_intact :: "chain_verification \<Rightarrow> bool" where
  "is_intact v = (case v of Intact _ _ \<Rightarrow> True | Broken _ \<Rightarrow> False)"

fun verify_from :: "'f f64_ops \<Rightarrow> nat \<Rightarrow> byte list \<Rightarrow> audit_record list \<Rightarrow> chain_verification" where
  "verify_from F index expected [] = Intact expected index"
| "verify_from F index expected (r # rs) =
     (if ar_previous_link r \<noteq> expected then Broken index else verify_from F (index + 1) (record_link F r) rs)"

definition verify_chain :: "'f f64_ops \<Rightarrow> audit_record list \<Rightarrow> chain_verification" where
  "verify_chain F rs = verify_from F 0 GENESIS rs"

record audit_chain =
  ac_head :: "byte list"
  ac_count :: nat

definition chain_new :: audit_chain where
  "chain_new = \<lparr>ac_head = GENESIS, ac_count = 0\<rparr>"

definition chain_resume :: "byte list \<Rightarrow> nat \<Rightarrow> audit_chain" where
  "chain_resume head n = \<lparr>ac_head = head, ac_count = n\<rparr>"

text \<open>The count is checked arithmetic: overflowing it panics, which is \<open>None\<close>.\<close>

definition chain_append :: "'f f64_ops \<Rightarrow> audit_event \<Rightarrow> audit_chain \<Rightarrow> (audit_record \<times> audit_chain) option" where
  "chain_append F e c =
     (let r = \<lparr>ar_previous_link = ac_head c, ar_event = e\<rparr>
      in if ac_count c + 1 > u64_max then None
         else Some (r, \<lparr>ac_head = record_link F r, ac_count = ac_count c + 1\<rparr>))"

definition chain_checkpoint :: "nat \<Rightarrow> nat \<Rightarrow> byte list \<Rightarrow> audit_chain \<Rightarrow> audit_checkpoint" where
  "chain_checkpoint sequence ts key c = checkpoint_create sequence (ac_head c) ts key"

section \<open>Encodings and their inverses\<close>

text \<open>
  An encoding with a partial inverse on what is well formed, up to what it forgets: equal encodings then come from equal
  values.
\<close>

locale codec =
  fixes enc :: "'a \<Rightarrow> 'b" and dec :: "'b \<Rightarrow> 'a option" and ok :: "'a \<Rightarrow> bool" and canon :: "'a \<Rightarrow> 'a"
  assumes dec_enc: "ok x \<Longrightarrow> dec (enc x) = Some (canon x)"
begin

lemma enc_inject: "ok x \<Longrightarrow> ok y \<Longrightarrow> enc x = enc y \<Longrightarrow> canon x = canon y"
  by (metis dec_enc option.inject)

lemma enc_inject_list: "list_all ok xs \<Longrightarrow> list_all ok ys \<Longrightarrow> map enc xs = map enc ys \<Longrightarrow> map canon xs = map canon ys"
proof (induction xs arbitrary: ys)
  case (Cons x xs)
  then obtain y zs where "ys = y # zs" by (cases ys) auto
  then show ?case using Cons enc_inject [of x y] by simp
qed simp

end

lemma of_to_bytes [simp]: "of_bytes (to_bytes s) = s"
  by (simp add: of_bytes_def to_bytes_def unat_of_nat map_idI)

lemma to_bytes_length [simp]: "length (to_bytes s) = length s"
  by (simp add: to_bytes_def)

text \<open>Cutting a string on a character boundary leaves valid text.\<close>

lemma utf8_char_continuation:
  assumes "utf8_char c" "0 < i" "i < length c"
  shows "is_continuation (c ! i)"
  using assms by (cases c rule: utf8_char.cases) (auto simp: continuation_def is_continuation_def Let_def nth_Cons' numeral_eq_Suc)

lemma utf8_valid_take:
  assumes "utf8_valid s" "is_char_boundary s n"
  shows "utf8_valid (take n s)"
  using assms
proof (induction s arbitrary: n rule: utf8_chars.induct)
  case (2 a s)
  let ?c = "take (utf8_len a) (a # s)" and ?r = "drop (utf8_len a) (a # s)"
  have c: "utf8_char ?c" "utf8_valid ?r" using 2(2) by (auto simp: utf8_valid_def)
  have s: "a # s = ?c @ ?r" by simp
  show ?case
  proof (cases "n < length ?c")
    case True
    have "n = 0"
    proof (rule ccontr)
      assume "n \<noteq> 0"
      then have "is_continuation (?c ! n)" using utf8_char_continuation [OF c(1)] True by simp
      then have "is_continuation ((a # s) ! n)" using True by simp
      then show False using 2(3) \<open>n \<noteq> 0\<close> True by (auto simp: is_char_boundary_def)
    qed
    then show ?thesis by simp
  next
    case False
    let ?m = "n - length ?c"
    have "is_char_boundary ?r ?m"
      using 2(3) False by (auto simp: is_char_boundary_def min_def split: if_splits)
    then have "utf8_valid (take ?m ?r)" using 2(1) c(2) by blast
    moreover have "take n (?c @ ?r) = ?c @ take ?m ?r" using False by (simp only: take_append take_all not_less)
    ultimately show ?thesis using utf8_valid_char [OF c(1)] s by (metis utf8_valid_append)
  qed
qed simp

lemma capped_valid: "utf8_valid s \<Longrightarrow> utf8_valid (capped_text (capped_new s n))"
  by (simp add: capped_new_def utf8_valid_take back_to_boundary_ok)

text \<open>How long what is written can be.\<close>

lemma write_char_length:
  assumes "utf8_char c"
  shows "length (write_char c) \<le> 6 * length c"
proof -
  have "1 \<le> length c" using assms by (cases c) auto
  with assms show ?thesis by (cases rule: write_char_cases) (simp_all, linarith?)
qed

lemma write_string_length: "utf8_valid s \<Longrightarrow> length (write_string s) \<le> 6 * length s + 2"
proof -
  have "list_all utf8_char cs \<Longrightarrow> length (concat (map write_char cs)) \<le> 6 * length (concat cs)" for cs
    by (induction cs) (auto dest: write_char_length)
  from this [of "utf8_chars s"] show "utf8_valid s \<Longrightarrow> ?thesis" by (simp add: write_string_def utf8_valid_def)
qed

lemma short_string_fits: "utf8_valid s \<Longrightarrow> length s \<le> 512 \<Longrightarrow> string_fits LIMITS_SMALL s"
  using write_string_length [of s] by (simp add: string_fits_def LIMITS_SMALL_def)

lemma itoa_length: "length (itoa v) \<le> 21"
proof -
  have "length (itoa_digits k n) \<le> k" for k n by (induction k arbitrary: n) auto
  from this [of 20 "nat \<bar>v\<bar>"] show ?thesis by (auto simp: itoa_def)
qed

lemma commas_length: "(\<And>s. s \<in> set ss \<Longrightarrow> length s \<le> b) \<Longrightarrow> length (commas ss) \<le> length ss * (b + 1)"
proof (cases ss)
  case (Cons s ts)
  assume a: "\<And>s. s \<in> set ss \<Longrightarrow> length s \<le> b"
  then have "length (concat (map (\<lambda>s. CHR '','' # s) ts)) \<le> length ts * (b + 1)" if "set ts \<subseteq> set ss" for ts
    using that by (induction ts) fastforce+
  from this [of ts] have "length (concat (map (\<lambda>s. CHR '','' # s) ts)) \<le> length ts * (b + 1)" using Cons by auto
  then show ?thesis using a [of s] Cons by (simp add: commas_def)
qed (simp add: commas_def)

section \<open>Events read back\<close>

definition field_ok :: "nat \<Rightarrow> string \<Rightarrow> bool" where
  "field_ok n s \<longleftrightarrow> utf8_valid s \<and> length s \<le> n"

definition opt_ok :: "nat \<Rightarrow> string option \<Rightarrow> bool" where
  "opt_ok n = is_none_or (field_ok n)"

text \<open>What every event built by the constructor and the \<open>with\<close> methods from valid text satisfies.\<close>

definition event_ok :: "audit_event \<Rightarrow> bool" where
  "event_ok e \<longleftrightarrow>
     int (ae_timestamp_millis e) \<le> i64_max \<and> field_ok MAX_AUDIT_FIELD (ae_actor e) \<and>
     opt_ok MAX_AUDIT_FIELD (ae_tenant e) \<and> opt_ok MAX_AUDIT_FIELD (ae_object e) \<and>
     opt_ok 512 (map_option capped_text (ae_reason e)) \<and> opt_ok MAX_AUDIT_FIELD (ae_request_id e) \<and>
     opt_ok MAX_AUDIT_FIELD (ae_source e)"

lemma capped_field_ok: "utf8_valid s \<Longrightarrow> field_ok MAX_AUDIT_FIELD (capped_field s)"
  by (simp add: field_ok_def capped_field_def capped_valid capped_new_bounded)

lemma event_builders_ok:
  assumes "utf8_valid s"
  shows "int ts \<le> i64_max \<Longrightarrow> event_ok (audit_event_new ts s action)"
    and "event_ok e \<Longrightarrow> event_ok (with_object s e)" and "event_ok e \<Longrightarrow> event_ok (with_tenant s e)"
    and "event_ok e \<Longrightarrow> event_ok (with_request_id s e)" and "event_ok e \<Longrightarrow> event_ok (with_source s e)"
    and "event_ok e \<Longrightarrow> event_ok (with_reason s e)" and "event_ok e \<Longrightarrow> event_ok (with_outcome r e)"
  using capped_field_ok [OF assms] capped_valid [OF assms, of 512] capped_new_bounded [of s 512]
  by (simp_all add: event_ok_def audit_event_new_def with_object_def with_tenant_def with_request_id_def with_source_def
      with_reason_def with_outcome_def opt_ok_def is_none_or_def field_ok_def)

text \<open>Reading an event back forgets only whether its reason had been cut.\<close>

definition event_canon :: "audit_event \<Rightarrow> audit_event" where
  "event_canon e = e\<lparr>ae_reason := map_option (\<lambda>r. \<lparr>capped_text = capped_text r, capped_truncated = False\<rparr>) (ae_reason e)\<rparr>"

lemma object_get_push [simp]:
  "object_get (object_push k v es) k' = (case object_get es k' of Some x \<Rightarrow> Some x | None \<Rightarrow> if k = k' then Some v else None)"
  "object_get (object_push_opt k ov es) k' = (case object_get es k' of Some x \<Rightarrow> Some x | None \<Rightarrow> if k = k' then ov else None)"
  "object_get [] k' = None"
  by (induction es) (auto simp: object_get_def object_push_def object_push_opt_def split: option.splits)

lemma object_get_None: "object_get es k = None \<longleftrightarrow> k \<notin> fst ` set es"
  using object_contains [of es k] by (auto simp: object_contains_key_def)

lemma distinct_push [simp]:
  "distinct (map fst (object_push k v es)) \<longleftrightarrow> distinct (map fst es) \<and> object_get es k = None"
  "distinct (map fst (object_push_opt k ov es)) \<longleftrightarrow> distinct (map fst es) \<and> (ov = None \<or> object_get es k = None)"
  by (auto simp: object_push_def object_push_opt_def object_get_None split: option.splits)

lemma list_all_push [simp]:
  "list_all P (object_push k v es) \<longleftrightarrow> list_all P es \<and> P (k, v)"
  "list_all P (object_push_opt k ov es) \<longleftrightarrow> list_all P es \<and> is_none_or (\<lambda>v. P (k, v)) ov"
  by (auto simp: object_push_def object_push_opt_def is_none_or_def split: option.splits)

lemma length_push [simp]:
  "length (object_push k v es) = length es + 1"
  "length (object_push_opt k ov es) = length es + (if ov = None then 0 else 1)"
  by (auto simp: object_push_def object_push_opt_def split: option.splits)

lemma object_get_map_of: "object_get es k = map_of es k"
  by (induction es) (auto simp: object_get_def)

text \<open>Lookup does not see the order of the entries.\<close>

lemma json_get_sorted:
  assumes "distinct (map fst es)"
  shows "json_get (sort_keys (JObject es)) k = map_option sort_keys (object_get es k)"
proof -
  let ?h = "\<lambda>(k, v). (k, sort_keys v)"
  have k: "map fst (map ?h es) = map fst es" by (auto split: prod.splits)
  have "distinct (map fst (sort_key fst (map ?h es)))"
    by (metis assms k mset_map mset_sort mset_eq_imp_distinct_iff)
  then have "map_of (sort_key fst (map ?h es)) = map_of (map ?h es)"
    using assms k by (simp only: map_of_inject_set set_sort)
  moreover have "map_of (map ?h es) k = map_option sort_keys (map_of es k)" by (induction es) auto
  ultimately show ?thesis by (simp add: json_get_def object_get_map_of)
qed

definition event_entries :: "'f f64_ops \<Rightarrow> audit_event \<Rightarrow> (string \<times> 'f json) list" where
  "event_entries F e = the (as_object (event_json F e))"

lemma event_json_entries: "event_json F e = JObject (event_entries F e)"
  by (simp add: event_entries_def event_json_def)

lemma event_entries_distinct: "distinct (map fst (event_entries F e))"
  by (simp add: event_entries_def event_json_def)

lemma event_lookup:
  "object_get (event_entries F e) ''timestamp_millis'' = Some (json_of_u64 F (ae_timestamp_millis e))"
  "object_get (event_entries F e) ''actor'' = Some (JString (ae_actor e))"
  "object_get (event_entries F e) ''action'' = Some (JString (action_as_str (ae_action e)))"
  "object_get (event_entries F e) ''outcome'' = Some (JString (outcome_as_str (ae_outcome e)))"
  "object_get (event_entries F e) ''object'' = map_option JString (ae_object e)"
  "object_get (event_entries F e) ''tenant'' = map_option JString (ae_tenant e)"
  "object_get (event_entries F e) ''reason'' = map_option (\<lambda>r. JString (capped_text r)) (ae_reason e)"
  "object_get (event_entries F e) ''request_id'' = map_option JString (ae_request_id e)"
  "object_get (event_entries F e) ''source'' = map_option JString (ae_source e)"
  by (simp_all add: event_entries_def event_json_def map_option_case split: option.splits)

lemma event_from_sorted:
  assumes "event_ok e"
  shows "event_from_json (sort_keys (event_json F e)) = Some (event_canon e)"
proof -
  have g: "json_get (sort_keys (event_json F e)) k = map_option sort_keys (object_get (event_entries F e) k)" for k
    unfolding event_json_entries by (rule json_get_sorted [OF event_entries_distinct])
  have s: "opt_str (sort_keys (event_json F e)) k = Option.bind (object_get (event_entries F e) k) as_str" for k
    unfolding opt_str_def g by (cases "object_get (event_entries F e) k"; cases "the (object_get (event_entries F e) k)") auto
  have ts: "Option.bind (json_get (sort_keys (event_json F e)) ''timestamp_millis'') as_u64 = Some (ae_timestamp_millis e)"
    using assms unfolding g event_lookup by (simp add: json_of_u64_def event_ok_def as_u64_def)
  have r: "map_option (\<lambda>s. capped_new s 512) (map_option capped_text (ae_reason e)) =
      map_option (\<lambda>r. \<lparr>capped_text = capped_text r, capped_truncated = False\<rparr>) (ae_reason e)"
    using assms by (cases "ae_reason e") (auto simp: event_ok_def opt_ok_def is_none_or_def field_ok_def capped_new_def)
  have b: "Option.bind (map_option JString x) as_str = x" for x :: "string option" by (cases x) simp_all
  have b': "Option.bind (map_option (\<lambda>r. JString (capped_text r)) x) as_str = map_option capped_text x" for x :: "capped option"
    by (cases x) simp_all
  show ?thesis
    unfolding event_from_json_def ts s event_lookup b b' r by (simp add: event_canon_def)
qed

lemma name_fits: "length s \<le> 512 \<Longrightarrow> list_all (\<lambda>c. ord c \<le> 0x7F) s \<Longrightarrow> string_fits LIMITS_SMALL s"
  by (simp add: short_string_fits utf8_valid_ascii_all)

lemma action_name_ok: "field_ok 512 (action_as_str a)"
  by (cases a) (simp_all add: field_ok_def utf8_valid_ascii)

lemma outcome_name_ok: "field_ok 512 (outcome_as_str r)"
  by (cases r) (simp_all add: field_ok_def utf8_valid_ascii)

text \<open>Every entry is a short string, or the timestamp.\<close>

definition short_entry :: "string \<times> 'f json \<Rightarrow> bool" where
  "short_entry = (\<lambda>(k, v). field_ok 16 k \<and> (case v of JString s \<Rightarrow> field_ok 512 s | JNumber (NInt i) \<Rightarrow> i64_min \<le> i \<and> i \<le> i64_max | _ \<Rightarrow> False))"

lemma field_ok_mono: "field_ok m s \<Longrightarrow> m \<le> n \<Longrightarrow> field_ok n s"
  by (simp add: field_ok_def)

lemma event_entries_short: "event_ok e \<Longrightarrow> list_all short_entry (event_entries F e)"
proof -
  assume e: "event_ok e"
  have k: "field_ok 16 ''timestamp_millis''" "field_ok 16 ''actor''" "field_ok 16 ''action''" "field_ok 16 ''outcome''" "field_ok 16 ''object''"
    "field_ok 16 ''tenant''" "field_ok 16 ''reason''" "field_ok 16 ''request_id''" "field_ok 16 ''source''"
    by (simp_all add: field_ok_def utf8_valid_ascii)
  have m: "field_ok MAX_AUDIT_FIELD s \<Longrightarrow> field_ok 512 s" for s by (auto simp: MAX_AUDIT_FIELD_def field_ok_def)
  show ?thesis
    using e action_name_ok outcome_name_ok
    by (simp add: event_entries_def event_json_def short_entry_def k json_of_u64_def event_ok_def opt_ok_def is_none_or_def i64_min_def
        split: option.splits) (auto simp: m)
qed

lemma short_entry_fits:
  assumes "short_entry e"
  shows "string_fits LIMITS_SMALL (fst e)" "json_fits F LIMITS_SMALL 1 (snd e)"
    "length (write_entry F (fst e, sort_keys (snd e))) \<le> 3200"
proof -
  obtain k v where e: "e = (k, v)" by (cases e)
  have k: "utf8_valid k" "length k \<le> 16" using assms e by (auto simp: short_entry_def field_ok_def)
  then show "string_fits LIMITS_SMALL (fst e)" using e by (simp add: short_string_fits)
  have "json_fits F LIMITS_SMALL 1 v \<and> length (write_value F (sort_keys v)) \<le> 3074"
  proof (cases v)
    case (JNumber n)
    then show ?thesis using assms e itoa_length [of "case n of NInt i \<Rightarrow> i"]
      by (cases n) (auto simp: short_entry_def write_number_def intro: le_trans [OF itoa_length])
  next
    case (JString s)
    then have "utf8_valid s" "length s \<le> 512" using assms e by (auto simp: short_entry_def field_ok_def)
    then show ?thesis using write_string_length [of s] JString by (simp add: short_string_fits)
  qed (use assms e in \<open>auto simp: short_entry_def\<close>)
  then show "json_fits F LIMITS_SMALL 1 (snd e)" "length (write_entry F (fst e, sort_keys (snd e))) \<le> 3200"
    using write_string_length [OF k(1)] k(2) e by (auto simp: write_entry_def)
qed

lemma event_entries_count: "length (event_entries F e) \<le> 9"
  by (simp add: event_entries_def event_json_def)

lemma event_json_fits: "event_ok e \<Longrightarrow> json_fits F LIMITS_SMALL 0 (event_json F e)"
  using event_entries_short [of e F] event_entries_distinct [of F e] event_entries_count [of F e] short_entry_fits
  by (auto simp: event_json_entries LIMITS_SMALL_def list_all_iff split: prod.splits) force+

lemma canonical_event_length:
  assumes "event_ok e"
  shows "length (to_canonical_string F (event_json F e)) \<le> 28811"
proof -
  let ?es = "sort_key fst (map (\<lambda>(k, v). (k, sort_keys v)) (event_entries F e))"
  have w: "to_canonical_string F (event_json F e) = CHR ''{'' # commas (map (write_entry F) ?es) @ [CHR ''}'']"
    unfolding to_canonical_string_def to_string_def event_json_entries sort_keys.simps write_object_eq ..
  have "length (commas (map (write_entry F) ?es)) \<le> length (map (write_entry F) ?es) * (3200 + 1)"
  proof (rule commas_length)
    fix s assume "s \<in> set (map (write_entry F) ?es)"
    then obtain x where "x \<in> set (event_entries F e)" "s = write_entry F (fst x, sort_keys (snd x))" by auto
    then show "length s \<le> 3200" using event_entries_short [OF assms, of F] short_entry_fits(3) [of x F] by (auto simp: list_all_iff)
  qed
  then show ?thesis using event_entries_count [of F e] by (simp add: w)
qed

lemma parse_canonical_event:
  "event_ok e \<Longrightarrow> json_parse F LIMITS_SMALL (to_canonical_string F (event_json F e)) = Inr (sort_keys (event_json F e))"
  using json_parse_written [of F LIMITS_SMALL "sort_keys (event_json F e)"] canonical_event_length [of e F] event_json_fits [of e F]
  by (simp add: json_fits_sort to_canonical_string_def LIMITS_SMALL_def)

section \<open>Records read back\<close>

definition record_ok :: "audit_record \<Rightarrow> bool" where
  "record_ok r \<longleftrightarrow> length (ar_previous_link r) = 32 \<and> event_ok (ar_event r)"

definition record_canon :: "audit_record \<Rightarrow> audit_record" where
  "record_canon r = r\<lparr>ar_event := event_canon (ar_event r)\<rparr>"

lemma record_payload_roundtrip: "record_ok r \<Longrightarrow> record_from_payload F (record_to_payload F r) = Some (record_canon r)"
  by (cases r) (simp add: record_ok_def record_from_payload_def record_to_payload_def to_canonical_bytes_def parse_canonical_event
      event_from_sorted record_canon_def)

lemma checkpoint_payload_roundtrip:
  assumes "cp_sequence c < 2 ^ 64" "length (cp_link c) = 32" "cp_timestamp_millis c < 2 ^ 64" "length (cp_mac c) = 32"
  shows "checkpoint_from_payload (checkpoint_to_payload c) = Some c"
  using assms by (cases c) (simp add: checkpoint_from_payload_def checkpoint_to_payload_def le_value_bytes)

definition checkpoint_ok :: "audit_checkpoint \<Rightarrow> bool" where
  "checkpoint_ok c \<longleftrightarrow> cp_sequence c < 2 ^ 64 \<and> length (cp_link c) = 32 \<and> cp_timestamp_millis c < 2 ^ 64 \<and> length (cp_mac c) = 32"

interpretation record_codec: codec "record_to_payload F" "record_from_payload F" record_ok record_canon
  by unfold_locales (rule record_payload_roundtrip)

interpretation checkpoint_codec: codec checkpoint_to_payload checkpoint_from_payload checkpoint_ok id
  by unfold_locales (simp add: checkpoint_ok_def checkpoint_payload_roundtrip)

section \<open>Chains\<close>

text \<open>The message a link is the digest of.\<close>

definition link_message :: "'f f64_ops \<Rightarrow> audit_record \<Rightarrow> byte list" where
  "link_message F r = to_bytes ''hypellm.audit.v1'' @ record_to_payload F r"

lemma record_payload_length: "record_ok r \<Longrightarrow> length (record_to_payload F r) \<le> 28843"
  using canonical_event_length [of "ar_event r" F] by (simp add: record_ok_def record_to_payload_def to_canonical_bytes_def)

lemma record_link_digest:
  assumes "record_ok r"
  shows "record_link F r = sha256 (link_message F r)"
proof -
  have l: "8 * length (link_message F r) \<le> u64_max"
    using record_payload_length [OF assms, of F] by (simp add: link_message_def u64_max_def)
  have "hashes (concat [to_bytes ''hypellm.audit.v1'', ar_previous_link r, to_canonical_bytes F (ar_event r)])
      (fold sha256_update [to_bytes ''hypellm.audit.v1'', ar_previous_link r, to_canonical_bytes F (ar_event r)] sha256_new)"
    using hashes_parts [OF hashes_new, of "[to_bytes ''hypellm.audit.v1'', ar_previous_link r, to_canonical_bytes F (ar_event r)]"]
    by (simp only: append_Nil)
  then have "record_link F r = fips_sha256 (link_message F r)"
    using hashes_finalize [of "link_message F r"] l
    by (simp add: record_link_def link_of_def sha256_parts_def link_message_def record_to_payload_def)
  then show ?thesis using hashes_sha256 [OF l] by simp
qed

lemma record_link_length [simp]: "length (record_link F r) = 32"
  by (simp add: record_link_def link_of_def sha256_parts_def finalize_length)

lemma verify_from_snoc:
  "verify_from F i x (rs @ [r]) = Intact h n \<longleftrightarrow>
     verify_from F i x rs = Intact (ar_previous_link r) (i + length rs) \<and> h = record_link F r \<and> n = i + length rs + 1"
proof (induction rs arbitrary: i x)
  case Nil
  show ?case by auto
next
  case (Cons r' rs)
  show ?case using Cons [of "i + 1"] by auto
qed

lemma verify_from_count: "verify_from F i x rs = Intact h n \<Longrightarrow> n = i + length rs"
proof (induction rs arbitrary: i x)
  case (Cons r rs)
  show ?case using Cons.IH [of "i + 1" "record_link F r"] Cons.prems by (simp split: if_splits)
qed simp

lemma chains_agree:
  assumes "verify_from F i GENESIS rs = Intact h n" "verify_from F j GENESIS rs' = Intact h m"
    "list_all record_ok rs" "list_all record_ok rs'"
    "\<not> (\<exists>r \<in> set rs. \<exists>r' \<in> set rs'. link_message F r \<noteq> link_message F r' \<and> sha256 (link_message F r) = sha256 (link_message F r'))"
    "\<not> (\<exists>r \<in> set rs \<union> set rs'. sha256 (link_message F r) = GENESIS)"
  shows "map (record_to_payload F) rs = map (record_to_payload F) rs'"
  using assms
proof (induction rs arbitrary: rs' h n m rule: rev_induct)
  case Nil
  show ?case
  proof (cases rs' rule: rev_cases)
    case (snoc qs q)
    then have "record_link F q = GENESIS" "record_ok q" using Nil by (auto simp: verify_from_snoc)
    then show ?thesis using Nil(6) snoc record_link_digest [of q F] by simp
  qed simp
next
  case (snoc r rs)
  have r: "verify_from F i GENESIS rs = Intact (ar_previous_link r) (i + length rs)" "h = record_link F r" "record_ok r"
    using snoc.prems by (auto simp: verify_from_snoc)
  show ?case
  proof (cases rs' rule: rev_cases)
    case Nil
    then have "record_link F r = GENESIS" using snoc.prems(2) r by simp
    then show ?thesis using snoc.prems(6) record_link_digest [OF r(3), of F] by simp
  next
    case (snoc qs q)
    then have q: "verify_from F j GENESIS qs = Intact (ar_previous_link q) (j + length qs)" "h = record_link F q" "record_ok q"
      using snoc.prems by (auto simp: verify_from_snoc)
    have "sha256 (link_message F r) = sha256 (link_message F q)" using r(2) q(2) record_link_digest r(3) q(3) by metis
    then have "link_message F r = link_message F q" using snoc.prems(5) snoc by auto
    then have p: "record_to_payload F r = record_to_payload F q" by (simp add: link_message_def)
    then have "ar_previous_link r = ar_previous_link q"
      using r(3) q(3) by (simp add: record_to_payload_def record_ok_def)
    then have "map (record_to_payload F) rs = map (record_to_payload F) qs"
      using snoc.prems snoc q(1) r(1) by (intro snoc.IH [OF r(1), of qs]) auto
    then show ?thesis using p snoc by simp
  qed
qed

text \<open>
  C23: The audit chain is tamper evident: two histories that verify and end in the same head, which a signed checkpoint
  records, are the same events in the same order. Otherwise the two histories themselves contain two different messages
  with the same SHA-256 digest, or one whose digest is the all-zero genesis link.
\<close>

theorem audit_tamper_evident:
  assumes "verify_chain F rs = Intact h n" "verify_chain F rs' = Intact h m" "list_all record_ok rs" "list_all record_ok rs'"
  shows "map record_canon rs = map record_canon rs' \<and> n = m \<or>
    (\<exists>r \<in> set rs. \<exists>r' \<in> set rs'. link_message F r \<noteq> link_message F r' \<and> sha256 (link_message F r) = sha256 (link_message F r')) \<or>
    (\<exists>r \<in> set rs \<union> set rs'. sha256 (link_message F r) = GENESIS)"
proof -
  have "n = length rs" "m = length rs'"
    using assms(1,2) verify_from_count [of F 0 GENESIS] by (simp_all add: verify_chain_def)
  then show ?thesis
    using chains_agree [OF assms(1,2) [unfolded verify_chain_def] assms(3,4)] record_codec.enc_inject_list [OF assms(3,4), of F]
    by (metis length_map)
qed

definition witness_ops :: "unit f64_ops" where
  "witness_ops = \<lparr>f64_parse = \<lambda>_. None, f64_debug = \<lambda>_. ''0.5'', f64_finite = \<lambda>_. True, f64_of_int = \<lambda>_. ()\<rparr>"

definition witness_event :: audit_event where
  "witness_event = with_reason ''loop'' (with_object ''t1'' (audit_event_new 7 ''ann'' TargetQuarantined))"

lemma witness_event_ok: "event_ok witness_event"
  unfolding witness_event_def
  by (intro event_builders_ok utf8_valid_ascii_all) (simp_all add: i64_max_def)

theorem audit_tamper_evident_witness:
  "verify_chain witness_ops [\<lparr>ar_previous_link = GENESIS, ar_event = witness_event\<rparr>] =
     Intact (record_link witness_ops \<lparr>ar_previous_link = GENESIS, ar_event = witness_event\<rparr>) 1 \<and>
   (map record_canon [\<lparr>ar_previous_link = GENESIS, ar_event = witness_event\<rparr>] =
      map record_canon [\<lparr>ar_previous_link = GENESIS, ar_event = witness_event\<rparr>] \<and> (1 :: nat) = 1 \<or>
    sha256 (link_message witness_ops \<lparr>ar_previous_link = GENESIS, ar_event = witness_event\<rparr>) = GENESIS)"
proof -
  let ?r = "\<lparr>ar_previous_link = GENESIS, ar_event = witness_event\<rparr>"
  have v: "verify_chain witness_ops [?r] = Intact (record_link witness_ops ?r) 1" by (simp add: verify_chain_def)
  have "list_all record_ok [?r]" by (simp add: record_ok_def witness_event_ok GENESIS_def)
  from audit_tamper_evident [OF v v this this] v show ?thesis by simp
qed

section \<open>Histories\<close>

text \<open>Appending a sequence of events.\<close>

fun append_events :: "'f f64_ops \<Rightarrow> audit_event list \<Rightarrow> audit_chain \<Rightarrow> (audit_record list \<times> audit_chain) option" where
  "append_events F [] c = Some ([], c)"
| "append_events F (e # es) c =
     (case chain_append F e c of None \<Rightarrow> None
      | Some (r, c') \<Rightarrow> map_option (\<lambda>(rs, c''). (r # rs, c'')) (append_events F es c'))"

lemma append_events_verify:
  assumes "ac_count c + length es \<le> u64_max"
  shows "\<exists>rs c'. append_events F es c = Some (rs, c') \<and> ac_count c' = ac_count c + length es \<and> map ar_event rs = es \<and>
    verify_from F i (ac_head c) rs = Intact (ac_head c') (i + length es) \<and>
    (length (ac_head c) = 32 \<longrightarrow> (\<forall>r \<in> set rs. length (ar_previous_link r) = 32))"
  using assms
proof (induction es arbitrary: c i)
  case (Cons e es)
  let ?r = "\<lparr>ar_previous_link = ac_head c, ar_event = e\<rparr>"
  let ?c = "\<lparr>ac_head = record_link F ?r, ac_count = ac_count c + 1\<rparr>"
  have "chain_append F e c = Some (?r, ?c)" using Cons.prems by (simp add: chain_append_def Let_def)
  moreover obtain rs c' where "append_events F es ?c = Some (rs, c')" "ac_count c' = ac_count c + 1 + length es"
    "map ar_event rs = es" "verify_from F (i + 1) (record_link F ?r) rs = Intact (ac_head c') (i + 1 + length es)"
    "\<forall>r \<in> set rs. length (ar_previous_link r) = 32"
    using Cons.IH [of ?c "i + 1"] Cons.prems by auto
  ultimately show ?case by simp
qed simp

text \<open>What reading back forgets is not part of what is hashed.\<close>

lemma canon_payload [simp]: "event_json F (event_canon e) = event_json F e" "record_link F (record_canon r) = record_link F r"
proof -
  show e: "event_json F (event_canon e) = event_json F e" for e :: audit_event
    by (simp add: event_json_def event_canon_def option.map_comp comp_def)
  show "record_link F (record_canon r) = record_link F r"
    by (simp add: record_link_def record_canon_def to_canonical_bytes_def e)
qed

lemma verify_from_canon: "verify_from F i x (map record_canon rs) = verify_from F i x rs"
proof (induction rs arbitrary: i x)
  case (Cons r rs)
  have "ar_previous_link (record_canon r) = ar_previous_link r" by (simp add: record_canon_def)
  then show ?case using Cons by simp
qed simp

lemma those_map: "(\<And>x. x \<in> set xs \<Longrightarrow> f x = Some (g x)) \<Longrightarrow> those (map f xs) = Some (map g xs)"
  by (induction xs) auto

text \<open>
  C24: Whatever is written to the audit log can be read back. Any history of well-formed events is chained without
  overflow into records of exactly these events, which verify up to the head and count of the chain; every stored payload
  decodes, and the decoded records verify up to the same head and count.
\<close>

theorem audit_history_verifies:
  assumes "list_all event_ok es" "length es \<le> u64_max"
  shows "\<exists>rs c rs'. append_events F es chain_new = Some (rs, c) \<and> ac_count c = length es \<and> map ar_event rs = es \<and>
    verify_chain F rs = Intact (ac_head c) (length es) \<and>
    those (map (\<lambda>r. record_from_payload F (record_to_payload F r)) rs) = Some rs' \<and>
    map ar_event rs' = map event_canon es \<and> verify_chain F rs' = Intact (ac_head c) (length es)"
proof -
  obtain rs c where h: "append_events F es chain_new = Some (rs, c)" "ac_count c = length es" "map ar_event rs = es"
      "verify_from F 0 GENESIS rs = Intact (ac_head c) (length es)" "\<forall>r \<in> set rs. length (ar_previous_link r) = 32"
    using append_events_verify [of chain_new es F 0] assms(2) by (auto simp: chain_new_def GENESIS_def)
  have "those (map (\<lambda>r. record_from_payload F (record_to_payload F r)) rs) = Some (map record_canon rs)"
    using assms(1) h(3,5) by (intro those_map record_payload_roundtrip) (auto simp: record_ok_def list_all_iff)
  moreover have "map ar_event (map record_canon rs) = map event_canon es"
    by (simp add: record_canon_def comp_def flip: h(3))
  ultimately show ?thesis using h verify_from_canon [of F 0 GENESIS rs] unfolding verify_chain_def by metis
qed

theorem audit_history_verifies_witness:
  "\<exists>rs c rs'. append_events witness_ops [witness_event, witness_event] chain_new = Some (rs, c) \<and> ac_count c = 2 \<and>
    map ar_event rs = [witness_event, witness_event] \<and> verify_chain witness_ops rs = Intact (ac_head c) 2 \<and>
    those (map (\<lambda>r. record_from_payload witness_ops (record_to_payload witness_ops r)) rs) = Some rs' \<and>
    map ar_event rs' = map event_canon [witness_event, witness_event] \<and> verify_chain witness_ops rs' = Intact (ac_head c) 2"
  using audit_history_verifies [of "[witness_event, witness_event]" witness_ops] witness_event_ok
  by (simp add: u64_max_def numeral_2_eq_2 del: append_events.simps)

section \<open>Checkpoints bind the head\<close>

text \<open>
  A checkpoint of a chain verifies under its key and survives storage; a checkpoint that verifies carries exactly the
  code of its sequence, head and time, so altering the code alone is always detected.
\<close>

lemma checkpoint_sound:
  "checkpoint_verify (chain_checkpoint n ts key c) key \<and>
   (checkpoint_verify cp key \<longleftrightarrow> cp_mac cp = checkpoint_mac (cp_sequence cp) (cp_link cp) (cp_timestamp_millis cp) key) \<and>
   (n \<le> u64_max \<and> ts \<le> u64_max \<and> length (ac_head c) = 32 \<longrightarrow>
     checkpoint_from_payload (checkpoint_to_payload (chain_checkpoint n ts key c)) = Some (chain_checkpoint n ts key c))"
proof -
  have l: "length (checkpoint_mac n x ts key) = 32" for x
    by (simp add: checkpoint_mac_def hmac_sha256_parts_def hmac_finalize_def finalize_length Let_def)
  show ?thesis
    using checkpoint_codec.dec_enc [of "chain_checkpoint n ts key c"] l
    by (auto simp: checkpoint_verify_def chain_checkpoint_def checkpoint_create_def ct_eq_iff checkpoint_ok_def u64_max_def)
qed

end
