(* ===== verification/Spec2Isabelle.thy ===== *)
theory Spec2Isabelle
  imports Routing Budget_System Admission_System Health Encoding Log Audit_Log
begin

text \<open>
  A verification development for the HypeLLM router (\<open>src/crates\<close>), a gateway that routes requests for language
  models to provider targets under administrator policy, limits, token budgets and health, and keeps its durable state
  in an authenticated log. It covers the router's core logic (\<open>hypellm-core\<close>), its digests and encodings
  (\<open>hypellm-crypto\<close>), the log and audit chain of its store (\<open>hypellm-store\<close>) and its JSON (\<open>wire-json\<close>).

  \<^bold>\<open>The program.\<close> A request is put into canonical form, its caller's key restrictions and grants decide what it may
  use, and the policy snapshot turns the alias it names into an ordered list of candidate targets, consulting the live
  state of target health. Admission then reserves a place in every scope the request passes through (router, tenant,
  key, alias, target and others), and memory on the machine of a local target, or queues it; the budget ledger reserves
  tokens of the key against a mark it keeps durable. The upstream's events are accumulated, its outcome is reported to
  the target's circuit breaker and settles the reservations. Durable records go to an append-only log of framed,
  checksummed and, where they matter for security, authenticated records; request bodies and records are JSON.

  \<^bold>\<open>Conventions.\<close> Unsigned machine integers are naturals and signed ones integers, with every saturating operation
  of the sources written with its bound (\<open>sat_add64\<close> and its kin in \<open>Prelude\<close>); bytes and the arithmetic of digests
  are words at their width; atomic counters that wrap are written with \<open>mod\<close>. A \<open>String\<close> is its UTF-8 bytes. A
  \<open>BTreeMap\<close> is a sorted association list. A struct is a \<open>record\<close>, an enum a \<open>datatype\<close>, and \<open>Result\<close> a sum whose left
  side is the error. What the program reads from its environment is an argument of the operation that reads it: clock
  readings, whether a journal commit or a file operation succeeds and how many bytes a read returns. An operation that
  runs under a mutex is one atomic step; an execution is a sequence of whole operations, and concurrency is every such
  sequence. Mutexes poisoned by a panic are not modelled. Every function is total: loops are recursive
  functions with a termination proof, and nothing is bounded by fuel.

  \<^bold>\<open>Theories\<close>, with the sources they model and what is shown of them.

  \<^item> \<open>Prelude\<close>: saturating arithmetic, ordered maps behind the locale \<open>keyed_store\<close>, stable sorting, decimal text.

  \<^item> \<open>Ids\<close> (\<open>ids.rs\<close>): identifier validation and request ids; a constructed identifier is bounded and free of
    delimiters, and the hexadecimal form of a request id parses back.

  \<^item> \<open>Canonical\<close> (\<open>canonical.rs\<close>), \<open>Targets\<close> (\<open>target.rs\<close>), \<open>Errors\<close> (\<open>error.rs\<close>, \<open>Capped\<close> of \<open>sensitive.rs\<close>),
    \<open>Events\<close> (\<open>event.rs\<close>): the vocabularies with their tokens, token estimates and their monotonicity, the error
    contract, capping on character boundaries, usage merging, and the response accumulator with its bounds.

  \<^item> \<open>Decision\<close> (\<open>decision.rs\<close>), \<open>Access\<close> (\<open>key_restriction.rs\<close>, \<open>fleet_access.rs\<close>), \<open>Policy\<close> and \<open>Routing\<close>
    (\<open>policy.rs\<close>): exclusion reasons and integer scores; grants resolved by one rule, stated as the locale
    \<open>grant_resolution\<close> and interpreted for fleet grants, alias grants and deny rules; binding merge, filters and
    \<open>PolicySnapshot::route\<close>. Shown: the candidates are exactly the permitted, selected targets
    that satisfy every condition of the filters, denies are sticky, pins govern, a key only
    narrows, each permitted target is listed exactly once, the outcome does not depend on configuration order, and
    rank comes before every live term.

  \<^item> \<open>Buckets\<close>, \<open>Scopes\<close>, \<open>Admission\<close>, \<open>Admission_System\<close> (\<open>admission.rs\<close>) and \<open>Machine\<close> (\<open>machine.rs\<close>): the token
    bucket with its rate bound; a scope with its slots, queue and period spend; the controller, whose scopes and
    machine ledgers are shared objects in two heaps; reservations over a chain of scopes, and publications of new
    limits. Shown by rule induction over every interleaving: slots and memory are conserved, limits hold, queues are
    fair, a refused reservation leaves nothing behind, a publication keeps what was counted. The locales
    \<open>reversible\<close> (acquire and roll back) and \<open>scope_memory\<close> are the interfaces between the theories.

  \<^item> \<open>Budget\<close>, \<open>Budget_System\<close> (\<open>budget.rs\<close>): the ledger, its journal, credits, flush and restart. The state
    machine lets the process stop at any point; the ledger rebuilt from the journal never forgets consumption, and a
    credit is applied once.

  \<^item> \<open>Clock\<close> (\<open>time.rs\<close>), \<open>Breaker\<close> and \<open>Health\<close> (\<open>health.rs\<close>): deadlines, moving average, histogram, calendar
    and clock monitor; the rolling window, the breaker as a state machine with its permits, probes and the registry
    routing consults. Shown: probe slots are exact, a breaker opens only on evidence and recovers, and a candidate
    routed on the registry's live state is usable.

  \<^item> \<open>Digest\<close> (\<open>sha256.rs\<close>, \<open>hmac.rs\<close>, \<open>crc32.rs\<close>, \<open>ct.rs\<close>), \<open>Encoding\<close> (\<open>hex.rs\<close>, \<open>base64.rs\<close>): streaming
    digests equal the standards' definitions, encodings round trip and base64 is canonical. \<open>Fips180\<close> states SHA-256 as
    FIPS 180-4 does, independently of the program: the constants are fractional bits of real roots of primes, schedule
    and rounds go by index, padding by the standard's equation. It models no code; \<open>Digest\<close> proves the program's tables,
    schedule, rounds and padding equal to it.

  \<^item> \<open>Frame\<close> and \<open>Log\<close> (\<open>hypellm-store\<close>, \<open>frame.rs\<close> and \<open>log.rs\<close>): encoding and decoding of records; the sliding
    window over a log file, the scan past damage, replay, and appending with rollback and poisoning. Shown: what is
    accepted is authentic, damage is detected, the streaming replay equals the buffered reference replay for every
    way the reads are sized, appending is all or nothing on a failing disk, and after a crash every acknowledged
    record and at most one other is recovered.

  \<^item> \<open>Utf8\<close>, \<open>Json\<close>, \<open>Json_Parse\<close>, \<open>Json_Roundtrip\<close> (\<open>wire-json\<close>): the values, accessors and limits, the strict
    parser and the compact and canonical writers. Shown: what is written is read back, what is accepted is within
    every limit, and the canonical form does not depend on key order. Doubles are an abstract type; that their
    \<open>Debug\<close> text parses back is the hypothesis \<open>f64_text_ok\<close>, which the standard library documents.

  \<^item> \<open>Audit_Log\<close> (\<open>audit.rs\<close>): audit events and their canonical JSON, records chained by SHA-256, signed checkpoints and
    the verification of a chain; the locale \<open>codec\<close> states what a stored encoding promises and is interpreted for
    records and checkpoints. Shown: every history that is written reads back and verifies to the head of the chain,
    and two histories with the same head are the same, unless they contain a collision of the digest.

  \<^bold>\<open>Bounds.\<close> The epochs and change counters of the sources are 64-bit and are taken not to wrap around within one
  process; where a counter's wrap matters it is written out. The equality of streaming digests with the standards
  holds for messages whose bit length fits 64 bits. Log theorems are about files within \<open>MAX_LOG_BYTES\<close>, the
  bound the program itself enforces. What an append wrote is taken to survive a crash, as it does with the
  \<open>sync_on_append\<close> the store opens its log with. Ranks of preferences count up to 64, machine claims are ordered as long as
  their 64-bit arrival numbers last, and the sum of a target's requests in flight is taken to fit its counter. Log recovery assumes that the torn bytes do not themselves contain a later
  record: an unprotected record's bytes inside another record's payload would be taken for one.

  \<^bold>\<open>Not modelled.\<close> Conversation affinity, roles and addresses (\<open>conversation_affinity.rs\<close>, \<open>rbac.rs\<close>,
  \<open>netaddr.rs\<close>); password hashing, secrets and randomness; snapshots and compaction over the log
  (\<open>hypellm-store/src/lib.rs\<close>, \<open>durable.rs\<close>, \<open>activation.rs\<close>); HTTP and server-sent events; fleet
  control; configuration parsing; authentication; provider adapters. They are code of the same kind as what is
  modelled, and are left for size. The router process, management API, networking and telemetry are threads, sockets
  and rendering around the modelled core; development tools and test corpora are not part of the running system.
  Within modelled files, \<open>Debug\<close> and \<open>Display\<close> renderings and condition-variable wake-ups, which carry no data, are
  left out.
\<close>

end
